(* ===== verification/Prelude.thy ===== *)
theory Prelude
  imports Complex_Main "HOL-Library.Word" "HOL-Library.AList" "HOL-Library.Char_ord"
    "HOL-Library.List_Lexorder"
begin

text \<open>
  What every component shares: the machine types of the Go program, its clock
  (\<open>time.Time\<close>, \<open>time.Duration\<close>, saturating \<open>Sub\<close>), the functions of
  \<open>strings\<close> and \<open>strconv\<close> the source calls, bounded append-only logs
  (\<open>append\<close> followed by re-slicing to the last \<open>n\<close> elements), Go maps as association
  lists in iteration order, reachability for step relations, and the looks a cache takes at a file.
  Text is a list of bytes
  (HOL's \<open>char\<close>), as a Go \<open>string\<close> is; white space and letter case are those of
  ASCII.
\<close>

section \<open>Collections of facts\<close>

named_theorems go_simps \<open>defining equations of the small Go helpers\<close>
named_theorems window_simps \<open>facts on bounded logs\<close>

section \<open>Machine types\<close>

type_synonym byte = "8 word"
type_synonym u32 = "32 word"
type_synonym u64 = "64 word"

section \<open>The clock\<close>

text \<open>
  An instant is the number of nanoseconds since the zero \<open>time.Time\<close> (1 January of
  year 1), so \<open>IsZero\<close> is \<open>t = 0\<close>. A \<open>Duration\<close> is an \<open>int64\<close> of nanoseconds:
  \<open>t.Sub(u)\<close> saturates at its bounds. Operations take the reading of the clock as an
  argument \<open>now\<close>, in place of each \<open>time.Now()\<close>.
\<close>

type_synonym gotime = int
type_synonym duration = int

definition zero_time :: gotime where
  [go_simps]: "zero_time = 0"

definition second :: duration where
  [go_simps]: "second = 1000000000"

definition millisecond :: duration where
  [go_simps]: "millisecond = 1000000"

definition max_duration :: duration where
  [go_simps]: "max_duration = 9223372036854775807"

definition min_duration :: duration where
  [go_simps]: "min_duration = - 9223372036854775808"

definition time_sub :: "gotime \<Rightarrow> gotime \<Rightarrow> duration" where
  "time_sub t u = max min_duration (min max_duration (t - u))"

text \<open>\<open>t.Unix()\<close>: whole seconds since 1970, rounded down.\<close>

definition unix :: "gotime \<Rightarrow> int" where
  "unix t = t div second - 62135596800"

text \<open>\<open>time.Unix(s, 0)\<close>.\<close>

definition of_unix :: "int \<Rightarrow> gotime" where
  "of_unix s = (s + 62135596800) * second"

lemma unix_of_unix [simp]: "unix (of_unix s) = s"
  by (simp add: unix_def of_unix_def second_def)

text \<open>Go's integer division truncates towards zero.\<close>

definition go_div :: "int \<Rightarrow> int \<Rightarrow> int" where
  "go_div a b = sgn a * sgn b * (\<bar>a\<bar> div \<bar>b\<bar>)"

definition milliseconds :: "duration \<Rightarrow> int" where
  "milliseconds d = go_div d millisecond"

definition microseconds :: "duration \<Rightarrow> int" where
  "microseconds d = go_div d 1000"

text \<open>\<open>d.Seconds()\<close>; \<open>float64\<close> values are exact rationals in the model.\<close>

definition seconds :: "duration \<Rightarrow> rat" where
  "seconds d = of_int d / 1000000000"

lemma time_sub_exact:
  "min_duration \<le> t - u \<Longrightarrow> t - u \<le> max_duration \<Longrightarrow> time_sub t u = t - u"
  by (simp add: time_sub_def)

lemma time_sub_bounds: "min_duration \<le> time_sub t u \<and> time_sub t u \<le> max_duration"
  by (auto simp: time_sub_def go_simps)

lemma time_sub_ge_iff:
  "min_duration < d \<Longrightarrow> d \<le> max_duration \<Longrightarrow> d \<le> time_sub t u \<longleftrightarrow> d \<le> t - u"
  by (auto simp: time_sub_def go_simps)

lemma time_sub_less_iff:
  "min_duration < d \<Longrightarrow> d \<le> max_duration \<Longrightarrow> time_sub t u < d \<longleftrightarrow> t - u < d"
  by (auto simp: time_sub_def go_simps)

section \<open>Strings\<close>

definition has_prefix :: "string \<Rightarrow> string \<Rightarrow> bool" where
  "has_prefix s p \<longleftrightarrow> take (length p) s = p"

definition trim_prefix :: "string \<Rightarrow> string \<Rightarrow> string" where
  "trim_prefix s p = (if has_prefix s p then drop (length p) s else s)"

text \<open>\<open>strings.Contains\<close>.\<close>

fun contains :: "string \<Rightarrow> string \<Rightarrow> bool" where
  "contains [] sub \<longleftrightarrow> sub = []"
| "contains (c # s) sub \<longleftrightarrow> has_prefix (c # s) sub \<or> contains s sub"

text \<open>
  \<open>strings.TrimSpace\<close> and \<open>strings.Fields\<close> on ASCII text, which is what the options, the
  protocol lines and the key files are made of; the titles of \<open>Meta\<close> are trimmed there by Unicode
  characters.
\<close>

definition is_space :: "char \<Rightarrow> bool" where
  "is_space c \<longleftrightarrow> of_char c \<in> {9, 10, 11, 12, 13, 32 :: nat}"

definition trim_left :: "('a \<Rightarrow> bool) \<Rightarrow> 'a list \<Rightarrow> 'a list" where
  "trim_left P s = dropWhile P s"

definition trim_right :: "('a \<Rightarrow> bool) \<Rightarrow> 'a list \<Rightarrow> 'a list" where
  "trim_right P s = rev (dropWhile P (rev s))"

definition trim_space :: "string \<Rightarrow> string" where
  "trim_space s = trim_right is_space (trim_left is_space s)"

text \<open>\<open>strings.Split(s, sep)\<close> for a one-byte separator: never the empty list.\<close>

fun split_on :: "char \<Rightarrow> string \<Rightarrow> string list" where
  "split_on c [] = [[]]"
| "split_on c (x # xs) =
     (if x = c then [] # split_on c xs
      else (case split_on c xs of [] \<Rightarrow> [[x]] | y # ys \<Rightarrow> (x # y) # ys))"

fun join :: "string \<Rightarrow> string list \<Rightarrow> string" where
  "join sep [] = []"
| "join sep [x] = x"
| "join sep (x # y # ys) = x @ sep @ join sep (y # ys)"

text \<open>\<open>strings.Fields\<close>: the maximal runs of non-space bytes.\<close>

function Fields :: "string \<Rightarrow> string list" where
  "Fields s =
     (let r = dropWhile is_space s in
      if r = [] then []
      else takeWhile (\<lambda>c. \<not> is_space c) r # Fields (dropWhile (\<lambda>c. \<not> is_space c) r))"
  by pat_completeness auto
termination
proof (relation "measure length")
  show "wf (measure (length :: string \<Rightarrow> nat))" by simp
next
  fix s r :: string
  assume r: "r = dropWhile is_space s" and ne: "r \<noteq> []"
  from ne obtain c cs where cs: "r = c # cs" by (cases r) auto
  from r ne have "\<not> is_space (hd r)" by (metis hd_dropWhile)
  with cs have "length (dropWhile (\<lambda>c. \<not> is_space c) r) < length r"
    by (simp add: le_imp_less_Suc length_dropWhile_le)
  also have "\<dots> \<le> length s" by (simp add: r length_dropWhile_le)
  finally show "(dropWhile (\<lambda>c. \<not> is_space c) r, s) \<in> measure length" by simp
qed

declare Fields.simps [simp del]

definition to_lower_char :: "char \<Rightarrow> char" where
  "to_lower_char c =
     (let n = (of_char c :: nat) in if 65 \<le> n \<and> n \<le> 90 then char_of (n + 32) else c)"

definition to_upper_char :: "char \<Rightarrow> char" where
  "to_upper_char c =
     (let n = (of_char c :: nat) in if 97 \<le> n \<and> n \<le> 122 then char_of (n - 32) else c)"

definition to_lower :: "string \<Rightarrow> string" where
  "to_lower s = map to_lower_char s"

definition to_upper :: "string \<Rightarrow> string" where
  "to_upper s = map to_upper_char s"

text \<open>\<open>[]byte(s)\<close> and \<open>string(b)\<close>.\<close>

definition byte_of_char :: "char \<Rightarrow> byte" where
  "byte_of_char c = of_char c"

definition char_of_byte :: "byte \<Rightarrow> char" where
  "char_of_byte b = char_of (unat b)"

lemma unat_byte_of_char: "unat (byte_of_char c) = of_char c"
proof -
  have "byte_of_char c = of_nat (of_char c)" by (simp add: byte_of_char_def of_nat_of_char)
  then show ?thesis by (simp add: unat_of_nat)
qed

lemma char_of_byte_of_char [simp]: "char_of_byte (byte_of_char c) = c"
  by (simp add: char_of_byte_def unat_byte_of_char)

lemma byte_of_char_of_byte [simp]: "byte_of_char (char_of_byte b) = b"
proof -
  have "unat b < 256" using unsigned_less [of b] by simp
  then have "unat (byte_of_char (char_of_byte b)) = unat b"
    by (simp add: unat_byte_of_char char_of_byte_def)
  then show ?thesis by (simp only: word_unat_eq_iff)
qed

lemma byte_char_comp [simp]: "byte_of_char \<circ> char_of_byte = id" "char_of_byte \<circ> byte_of_char = id"
  by auto

lemma split_on_nonempty [simp]: "split_on c s \<noteq> []"
  by (cases s) (auto split: list.splits)

lemma split_on_no_sep: "c \<notin> set s \<Longrightarrow> split_on c s = [s]"
  by (induction s) auto

lemma split_on_append_sep: "c \<notin> set s \<Longrightarrow> split_on c (s @ c # t) = s # split_on c t"
  by (induction s) auto

lemma split_on_sep_free: "x \<in> set (split_on c s) \<Longrightarrow> c \<notin> set x"
  by (induction s arbitrary: x) (auto split: if_splits list.splits)

lemma split_on_join:
  "xs \<noteq> [] \<Longrightarrow> \<forall>x \<in> set xs. c \<notin> set x \<Longrightarrow> split_on c (join [c] xs) = xs"
proof (induction xs rule: induct_list012)
  case (3 x y zs)
  then show ?case by (simp add: split_on_append_sep)
qed (auto simp: split_on_no_sep)

lemma join_split_on: "join [c] (split_on c s) = s"
proof (induction s)
  case (Cons x xs)
  show ?case
  proof (cases "split_on c xs")
    case (Cons y ys)
    then show ?thesis using Cons.IH by (cases ys) auto
  qed simp
qed simp

section \<open>Addresses\<close>

fun index_byte :: "char \<Rightarrow> string \<Rightarrow> nat option" where
  "index_byte c [] = None"
| "index_byte c (x # xs) = (if x = c then Some 0 else map_option Suc (index_byte c xs))"

definition last_index_byte :: "char \<Rightarrow> string \<Rightarrow> nat option" where
  "last_index_byte c s = map_option (\<lambda>i. length s - 1 - i) (index_byte c (rev s))"

text \<open>\<open>net.SplitHostPort\<close>; \<open>None\<close> is its error.\<close>

definition split_host_port :: "string \<Rightarrow> (string \<times> string) option" where
  "split_host_port s =
     (case last_index_byte (CHR '':'') s of
        None \<Rightarrow> None
      | Some i \<Rightarrow>
          (if hd s = CHR ''['' then
             (case index_byte (CHR '']'') s of
                None \<Rightarrow> None
              | Some e \<Rightarrow>
                  (if e + 1 = i \<and> CHR ''['' \<notin> set (drop 1 s) \<and> CHR '']'' \<notin> set (drop (e + 1) s)
                   then Some (take (e - 1) (drop 1 s), drop (i + 1) s) else None))
           else
             (let host = take i s in
              if CHR '':'' \<in> set host \<or> CHR ''['' \<in> set s \<or> CHR '']'' \<in> set s then None
              else Some (host, drop (i + 1) s))))"

lemma index_byte_fresh: "c \<notin> set xs \<Longrightarrow> index_byte c (xs @ c # ys) = Some (length xs)"
  by (induction xs) auto

lemma last_index_byte_fresh:
  "c \<notin> set ys \<Longrightarrow> last_index_byte c (xs @ c # ys) = Some (length xs)"
  by (simp add: last_index_byte_def index_byte_fresh)

text \<open>A host and a port without colons or brackets, joined by a colon, split again.\<close>

lemma split_host_port_plain:
  assumes "h \<noteq> []" and "\<forall>c \<in> set h \<union> set p. c \<notin> {CHR '':'', CHR ''['', CHR '']''}"
  shows "split_host_port (h @ CHR '':'' # p) = Some (h, p)"
proof -
  have "hd (h @ CHR '':'' # p) \<in> set h" using assms(1) by simp
  then have "hd (h @ CHR '':'' # p) \<noteq> CHR ''[''" using assms(2) by blast
  moreover have "last_index_byte (CHR '':'') (h @ CHR '':'' # p) = Some (length h)"
    using assms(2) by (intro last_index_byte_fresh) blast
  ultimately show ?thesis using assms(2) by (auto simp: split_host_port_def Let_def)
qed

section \<open>Decimal numbers\<close>

definition digit_char :: "nat \<Rightarrow> char" where
  "digit_char d = char_of (48 + d)"

definition digit_val :: "char \<Rightarrow> nat option" where
  "digit_val c =
     (let n = (of_char c :: nat) in if 48 \<le> n \<and> n \<le> 57 then Some (n - 48) else None)"

fun show_nat :: "nat \<Rightarrow> string" where
  "show_nat n =
     (if n < 10 then [digit_char n] else show_nat (n div 10) @ [digit_char (n mod 10)])"

declare show_nat.simps [simp del]

text \<open>\<open>strconv.Itoa\<close>.\<close>

definition itoa :: "int \<Rightarrow> string" where
  "itoa i = (if i < 0 then CHR ''-'' # show_nat (nat (- i)) else show_nat (nat i))"

fun digits_val :: "nat \<Rightarrow> string \<Rightarrow> nat option" where
  "digits_val acc [] = Some acc"
| "digits_val acc (c # cs) =
     (case digit_val c of None \<Rightarrow> None | Some d \<Rightarrow> digits_val (acc * 10 + d) cs)"

text \<open>
  \<open>strconv.ParseInt(s, 10, bits)\<close>: an optional sign, at least one digit, only digits,
  and a value that fits \<open>bits\<close> bits; \<open>None\<close> is the error. \<open>Atoi\<close> is the same at the
  width of \<open>int\<close>, 64 bits unless a definition takes the width as an argument.
\<close>

definition split_sign :: "string \<Rightarrow> bool \<times> string" where
  "split_sign s =
     (case s of [] \<Rightarrow> (False, [])
      | c # cs \<Rightarrow>
         (if c = CHR ''+'' then (False, cs) else if c = CHR ''-'' then (True, cs)
          else (False, s)))"

definition parse_int :: "nat \<Rightarrow> string \<Rightarrow> int option" where
  "parse_int bits s =
     (let (neg, ds) = split_sign s in
      if ds = [] then None
      else (case digits_val 0 ds of
              None \<Rightarrow> None
            | Some u \<Rightarrow>
                (if neg then (if u \<le> 2 ^ (bits - 1) then Some (- int u) else None)
                 else (if u < 2 ^ (bits - 1) then Some (int u) else None))))"

definition atoi :: "string \<Rightarrow> int option" where
  "atoi s = parse_int 64 s"

lemma digit_val_digit_char: "d < 10 \<Longrightarrow> digit_val (digit_char d) = Some d"
  by (simp add: digit_val_def digit_char_def Let_def)

lemma digits_val_append:
  "digits_val acc (xs @ ys) =
     (case digits_val acc xs of None \<Rightarrow> None | Some v \<Rightarrow> digits_val v ys)"
  by (induction acc xs rule: digits_val.induct) (auto split: option.splits)

lemma show_nat_nonempty [simp]: "show_nat n \<noteq> []"
  by (subst show_nat.simps) simp

lemma digits_val_show_nat: "digits_val 0 (show_nat n) = Some n"
proof (induction n rule: show_nat.induct)
  case (1 n)
  show ?case
  proof (cases "n < 10")
    case True
    then show ?thesis by (simp add: show_nat.simps [of n] digit_val_digit_char)
  next
    case False
    with "1.IH" have "digits_val 0 (show_nat (n div 10)) = Some (n div 10)" by simp
    with False show ?thesis
      by (simp add: show_nat.simps [of n] digits_val_append digit_val_digit_char)
  qed
qed

lemma show_nat_digits: "c \<in> set (show_nat n) \<Longrightarrow> \<exists>d < 10. c = digit_char d"
proof (induction n rule: show_nat.induct)
  case (1 n)
  show ?case
  proof (cases "n < 10")
    case True
    with "1.prems" show ?thesis by (auto simp: show_nat.simps [of n])
  next
    case False
    with "1.prems" have "c \<in> set (show_nat (n div 10)) \<or> c = digit_char (n mod 10)"
      by (auto simp: show_nat.simps [of n])
    with False "1.IH" show ?thesis by (metis mod_less_divisor zero_less_numeral)
  qed
qed

lemma digit_char_code: "d < 10 \<Longrightarrow> of_char (digit_char d) = 48 + d"
  by (simp add: digit_char_def)

lemma digit_char_no_sign:
  "d < 10 \<Longrightarrow> digit_char d \<noteq> CHR ''-'' \<and> digit_char d \<noteq> CHR ''+''"
  using digit_char_code [of d] by auto

lemma split_sign_show_nat: "split_sign (show_nat n) = (False, show_nat n)"
proof (cases "show_nat n")
  case (Cons c cs)
  then have "c \<in> set (show_nat n)" by simp
  then obtain d where "d < 10" and "c = digit_char d" using show_nat_digits by blast
  with Cons show ?thesis by (simp add: split_sign_def digit_char_no_sign)
qed simp

lemma split_sign_neg: "split_sign (CHR ''-'' # cs) = (True, cs)"
  by (simp add: split_sign_def)

theorem parse_int_itoa:
  assumes "- (2 ^ (bits - 1)) \<le> i" and "i < 2 ^ (bits - 1)"
  shows "parse_int bits (itoa i) = Some i"
proof (cases "i < 0")
  case True
  with assms have "nat (- i) \<le> 2 ^ (bits - 1)" by (simp add: nat_le_iff)
  with True show ?thesis
    by (simp add: parse_int_def itoa_def split_sign_neg digits_val_show_nat)
next
  case False
  with assms have "nat i < 2 ^ (bits - 1)" by (simp add: nat_less_iff)
  with False show ?thesis
    by (simp add: parse_int_def itoa_def split_sign_show_nat digits_val_show_nat)
qed

section \<open>Words of a line\<close>

lemma dropWhile_none: "\<forall>c \<in> set s. \<not> P c \<Longrightarrow> dropWhile P s = s"
  by (cases s) auto

lemma dropWhile_all_not: "s = [] \<or> \<not> P (hd s) \<Longrightarrow> dropWhile P s = s"
  by (cases s) auto

lemma trim_space_ends:
  "s = [] \<or> (\<not> is_space (hd s) \<and> \<not> is_space (last s)) \<Longrightarrow> trim_space s = s"
  by (auto simp: trim_space_def trim_left_def trim_right_def dropWhile_all_not hd_rev)

lemma trim_space_plain: "\<forall>c \<in> set s. \<not> is_space c \<Longrightarrow> trim_space s = s"
  by (rule trim_space_ends) (metis hd_in_set last_in_set)

lemma takeWhile_upto: "\<forall>c \<in> set s. P c \<Longrightarrow> t = [] \<or> \<not> P (hd t) \<Longrightarrow> takeWhile P (s @ t) = s"
  by (induction s) (cases t; auto)+

lemma dropWhile_upto: "\<forall>c \<in> set s. P c \<Longrightarrow> t = [] \<or> \<not> P (hd t) \<Longrightarrow> dropWhile P (s @ t) = t"
  by (induction s) (cases t; auto)+

lemma fields_cons:
  assumes "s \<noteq> []" and "\<forall>c \<in> set s. \<not> is_space c" and "t = [] \<or> is_space (hd t)"
  shows "Fields (s @ t) = s # Fields t"
proof -
  have "dropWhile is_space (s @ t) = s @ t" using assms(1,2) by (cases s) auto
  moreover have "takeWhile (\<lambda>c. \<not> is_space c) (s @ t) = s"
    using assms(2,3) by (intro takeWhile_upto) auto
  moreover have "dropWhile (\<lambda>c. \<not> is_space c) (s @ t) = t"
    using assms(2,3) by (intro dropWhile_upto) auto
  ultimately show ?thesis using assms(1) by (simp add: Fields.simps [of "s @ t"] Let_def)
qed

lemma fields_space: "is_space c \<Longrightarrow> Fields (c # s) = Fields s"
  by (simp add: Fields.simps [of "c # s"] Fields.simps [of s])

lemma fields_word: "s \<noteq> [] \<Longrightarrow> \<forall>c \<in> set s. \<not> is_space c \<Longrightarrow> Fields s = [s]"
  using fields_cons [of s "[]"] by (simp add: Fields.simps [of "[]"])

section \<open>Printed numbers\<close>

lemma itoa_chars: "c \<in> set (itoa (int p)) \<Longrightarrow> digit_val c \<noteq> None"
  by (auto simp: itoa_def digit_val_digit_char dest!: show_nat_digits)

lemma itoa_nonempty [simp]: "itoa i \<noteq> []"
  by (simp add: itoa_def)

lemma itoa_no_space: "c \<in> set (itoa i) \<Longrightarrow> \<not> is_space c"
proof -
  assume c: "c \<in> set (itoa i)"
  have d: "\<not> is_space (digit_char d)" if "d < 10" for d
    using digit_char_code [OF that] that by (auto simp: is_space_def)
  from c show ?thesis by (auto simp: itoa_def is_space_def dest!: show_nat_digits split: if_splits)
      (use d in \<open>auto simp: is_space_def\<close>)
qed

section \<open>Bounded logs\<close>

text \<open>
  \<open>xs = append(xs, x); if len(xs) > n { xs = xs[len(xs)-n:] }\<close>, as the history, the
  heartbeat window and the ring of failed attempts are kept.
\<close>

definition push_window :: "nat \<Rightarrow> 'a list \<Rightarrow> 'a \<Rightarrow> 'a list" where
  "push_window n xs x =
     (let ys = xs @ [x] in if n < length ys then drop (length ys - n) ys else ys)"

definition keep_last :: "nat \<Rightarrow> 'a list \<Rightarrow> 'a list" where
  "keep_last n xs = drop (length xs - n) xs"

lemma push_window_keep_last [window_simps]: "push_window n xs x = keep_last n (xs @ [x])"
  by (simp add: push_window_def keep_last_def Let_def)

lemma length_keep_last [window_simps]: "length (keep_last n xs) = min n (length xs)"
  by (simp add: keep_last_def)

lemma keep_last_short: "length xs \<le> n \<Longrightarrow> keep_last n xs = xs"
  by (simp add: keep_last_def)

lemma keep_last_append: "keep_last n (keep_last n xs @ ys) = keep_last n (xs @ ys)"
  by (cases "length xs \<le> n") (auto simp: keep_last_def add.commute)

lemma rev_keep_last: "rev (keep_last n xs) = take n (rev xs)"
  by (cases "length xs \<le> n") (auto simp: keep_last_def rev_drop)

lemma last_push_window: "0 < n \<Longrightarrow> last (push_window n xs x) = x"
  by (auto simp: push_window_def Let_def last_drop)

text \<open>
  The contract of a bounded log, for any state that carries one: \<open>push\<close> is the
  operation, \<open>log\<close> reads the list out of the state.
\<close>

locale bounded_log =
  fixes cap :: nat
    and push :: "'s \<Rightarrow> 'e \<Rightarrow> 's"
    and log :: "'s \<Rightarrow> 'a list"
    and item :: "'e \<Rightarrow> 'a list"
  assumes log_push: "length (log s) \<le> cap \<Longrightarrow> log (push s e) = keep_last cap (log s @ item e)"
begin

lemma length_push: "length (log s) \<le> cap \<Longrightarrow> length (log (push s e)) \<le> cap"
  by (simp add: log_push length_keep_last)

lemma log_pushes:
  "length (log s) \<le> cap \<Longrightarrow>
     log (foldl push s es) = keep_last cap (log s @ concat (map item es))"
proof (induction es arbitrary: s)
  case Nil
  then show ?case by (simp add: keep_last_short)
next
  case (Cons e es)
  have "log (foldl push (push s e) es)
      = keep_last cap (log (push s e) @ concat (map item es))"
    using Cons.prems by (intro Cons.IH length_push)
  with Cons.prems show ?case by (simp add: log_push keep_last_append)
qed

lemma length_pushes:
  "length (log s) \<le> cap \<Longrightarrow> length (log (foldl push s es)) \<le> cap"
  by (simp add: log_pushes length_keep_last)

end

section \<open>Go maps in iteration order\<close>

text \<open>
  A Go map whose entries the code ranges over is an association list with distinct keys;
  the order of the list is the (unspecified) iteration order, and theorems hold for any.
\<close>

abbreviation get :: "('k \<times> 'v) list \<Rightarrow> 'k \<Rightarrow> 'v option" where
  "get m k \<equiv> map_of m k"

abbreviation put :: "'k \<Rightarrow> 'v \<Rightarrow> ('k \<times> 'v) list \<Rightarrow> ('k \<times> 'v) list" where
  "put k v m \<equiv> AList.update k v m"

abbreviation keys_ok :: "('k \<times> 'v) list \<Rightarrow> bool" where
  "keys_ok m \<equiv> distinct (map fst m)"

lemma get_put [simp]: "get (put k v m) k' = (if k' = k then Some v else get m k')"
  by (simp add: update_conv')

lemma keys_ok_put: "keys_ok m \<Longrightarrow> keys_ok (put k v m)"
  by (rule distinct_update)

lemma get_map_values: "get (map (\<lambda>(k, v). (k, f k v)) m) k = map_option (f k) (get m k)"
  by (induction m) auto

lemma keys_map_values: "map fst (map (\<lambda>(k, v). (k, f k v)) m) = map fst m"
  by (induction m) auto

section \<open>Reachable states and invariants\<close>

inductive reach :: "('s \<Rightarrow> bool) \<Rightarrow> ('s \<Rightarrow> 's \<Rightarrow> bool) \<Rightarrow> 's \<Rightarrow> bool"
  for start :: "'s \<Rightarrow> bool" and step :: "'s \<Rightarrow> 's \<Rightarrow> bool"
where
  reach_start: "start s \<Longrightarrow> reach start step s"
| reach_step: "reach start step s \<Longrightarrow> step s t \<Longrightarrow> reach start step t"

lemma reach_mono: "reach P step s \<Longrightarrow> (\<And>s. P s \<Longrightarrow> Q s) \<Longrightarrow> reach Q step s"
  by (induction rule: reach.induct) (auto intro: reach.intros)

text \<open>The contract of an inductive invariant, and what it gives.\<close>

locale invariant =
  fixes start :: "'s \<Rightarrow> bool"
    and step :: "'s \<Rightarrow> 's \<Rightarrow> bool"
    and inv :: "'s \<Rightarrow> bool"
  assumes inv_start: "start s \<Longrightarrow> inv s"
    and inv_step: "inv s \<Longrightarrow> step s t \<Longrightarrow> inv t"
begin

lemma inv_reach: "reach start step s \<Longrightarrow> inv s"
  by (induction rule: reach.induct) (auto intro: inv_start inv_step)

end

text \<open>
  The contract of a refinement: every operation of the code, as a function of its state and an
  event, is followed by the specification's.
\<close>

locale simulation =
  fixes step :: "'s \<Rightarrow> 'e \<Rightarrow> 's"
    and spec :: "'a \<Rightarrow> 'e \<Rightarrow> 'a"
    and rel :: "'s \<Rightarrow> 'a \<Rightarrow> bool"
  assumes sim_step: "rel s a \<Longrightarrow> rel (step s e) (spec a e)"
begin

lemma sim_run: "rel s a \<Longrightarrow> rel (foldl step s es) (foldl spec a es)"
  by (induction es arbitrary: s a) (simp_all add: sim_step)

end

section \<open>Files read through a cache\<close>

text \<open>
  What one look at a file finds: \<open>None\<close> when it cannot be examined, otherwise its stamp (the
  modification time, with the size where the code compares it) and what a read returns (\<open>None\<close> when
  it fails). The two are independent: a file may change and keep its stamp, and may change between
  the examination and the read.
\<close>

type_synonym 'm file_obs = "('m \<times> string option) option"

text \<open>The contents that could be read, oldest first.\<close>

definition readable :: "'m file_obs list \<Rightarrow> ('m \<times> string) list" where
  "readable obs =
     List.map_filter (\<lambda>ob. case ob of Some (m, Some d) \<Rightarrow> Some (m, d) | _ \<Rightarrow> None) obs"

text \<open>Every edit gives the file a stamp it has not had before.\<close>

definition edits_show :: "'m file_obs list \<Rightarrow> bool" where
  "edits_show obs \<longleftrightarrow>
     (\<forall>x \<in> set (readable obs). \<forall>y \<in> set (readable obs). fst x = fst y \<longrightarrow> snd x = snd y)"

lemma readable_snoc:
  "readable (obs @ [ob]) = readable obs @ (case ob of Some (m, Some d) \<Rightarrow> [(m, d)] | _ \<Rightarrow> [])"
  by (auto simp: readable_def List.map_filter_def split: option.split)

lemma edits_show_butlast: "edits_show (obs @ [ob]) \<Longrightarrow> edits_show obs"
  by (simp add: edits_show_def readable_snoc)

section \<open>Accept loops\<close>

text \<open>
  The loop of a server over what \<open>Accept\<close> returns, \<open>None\<close> being an error: what was started for each
  connection, and whether the loop has returned.
\<close>

fun accept_loop :: "('c \<Rightarrow> 'h) \<Rightarrow> 'c option list \<Rightarrow> 'h list \<times> bool" where
  "accept_loop handle [] = ([], False)"
| "accept_loop handle (None # cs) = ([], True)"
| "accept_loop handle (Some c # cs) = (let (hs, done) = accept_loop handle cs in (handle c # hs, done))"

lemma accept_loop_cut:
  "accept_loop handle cs = (map (handle \<circ> the) (takeWhile (\<lambda>c. c \<noteq> None) cs), None \<in> set cs)"
  by (induction handle cs rule: accept_loop.induct) auto

end
