(* ===== verification/Attempts.thy ===== *)
theory Attempts
  imports Prelude
begin

text \<open>
  The record of connections that reached the server, \<open>internal/monitor/attempts.go\<close>: per
  remote address the last contact, the last success and the failures since, a ring of the
  latest failures, the decision whether a failure is logged or suppressed, and the diagnosis
  of an offline client.
\<close>

section \<open>State and operations\<close>

definition ringLen :: nat where "ringLen = 50"

definition logEvery :: duration where "logEvery = 300 * second"

record attempt =
  At :: int
  IP :: string
  Client_name :: string
  Error_text :: string
  Millis :: int

record ip_stat =
  lastAt :: gotime
  lastOK :: gotime
  lastErr :: string
  failsSince :: int
  lastLogged :: gotime
  suppressed :: int

record attempts =
  ips :: "string \<rightharpoonup> ip_stat"
  ring :: "attempt list"

definition zero_ip_stat :: ip_stat where
  "zero_ip_stat = \<lparr>lastAt = zero_time, lastOK = zero_time, lastErr = [], failsSince = 0,
                   lastLogged = zero_time, suppressed = 0\<rparr>"

definition NewAttempts :: attempts where
  "NewAttempts = \<lparr>ips = Map.empty, ring = []\<rparr>"

text \<open>
  \<open>err\<close> is \<open>None\<close> for an authenticated session and the text of the error otherwise. The
  result is the new state, whether to log now, and the number of failures suppressed since
  the last log.
\<close>

definition Record ::
  "attempts \<Rightarrow> gotime \<Rightarrow> string \<Rightarrow> string \<Rightarrow> duration \<Rightarrow> string option \<Rightarrow> bool \<Rightarrow> bool \<Rightarrow>
     attempts \<times> bool \<times> int" where
  "Record a now ip client d err always trivial =
     (let s = (case ips a ip of None \<Rightarrow> zero_ip_stat | Some s \<Rightarrow> s);
          s = s\<lparr>lastAt := now\<rparr>
      in case err of
           None \<Rightarrow>
             (a\<lparr>ips := (ips a)(ip \<mapsto> s\<lparr>lastOK := now, lastErr := [], failsSince := 0\<rparr>)\<rparr>, False, 0)
         | Some e \<Rightarrow>
             (if trivial then (a\<lparr>ips := (ips a)(ip \<mapsto> s)\<rparr>, False, 0)
              else
                let s = s\<lparr>lastErr := e, failsSince := failsSince s + 1\<rparr>;
                    r = push_window ringLen (ring a)
                          \<lparr>At = unix now, IP = ip, Client_name = client, Error_text = e,
                           Millis = milliseconds d\<rparr>
                in if always \<or> lastLogged s = zero_time \<or> logEvery \<le> time_sub now (lastLogged s)
                   then (a\<lparr>ips := (ips a)(ip \<mapsto> s\<lparr>suppressed := 0, lastLogged := now\<rparr>), ring := r\<rparr>,
                         True, suppressed s)
                   else (a\<lparr>ips := (ips a)(ip \<mapsto> s\<lparr>suppressed := suppressed s + 1\<rparr>), ring := r\<rparr>,
                         False, 0)))"

definition Recent :: "attempts \<Rightarrow> nat \<Rightarrow> attempt list" where
  "Recent a n = take n (rev (ring a))"

text \<open>The sentence \<open>Diagnose\<close> formats, by its cases and the values it is formatted from.\<close>

datatype diagnosis =
    NoIPKnown
  | NothingArrived string
  | ConnectedAgain string duration
  | ReachedAndFailed int string duration string

definition Diagnose :: "attempts \<Rightarrow> gotime \<Rightarrow> string \<Rightarrow> int \<Rightarrow> diagnosis \<times> rat \<times> string \<times> int" where
  "Diagnose a now ip lastSeen =
     (if ip = [] then (NoIPKnown, -1, [], 0)
      else case ips a ip of
        None \<Rightarrow> (NothingArrived ip, -1, [], 0)
      | Some st \<Rightarrow>
          (if 0 < lastSeen \<and> \<not> of_unix lastSeen < lastAt st then (NothingArrived ip, -1, [], 0)
           else
             let ago = seconds (time_sub now (lastAt st))
             in if failsSince st = 0 then (ConnectedAgain ip (time_sub now (lastOK st)), ago, [], 0)
                else (ReachedAndFailed (failsSince st) ip (time_sub now (lastAt st)) (lastErr st),
                      ago, lastErr st, failsSince st)))"

section \<open>Histories\<close>

text \<open>The arguments of one call of \<open>Record\<close>.\<close>

record outcome =
  o_now :: gotime
  o_ip :: string
  o_client :: string
  o_dur :: duration
  o_err :: "string option"
  o_always :: bool
  o_trivial :: bool

definition record_outcome :: "attempts \<Rightarrow> outcome \<Rightarrow> attempts \<times> bool \<times> int" where
  "record_outcome a c =
     Record a (o_now c) (o_ip c) (o_client c) (o_dur c) (o_err c) (o_always c) (o_trivial c)"

definition record_all :: "attempts \<Rightarrow> outcome list \<Rightarrow> attempts" where
  "record_all a cs = foldl (\<lambda>a c. fst (record_outcome a c)) a cs"

text \<open>A failure that is kept: an error that is not trivial.\<close>

definition kept :: "outcome \<Rightarrow> bool" where
  "kept c \<longleftrightarrow> o_err c \<noteq> None \<and> \<not> o_trivial c"

definition attempt_of :: "outcome \<Rightarrow> attempt" where
  "attempt_of c = \<lparr>At = unix (o_now c), IP = o_ip c, Client_name = o_client c,
                   Error_text = the (o_err c), Millis = milliseconds (o_dur c)\<rparr>"

definition stat_of :: "attempts \<Rightarrow> string \<Rightarrow> ip_stat" where
  "stat_of a ip = (case ips a ip of None \<Rightarrow> zero_ip_stat | Some s \<Rightarrow> s)"

lemma record_outcome_ring:
  "ring (fst (record_outcome a c)) =
     (if kept c then push_window ringLen (ring a) (attempt_of c) else ring a)"
  by (auto simp: record_outcome_def Record_def kept_def attempt_of_def Let_def split: option.splits)

lemma record_outcome_stat:
  "stat_of (fst (record_outcome a c)) ip =
     (if o_ip c \<noteq> ip then stat_of a ip
      else let s = (stat_of a ip)\<lparr>lastAt := o_now c\<rparr> in
        case o_err c of
          None \<Rightarrow> s\<lparr>lastOK := o_now c, lastErr := [], failsSince := 0\<rparr>
        | Some e \<Rightarrow>
            (if o_trivial c then s
             else let s = s\<lparr>lastErr := e, failsSince := failsSince s + 1\<rparr> in
               if fst (snd (record_outcome a c)) then s\<lparr>suppressed := 0, lastLogged := o_now c\<rparr>
               else s\<lparr>suppressed := suppressed s + 1\<rparr>))"
  by (auto simp: record_outcome_def Record_def stat_of_def Let_def split: option.splits)

lemma record_outcome_ips:
  "ips (fst (record_outcome a c)) ip = None \<longleftrightarrow> ips a ip = None \<and> o_ip c \<noteq> ip"
  by (auto simp: record_outcome_def Record_def Let_def split: option.splits)

interpretation att_ring: bounded_log ringLen "\<lambda>a c. fst (record_outcome a c)" ring
  "\<lambda>c. if kept c then [attempt_of c] else []"
  by unfold_locales (auto simp: record_outcome_ring push_window_keep_last keep_last_short)

lemma record_all_Nil [simp]: "record_all a [] = a"
  by (simp add: record_all_def)

lemma record_all_snoc: "record_all a (cs @ [c]) = fst (record_outcome (record_all a cs) c)"
  by (simp add: record_all_def)

section \<open>What a history says of one address\<close>

definition from_ip :: "string \<Rightarrow> outcome list \<Rightarrow> outcome list" where
  "from_ip ip cs = filter (\<lambda>c. o_ip c = ip) cs"

definition fails_since :: "string \<Rightarrow> outcome list \<Rightarrow> int" where
  "fails_since ip cs =
     int (length (filter kept (takeWhile (\<lambda>c. o_err c \<noteq> None) (rev (from_ip ip cs)))))"

definition last_success :: "string \<Rightarrow> outcome list \<Rightarrow> gotime" where
  "last_success ip cs =
     (case filter (\<lambda>c. o_err c = None) (rev (from_ip ip cs)) of [] \<Rightarrow> zero_time | c # _ \<Rightarrow> o_now c)"

definition last_failure :: "string \<Rightarrow> outcome list \<Rightarrow> string" where
  "last_failure ip cs =
     (case filter kept (takeWhile (\<lambda>c. o_err c \<noteq> None) (rev (from_ip ip cs))) of
        [] \<Rightarrow> [] | c # _ \<Rightarrow> the (o_err c))"

lemma from_ip_snoc: "from_ip ip (cs @ [c]) = from_ip ip cs @ (if o_ip c = ip then [c] else [])"
  by (simp add: from_ip_def)

lemma record_all_ips: "ips (record_all NewAttempts cs) ip = None \<longleftrightarrow> from_ip ip cs = []"
  by (induction cs rule: rev_induct)
    (auto simp: record_all_snoc record_outcome_ips from_ip_snoc, auto simp: NewAttempts_def from_ip_def)

lemma stat_of_NewAttempts [simp]: "stat_of NewAttempts ip = zero_ip_stat"
  by (simp add: stat_of_def NewAttempts_def)

text \<open>The entry of an address is a function of what was recorded for it.\<close>

lemma record_all_stat:
  "failsSince (stat_of (record_all NewAttempts cs) ip) = fails_since ip cs \<and>
   lastOK (stat_of (record_all NewAttempts cs) ip) = last_success ip cs \<and>
   lastErr (stat_of (record_all NewAttempts cs) ip) = last_failure ip cs \<and>
   (from_ip ip cs \<noteq> [] \<longrightarrow>
      lastAt (stat_of (record_all NewAttempts cs) ip) = o_now (last (from_ip ip cs)))"
proof (induction cs rule: rev_induct)
  case Nil
  then show ?case
    by (simp add: zero_ip_stat_def fails_since_def last_success_def last_failure_def from_ip_def)
next
  case (snoc c cs)
  show ?case
  proof (cases "o_ip c = ip")
    case False
    then have "from_ip ip (cs @ [c]) = from_ip ip cs" by (simp add: from_ip_snoc)
    with False snoc.IH show ?thesis
      by (simp add: record_all_snoc record_outcome_stat fails_since_def last_success_def last_failure_def)
  next
    case True
    then have f: "from_ip ip (cs @ [c]) = from_ip ip cs @ [c]" by (simp add: from_ip_snoc)
    show ?thesis
      using True snoc.IH
      by (cases "o_err c")
        (auto simp: record_all_snoc record_outcome_stat fails_since_def last_success_def
          last_failure_def f kept_def Let_def)
  qed
qed

section \<open>Properties\<close>

lemma concat_map_filter: "concat (map (\<lambda>c. if P c then [f c] else []) xs) = map f (filter P xs)"
  by (induction xs) auto

text \<open>
  C33. The panel's list of failed handshakes is exact: after any history of connections,
  \<open>Recent n\<close> returns the kept failures newest first, at most \<open>n\<close> and at most the 50 the
  ring holds; successes and trivial closes never appear.
\<close>

theorem Recent_is_last_failures:
  "Recent (record_all NewAttempts cs) n =
     take (min n ringLen) (rev (map attempt_of (filter kept cs)))"
proof -
  have "ring (record_all NewAttempts cs) = keep_last ringLen (map attempt_of (filter kept cs))"
    using att_ring.log_pushes [of NewAttempts cs]
    by (simp add: record_all_def NewAttempts_def concat_map_filter)
  then show ?thesis
    by (simp add: Recent_def rev_keep_last)
qed

text \<open>
  C32. The diagnosis of an address follows from the history of connections alone: nothing
  known of it, or no contact after \<open>lastSeen\<close>, gives \<open>NothingArrived\<close>; otherwise the
  number, age and text of the failures since the last success, and with no such failure
  the age of that success.
\<close>

theorem Diagnose_of_history:
  "Diagnose (record_all NewAttempts cs) now ip lastSeen =
     (if ip = [] then (NoIPKnown, -1, [], 0)
      else if from_ip ip cs = [] \<or> (0 < lastSeen \<and> o_now (last (from_ip ip cs)) \<le> of_unix lastSeen)
      then (NothingArrived ip, -1, [], 0)
      else
        let d = time_sub now (o_now (last (from_ip ip cs))) in
        if fails_since ip cs = 0
        then (ConnectedAgain ip (time_sub now (last_success ip cs)), seconds d, [], 0)
        else (ReachedAndFailed (fails_since ip cs) ip d (last_failure ip cs), seconds d,
              last_failure ip cs, fails_since ip cs))"
proof (cases "ips (record_all NewAttempts cs) ip")
  case None
  moreover from None have "from_ip ip cs = []" using record_all_ips by blast
  ultimately show ?thesis by (simp add: Diagnose_def)
next
  case (Some st)
  then have "stat_of (record_all NewAttempts cs) ip = st" and ne: "from_ip ip cs \<noteq> []"
    using record_all_ips [of cs ip] by (simp_all add: stat_of_def)
  with Some record_all_stat [of cs ip] show ?thesis
    by (simp add: Diagnose_def Let_def not_less)
qed

text \<open>
  A close that carried no information reads as a success. When the only contact from an
  address since it went down is a trivial early close (what the client's own pre-flight
  probe looks like), \<open>Diagnose\<close> says it connected again, the longest \<open>Duration\<close> ago if it
  never did.
\<close>

lemma trivial_close_reads_connected:
  "fst (Diagnose (fst (Record NewAttempts (of_unix 1800000000) ip client d (Some e) always True))
          (of_unix 1800000060) ip 1799999999) =
     (if ip = [] then NoIPKnown else ConnectedAgain ip max_duration)"
  by (simp add: Diagnose_def Record_def NewAttempts_def zero_ip_stat_def Let_def of_unix_def
      time_sub_def go_simps)

fun log_lines :: "attempts \<Rightarrow> outcome list \<Rightarrow> (string \<times> bool \<times> int) list" where
  "log_lines a [] = []"
| "log_lines a (c # cs) =
     (o_ip c, snd (record_outcome a c)) # log_lines (fst (record_outcome a c)) cs"

definition accounted :: "string \<Rightarrow> (string \<times> bool \<times> int) list \<Rightarrow> int" where
  "accounted ip ls = sum_list (map (\<lambda>(i, l, n). if i = ip \<and> l then 1 + n else 0) ls)"

lemma record_outcome_accounts:
  "accounted ip [(o_ip c, snd (record_outcome a c))]
     + suppressed (stat_of (fst (record_outcome a c)) ip)
   = suppressed (stat_of a ip) + (if kept c \<and> o_ip c = ip then 1 else 0)"
  by (auto simp: record_outcome_def Record_def stat_of_def accounted_def kept_def zero_ip_stat_def
      Let_def split: option.splits)

lemma log_lines_accounts:
  "accounted ip (log_lines a cs) + suppressed (stat_of (record_all a cs) ip)
   = suppressed (stat_of a ip) + int (length (filter (\<lambda>c. kept c \<and> o_ip c = ip) cs))"
proof (induction cs arbitrary: a)
  case Nil
  then show ?case by (simp add: accounted_def)
next
  case (Cons c cs)
  have "accounted ip (log_lines a (c # cs)) =
      accounted ip [(o_ip c, snd (record_outcome a c))]
      + accounted ip (log_lines (fst (record_outcome a c)) cs)"
    by (simp add: accounted_def)
  moreover have "record_all a (c # cs) = record_all (fst (record_outcome a c)) cs"
    by (simp add: record_all_def)
  ultimately show ?case
    using Cons.IH [of "fst (record_outcome a c)"] record_outcome_accounts [of ip c a]
    by (auto split: if_splits)
qed

text \<open>
  C34. Suppression loses no failure: for every address, the failures kept in any history are
  exactly those logged, plus those each log line reports as suppressed, plus those still
  waiting to be reported.
\<close>

theorem suppressed_are_accounted:
  "int (length (filter (\<lambda>c. kept c \<and> o_ip c = ip) cs)) =
     accounted ip (log_lines NewAttempts cs)
       + suppressed (stat_of (record_all NewAttempts cs) ip)"
  using log_lines_accounts [of ip NewAttempts cs] by (simp add: zero_ip_stat_def)

end
