(* ===== verification/Registry.thy ===== *)
theory Registry
  imports Attempts
begin

text \<open>
  The registry of connected clients and the per-client counters, history and rates,
  \<open>internal/monitor/monitor.go\<close> lines 25 to 233. A \<open>*Client\<close> is shared between the
  registry, the goroutines that pipe its connections and the sampler, so clients live in a
  store \<open>r_heap\<close> and the registry maps a session id to a reference into it.
\<close>

section \<open>State\<close>

definition histLen :: nat where "histLen = 120"

record sample =
  Ts :: int
  TxRate :: rat
  RxRate :: rat
  Active :: int
  Latency :: rat
  Rec :: int

record client =
  cl_Name :: string
  cl_IP :: string
  cl_Since :: gotime
  cl_tx :: u64
  cl_rx :: u64
  cl_active :: "64 word"
  cl_ports :: "u32 list"
  cl_reconnects :: int
  cl_lastError :: string
  cl_speedPort :: int
  cl_hist :: "sample list"
  cl_prevTx :: u64
  cl_prevRx :: u64
  cl_prevAt :: gotime
  cl_lastDown :: rat
  cl_lastUp :: rat
  cl_speedHist :: "rat list"

text \<open>\<open>&Client{Name: name, IP: ip, Since: since}\<close>.\<close>

definition new_client :: "string \<Rightarrow> string \<Rightarrow> gotime \<Rightarrow> client" where
  "new_client name ip since =
     \<lparr>cl_Name = name, cl_IP = ip, cl_Since = since, cl_tx = 0, cl_rx = 0, cl_active = 0,
      cl_ports = [], cl_reconnects = 0, cl_lastError = [], cl_speedPort = 0, cl_hist = [],
      cl_prevTx = 0, cl_prevRx = 0, cl_prevAt = zero_time, cl_lastDown = 0, cl_lastUp = 0,
      cl_speedHist = []\<rparr>"

type_synonym cref = nat

record registry =
  r_m :: "(string \<times> cref) list"
  r_heap :: "client list"
  r_lastIP :: "(string \<times> string) list"
  r_att :: attempts

definition NewRegistry :: registry where
  "NewRegistry = \<lparr>r_m = [], r_heap = [], r_lastIP = [], r_att = NewAttempts\<rparr>"

section \<open>Operations of the registry\<close>

text \<open>
  \<open>Add\<close> is called on a client made in the call itself: the reference is the next free one.
\<close>

definition reg_Add :: "registry \<Rightarrow> string \<Rightarrow> client \<Rightarrow> registry" where
  "reg_Add r i c =
     (let r = r\<lparr>r_heap := r_heap r @ [c], r_m := put i (length (r_heap r)) (r_m r)\<rparr> in
      if cl_Name c \<noteq> [] \<and> cl_IP c \<noteq> [] then r\<lparr>r_lastIP := put (cl_Name c) (cl_IP c) (r_lastIP r)\<rparr>
      else r)"

definition reg_Del :: "registry \<Rightarrow> string \<Rightarrow> registry" where
  "reg_Del r i = r\<lparr>r_m := AList.delete i (r_m r)\<rparr>"

definition reg_Get :: "registry \<Rightarrow> string \<Rightarrow> cref option" where
  "reg_Get r i = get (r_m r) i"

text \<open>An update through a pointer.\<close>

definition upd_client :: "cref \<Rightarrow> (client \<Rightarrow> client) \<Rightarrow> registry \<Rightarrow> registry" where
  "upd_client k f r = r\<lparr>r_heap := (r_heap r)[k := f (r_heap r ! k)]\<rparr>"

definition AddPort :: "registry \<Rightarrow> string \<Rightarrow> u32 \<Rightarrow> registry" where
  "AddPort r i port =
     (case get (r_m r) i of
        None \<Rightarrow> r
      | Some k \<Rightarrow> upd_client k (\<lambda>c. c\<lparr>cl_ports := cl_ports c @ [port]\<rparr>) r)"

definition LastIP :: "registry \<Rightarrow> string \<Rightarrow> string" where
  "LastIP r name = (case get (r_lastIP r) name of None \<Rightarrow> [] | Some ip \<Rightarrow> ip)"

definition ClientAt :: "registry \<Rightarrow> string \<Rightarrow> string" where
  "ClientAt r ip = join ''/'' (sort (map fst (filter (\<lambda>(n, i). i = ip) (r_lastIP r))))"

definition reg_list :: "registry \<Rightarrow> cref list" where
  "reg_list r = sort_key (\<lambda>k. cl_Name (r_heap r ! k)) (map snd (r_m r))"

definition byName :: "registry \<Rightarrow> string \<Rightarrow> cref option" where
  "byName r name = List.find (\<lambda>k. cl_Name (r_heap r ! k) = name) (reg_list r)"

definition Connected :: "registry \<Rightarrow> string \<Rightarrow> bool" where
  "Connected r name \<longleftrightarrow> byName r name \<noteq> None"

text \<open>
  The heartbeat source is \<open>None\<close> when off, otherwise a lookup by name giving when and from
  where the last beat arrived.
\<close>

definition reg_heartbeat ::
  "(string \<Rightarrow> gotime \<times> string \<times> bool) option \<Rightarrow> string \<Rightarrow> gotime \<Rightarrow> rat option \<times> string" where
  "reg_heartbeat f name now =
     (case f of
        None \<Rightarrow> (None, [])
      | Some f \<Rightarrow>
          (let (t, ip, ok) = f name in
           if \<not> ok then (None, []) else (Some (seconds (time_sub now t)), ip)))"

section \<open>Counters\<close>

definition AddTx :: "int \<Rightarrow> client \<Rightarrow> client" where
  "AddTx n c = c\<lparr>cl_tx := cl_tx c + word_of_int n\<rparr>"

definition AddRx :: "int \<Rightarrow> client \<Rightarrow> client" where
  "AddRx n c = c\<lparr>cl_rx := cl_rx c + word_of_int n\<rparr>"

definition ConnOpen :: "client \<Rightarrow> client" where
  "ConnOpen c = c\<lparr>cl_active := cl_active c + 1\<rparr>"

definition ConnClose :: "client \<Rightarrow> client" where
  "ConnClose c = c\<lparr>cl_active := cl_active c - 1\<rparr>"

section \<open>The sampler\<close>

record metrics =
  m_Reconnects :: int
  m_SpeedtestPort :: int
  m_LastError :: string

text \<open>
  \<open>fetch p\<close> is the outcome of \<open>GET http://127.0.0.1:p/metrics\<close>: \<open>None\<close> for an error,
  otherwise the body and the time the request took. \<open>unmarshal\<close> decodes a body into a
  struct that already holds values, and may change it even when it fails.
\<close>

fun scrape_loop ::
  "(u32 \<Rightarrow> (string \<times> duration) option) \<Rightarrow> (string \<Rightarrow> metrics \<Rightarrow> metrics \<times> bool) \<Rightarrow>
     u32 list \<Rightarrow> metrics \<Rightarrow> metrics \<times> rat" where
  "scrape_loop fetch unmarshal [] m = (m, 0)"
| "scrape_loop fetch unmarshal (p # ps) m =
     (case fetch p of
        None \<Rightarrow> scrape_loop fetch unmarshal ps m
      | Some (body, took) \<Rightarrow>
          (let (m', ok) = unmarshal body m in
           if ok then (m', of_int (microseconds took) / 1000)
           else scrape_loop fetch unmarshal ps m'))"

definition rate :: "u64 \<Rightarrow> u64 \<Rightarrow> gotime \<Rightarrow> gotime \<Rightarrow> rat" where
  "rate cur prev now prevAt =
     (if prevAt = zero_time then 0
      else let dt = seconds (time_sub now prevAt) in
        if 0 < dt then of_nat (unat (cur - prev)) / dt else 0)"

text \<open>The second half of \<open>scrape\<close>, under the client's lock.\<close>

definition scrape_commit :: "metrics \<Rightarrow> rat \<Rightarrow> gotime \<Rightarrow> client \<Rightarrow> client" where
  "scrape_commit m lat now c =
     (let txr = rate (cl_tx c) (cl_prevTx c) now (cl_prevAt c);
          rxr = rate (cl_rx c) (cl_prevRx c) now (cl_prevAt c);
          s = \<lparr>Ts = unix now, TxRate = txr, RxRate = rxr, Active = sint (cl_active c),
               Latency = lat, Rec = m_Reconnects m\<rparr>
      in c\<lparr>cl_reconnects := m_Reconnects m, cl_lastError := m_LastError m,
           cl_speedPort := m_SpeedtestPort m, cl_prevTx := cl_tx c, cl_prevRx := cl_rx c,
           cl_prevAt := now, cl_hist := push_window histLen (cl_hist c) s\<rparr>)"

definition scrape ::
  "(u32 \<Rightarrow> (string \<times> duration) option) \<Rightarrow> (string \<Rightarrow> metrics \<Rightarrow> metrics \<times> bool) \<Rightarrow>
     gotime \<Rightarrow> client \<Rightarrow> client" where
  "scrape fetch unmarshal now c =
     (let (m, lat) = scrape_loop fetch unmarshal (cl_ports c)
                       \<lparr>m_Reconnects = 0, m_SpeedtestPort = 0, m_LastError = []\<rparr>
      in scrape_commit m lat now c)"

text \<open>One pass of the sampler over the registry; each client is scraped at its own time.\<close>

definition reg_sample ::
  "(u32 \<Rightarrow> (string \<times> duration) option) \<Rightarrow> (string \<Rightarrow> metrics \<Rightarrow> metrics \<times> bool) \<Rightarrow>
     (cref \<Rightarrow> gotime) \<Rightarrow> registry \<Rightarrow> registry" where
  "reg_sample fetch unmarshal now r =
     fold (\<lambda>k. upd_client k (scrape fetch unmarshal (now k))) (reg_list r) r"

text \<open>
  The lowest forwarded port; the loop takes 0 for "none yet".
\<close>

definition mainPort :: "client \<Rightarrow> u32" where
  "mainPort c = foldl (\<lambda>m p. if m = 0 \<or> p < m then p else m) 0 (cl_ports c)"

section \<open>Lemmas on the registry\<close>

text \<open>Every reference is to a client of the store, and no two ids share one.\<close>

definition reg_ok :: "registry \<Rightarrow> bool" where
  "reg_ok r \<longleftrightarrow> keys_ok (r_m r) \<and> keys_ok (r_lastIP r) \<and> distinct (map snd (r_m r))
     \<and> (\<forall>k \<in> set (map snd (r_m r)). k < length (r_heap r))"

lemma r_m_upd_client [simp]: "r_m (upd_client k f r) = r_m r"
  by (simp add: upd_client_def)

lemma r_lastIP_upd_client [simp]: "r_lastIP (upd_client k f r) = r_lastIP r"
  by (simp add: upd_client_def)

lemma r_att_upd_client [simp]: "r_att (upd_client k f r) = r_att r"
  by (simp add: upd_client_def)

lemma length_heap_upd_client [simp]: "length (r_heap (upd_client k f r)) = length (r_heap r)"
  by (simp add: upd_client_def)

lemma heap_upd_client:
  "k < length (r_heap r) \<Longrightarrow>
     r_heap (upd_client k f r) ! j = (if j = k then f (r_heap r ! k) else r_heap r ! j)"
  by (simp add: upd_client_def nth_list_update)

lemma reg_Del_sel [simp]:
  "get (r_m (reg_Del r i)) j = (if j = i then None else get (r_m r) j)"
  "r_heap (reg_Del r i) = r_heap r" "r_lastIP (reg_Del r i) = r_lastIP r" "r_att (reg_Del r i) = r_att r"
  by (simp_all add: reg_Del_def delete_conv')

lemma reg_Add_sel [simp]:
  "get (r_m (reg_Add r i c)) j = (if j = i then Some (length (r_heap r)) else get (r_m r) j)"
  "r_heap (reg_Add r i c) = r_heap r @ [c]" "r_att (reg_Add r i c) = r_att r"
  by (simp_all add: reg_Add_def Let_def)

lemma get_lastIP_reg_Add:
  "get (r_lastIP (reg_Add r i c)) n =
     (if n = cl_Name c \<and> n \<noteq> [] \<and> cl_IP c \<noteq> [] then Some (cl_IP c) else get (r_lastIP r) n)"
  by (auto simp: reg_Add_def Let_def)

lemma AddPort_sel [simp]:
  "r_m (AddPort r i p) = r_m r" "length (r_heap (AddPort r i p)) = length (r_heap r)"
  "r_lastIP (AddPort r i p) = r_lastIP r" "r_att (AddPort r i p) = r_att r"
  by (auto simp: AddPort_def split: option.splits)

lemma values_update:
  "set (map snd (AList.update k v m)) \<subseteq> insert v (set (map snd m))"
  by (induction m) auto

lemma distinct_values_update:
  "distinct (map snd m) \<Longrightarrow> v \<notin> set (map snd m) \<Longrightarrow> distinct (map snd (AList.update k v m))"
proof (induction m)
  case (Cons p m)
  then show ?case using values_update [of k v m] by (cases p) auto
qed simp

lemma values_delete: "set (map snd (AList.delete k m)) \<subseteq> set (map snd m)"
  by (auto simp: AList.delete_eq)

lemma reg_ok_New: "reg_ok NewRegistry"
  by (simp add: reg_ok_def NewRegistry_def)

lemma reg_ok_Add:
  assumes "reg_ok r"
  shows "reg_ok (reg_Add r i c)"
proof -
  let ?k = "length (r_heap r)"
  have old: "\<forall>k \<in> set (map snd (r_m r)). k < ?k" using assms by (simp add: reg_ok_def)
  then have "?k \<notin> set (map snd (r_m r))" by blast
  then have d: "distinct (map snd (put i ?k (r_m r)))"
    using assms by (intro distinct_values_update) (auto simp: reg_ok_def)
  have "k < Suc ?k" if "k \<in> set (map snd (put i ?k (r_m r)))" for k
  proof -
    have "k \<in> insert ?k (set (map snd (r_m r)))" by (rule subsetD [OF values_update that])
    then show ?thesis using old by auto
  qed
  moreover have "r_m (reg_Add r i c) = put i ?k (r_m r)"
    by (simp add: reg_Add_def Let_def)
  moreover have "keys_ok (r_lastIP (reg_Add r i c))"
    using assms by (simp add: reg_Add_def reg_ok_def Let_def keys_ok_put)
  moreover have "keys_ok (put i ?k (r_m r))"
    using assms by (simp add: reg_ok_def keys_ok_put)
  ultimately show ?thesis using d by (simp only: reg_ok_def reg_Add_sel length_append) simp
qed

lemma reg_ok_Del:
  assumes "reg_ok r"
  shows "reg_ok (reg_Del r i)"
proof -
  have "distinct (map snd (AList.delete i (r_m r)))"
    using assms by (simp add: reg_ok_def AList.delete_eq distinct_map_filter)
  moreover have "\<forall>k \<in> set (map snd (AList.delete i (r_m r))). k < length (r_heap r)"
    using assms values_delete [of i "r_m r"] unfolding reg_ok_def by (meson subsetD)
  ultimately show ?thesis
    using assms by (simp add: reg_ok_def reg_Del_def distinct_delete del: set_map)
qed

lemma reg_ok_upd: "reg_ok r \<Longrightarrow> reg_ok (upd_client k f r)"
  by (simp add: reg_ok_def)

lemma reg_ok_AddPort: "reg_ok r \<Longrightarrow> reg_ok (AddPort r i p)"
  by (simp add: reg_ok_def)

section \<open>The registry as a map of sessions\<close>

text \<open>
  What happens to the registry over time. Counters and scrapes reach a client through a
  pointer, whether or not the registry still holds it.
\<close>

datatype reg_event =
  EvAdd string string string gotime
| EvDel string
| EvPort string u32
| EvTx cref int
| EvRx cref int
| EvConn cref bool
| EvScrape cref metrics rat gotime

fun reg_apply :: "registry \<Rightarrow> reg_event \<Rightarrow> registry" where
  "reg_apply r (EvAdd i name ip since) = reg_Add r i (new_client name ip since)"
| "reg_apply r (EvDel i) = reg_Del r i"
| "reg_apply r (EvPort i p) = AddPort r i p"
| "reg_apply r (EvTx k n) = upd_client k (AddTx n) r"
| "reg_apply r (EvRx k n) = upd_client k (AddRx n) r"
| "reg_apply r (EvConn k up) = upd_client k (if up then ConnOpen else ConnClose) r"
| "reg_apply r (EvScrape k m lat now) = upd_client k (scrape_commit m lat now) r"

definition reg_run :: "reg_event list \<Rightarrow> registry" where
  "reg_run es = foldl reg_apply NewRegistry es"

text \<open>The specification: a session has a name, an address, a start and a list of ports.\<close>

type_synonym session_info = "string \<times> string \<times> gotime \<times> u32 list"

fun spec_apply :: "(string \<rightharpoonup> session_info) \<Rightarrow> reg_event \<Rightarrow> (string \<rightharpoonup> session_info)" where
  "spec_apply v (EvAdd i name ip since) = v(i \<mapsto> (name, ip, since, []))"
| "spec_apply v (EvDel i) = v(i := None)"
| "spec_apply v (EvPort i p) =
     v(i := map_option (\<lambda>(name, ip, since, ps). (name, ip, since, ps @ [p])) (v i))"
| "spec_apply v _ = v"

definition info_of_client :: "client \<Rightarrow> session_info" where
  "info_of_client c = (cl_Name c, cl_IP c, cl_Since c, cl_ports c)"

definition reg_view :: "registry \<Rightarrow> string \<rightharpoonup> session_info" where
  "reg_view r i = map_option (\<lambda>k. info_of_client (r_heap r ! k)) (get (r_m r) i)"

lemma reg_ok_apply: "reg_ok r \<Longrightarrow> reg_ok (reg_apply r e)"
  by (cases e) (simp_all add: reg_ok_Add reg_ok_Del reg_ok_AddPort reg_ok_upd)

interpretation reg_inv: invariant "\<lambda>r. r = NewRegistry" "\<lambda>r r'. \<exists>e. r' = reg_apply r e" reg_ok
  by unfold_locales (auto simp: reg_ok_New reg_ok_apply)

lemma reg_run_snoc: "reg_run (es @ [e]) = reg_apply (reg_run es) e"
  by (simp add: reg_run_def)

lemma reach_reg_run:
  "reach (\<lambda>r. r = NewRegistry) (\<lambda>r r'. \<exists>e. r' = reg_apply r e) (reg_run es)"
proof (induction es rule: rev_induct)
  case Nil
  then show ?case by (auto simp: reg_run_def intro: reach_start)
next
  case (snoc e es)
  then show ?case by (auto simp: reg_run_snoc intro: reach_step)
qed

lemma reg_ok_run: "reg_ok (reg_run es)"
  by (rule reg_inv.inv_reach [OF reach_reg_run])

lemma get_in_values: "get m i = Some k \<Longrightarrow> k \<in> set (map snd m)"
  by (force dest: map_of_SomeD)

lemma get_live: "reg_ok r \<Longrightarrow> get (r_m r) i = Some k \<Longrightarrow> k < length (r_heap r)"
  by (auto simp: reg_ok_def dest!: get_in_values)

lemma distinct_values_get:
  "distinct (map snd m) \<Longrightarrow> get m i = Some k \<Longrightarrow> get m j = Some k \<Longrightarrow> i = j"
  by (force dest!: map_of_SomeD simp: distinct_map inj_on_def)

lemma info_of_updates [simp]:
  "info_of_client (AddTx n c) = info_of_client c"
  "info_of_client (AddRx n c) = info_of_client c"
  "info_of_client (ConnOpen c) = info_of_client c"
  "info_of_client (ConnClose c) = info_of_client c"
  "info_of_client (scrape_commit m lat now c) = info_of_client c"
  by (simp_all add: info_of_client_def AddTx_def AddRx_def ConnOpen_def ConnClose_def
      scrape_commit_def Let_def)

lemma info_upd_client:
  "(\<And>c. info_of_client (f c) = info_of_client c) \<Longrightarrow>
     info_of_client (r_heap (upd_client k f r) ! j) = info_of_client (r_heap r ! j)"
  by (cases "k < length (r_heap r)"; cases "j = k")
    (simp_all add: upd_client_def nth_list_update list_update_beyond)

lemma reg_view_upd_same:
  "(\<And>c. info_of_client (f c) = info_of_client c) \<Longrightarrow> reg_view (upd_client k f r) = reg_view r"
  by (rule ext)
    (auto simp: reg_view_def info_upd_client split: option.splits)

lemma reg_view_Add:
  assumes "reg_ok r"
  shows "reg_view (reg_Add r i c) = (reg_view r)(i \<mapsto> info_of_client c)"
proof (rule ext)
  fix j
  show "reg_view (reg_Add r i c) j = ((reg_view r)(i \<mapsto> info_of_client c)) j"
    using get_live [OF assms, of j] by (cases "get (r_m r) j") (auto simp: reg_view_def nth_append)
qed

lemma reg_view_AddPort:
  assumes "reg_ok r"
  shows "reg_view (AddPort r i p) =
    (reg_view r)(i := map_option (\<lambda>(name, ip, since, ps). (name, ip, since, ps @ [p])) (reg_view r i))"
proof (cases "get (r_m r) i")
  case None
  then show ?thesis by (auto simp: AddPort_def reg_view_def)
next
  case (Some k)
  have k: "k < length (r_heap r)" using get_live [OF assms Some] .
  have other: "j = i" if "get (r_m r) j = Some k" for j
    using that Some assms distinct_values_get unfolding reg_ok_def by metis
  show ?thesis
  proof (rule ext)
    fix j
    show "reg_view (AddPort r i p) j = ((reg_view r)(i :=
        map_option (\<lambda>(name, ip, since, ps). (name, ip, since, ps @ [p])) (reg_view r i))) j"
      using Some k other [of j]
      by (cases "get (r_m r) j")
        (auto simp: AddPort_def reg_view_def heap_upd_client info_of_client_def)
  qed
qed

lemma reg_view_apply:
  assumes "reg_ok r"
  shows "reg_view (reg_apply r e) = spec_apply (reg_view r) e"
proof (cases e)
  case (EvAdd i name ip since)
  then show ?thesis using reg_view_Add [OF assms] by (simp add: info_of_client_def new_client_def)
next
  case (EvDel i)
  then show ?thesis by (auto simp: reg_view_def)
next
  case (EvPort i p)
  then show ?thesis using reg_view_AddPort [OF assms] by simp
qed (simp_all add: reg_view_upd_same)

interpretation reg_sessions: simulation reg_apply spec_apply "\<lambda>r m. reg_ok r \<and> reg_view r = m"
  by unfold_locales (simp add: reg_ok_apply reg_view_apply)

lemma reg_view_run: "reg_view (reg_run es) = foldl spec_apply Map.empty es"
  using reg_sessions.sim_run [of NewRegistry Map.empty es] reg_ok_New
  by (simp add: reg_run_def reg_view_def NewRegistry_def fun_eq_iff)

lemma set_reg_list: "set (reg_list r) = set (map snd (r_m r))"
  by (simp add: reg_list_def)

lemma value_get: "keys_ok m \<Longrightarrow> k \<in> set (map snd m) \<longleftrightarrow> (\<exists>i. get m i = Some k)"
  by (force dest: map_of_SomeD)

lemma Connected_view:
  assumes "reg_ok r"
  shows "Connected r name \<longleftrightarrow> (\<exists>i x. reg_view r i = Some x \<and> fst x = name)"
proof -
  have "Connected r name \<longleftrightarrow> (\<exists>k \<in> set (map snd (r_m r)). cl_Name (r_heap r ! k) = name)"
    by (auto simp: Connected_def byName_def find_None_iff set_reg_list)
  also have "\<dots> \<longleftrightarrow> (\<exists>i k. get (r_m r) i = Some k \<and> cl_Name (r_heap r ! k) = name)"
    using value_get [of "r_m r"] assms unfolding reg_ok_def by blast
  also have "\<dots> \<longleftrightarrow> (\<exists>i x. reg_view r i = Some x \<and> fst x = name)"
    by (auto simp: reg_view_def info_of_client_def)
  finally show ?thesis .
qed

text \<open>The address a name last connected from, over a history.\<close>

fun last_addr :: "reg_event list \<Rightarrow> string \<rightharpoonup> string" where
  "last_addr [] = Map.empty"
| "last_addr (e # es) = (\<lambda>n.
     case last_addr es n of Some ip \<Rightarrow> Some ip
     | None \<Rightarrow> (case e of EvAdd i name ip since \<Rightarrow>
                  (if name = n \<and> n \<noteq> [] \<and> ip \<noteq> [] then Some ip else None) | _ \<Rightarrow> None))"

lemma last_addr_append:
  "last_addr (es @ fs) n = (case last_addr fs n of Some ip \<Rightarrow> Some ip | None \<Rightarrow> last_addr es n)"
  by (induction es) (auto split: option.splits)

lemma get_lastIP_run: "get (r_lastIP (reg_run es)) n = last_addr es n"
proof (induction es rule: rev_induct)
  case Nil
  then show ?case by (simp add: reg_run_def NewRegistry_def)
next
  case (snoc e es)
  then show ?case
    by (cases e) (auto simp: reg_run_snoc last_addr_append get_lastIP_reg_Add new_client_def AddPort_sel
        split: option.splits)
qed

lemma filter_keys: "keys_ok m \<Longrightarrow> set (map fst (filter (\<lambda>(n, i). i = v) m)) = {n. get m n = Some v}"
  by (force dest: map_of_SomeD)

section \<open>The sampler's history\<close>

text \<open>Bytes piped between two samples, as pairs of sent and received.\<close>

definition add_all :: "(nat \<times> nat) list \<Rightarrow> client \<Rightarrow> client" where
  "add_all ns c = foldl (\<lambda>c (a, b). AddRx (int b) (AddTx (int a) c)) c ns"

lemma add_all_sel [simp]:
  "cl_tx (add_all ns c) = cl_tx c + word_of_nat (sum_list (map fst ns))"
  "cl_rx (add_all ns c) = cl_rx c + word_of_nat (sum_list (map snd ns))"
  "cl_prevTx (add_all ns c) = cl_prevTx c" "cl_prevRx (add_all ns c) = cl_prevRx c"
  "cl_prevAt (add_all ns c) = cl_prevAt c" "cl_hist (add_all ns c) = cl_hist c"
proof -
  have "cl_tx (add_all ns c) = cl_tx c + word_of_nat (sum_list (map fst ns))
      \<and> cl_rx (add_all ns c) = cl_rx c + word_of_nat (sum_list (map snd ns))
      \<and> cl_prevTx (add_all ns c) = cl_prevTx c \<and> cl_prevRx (add_all ns c) = cl_prevRx c
      \<and> cl_prevAt (add_all ns c) = cl_prevAt c \<and> cl_hist (add_all ns c) = cl_hist c"
    by (induction ns arbitrary: c)
      (auto simp: add_all_def AddTx_def AddRx_def algebra_simps)
  then show "cl_tx (add_all ns c) = cl_tx c + word_of_nat (sum_list (map fst ns))"
    "cl_rx (add_all ns c) = cl_rx c + word_of_nat (sum_list (map snd ns))"
    "cl_prevTx (add_all ns c) = cl_prevTx c" "cl_prevRx (add_all ns c) = cl_prevRx c"
    "cl_prevAt (add_all ns c) = cl_prevAt c" "cl_hist (add_all ns c) = cl_hist c"
    by simp_all
qed

lemma scrape_commit_sel [simp]:
  "cl_prevTx (scrape_commit m lat now c) = cl_tx c" "cl_prevRx (scrape_commit m lat now c) = cl_rx c"
  "cl_tx (scrape_commit m lat now c) = cl_tx c" "cl_rx (scrape_commit m lat now c) = cl_rx c"
  "cl_prevAt (scrape_commit m lat now c) = now"
  by (simp_all add: scrape_commit_def Let_def)

lemma scrape_is_commit: "\<exists>m lat. scrape fetch unmarshal now c = scrape_commit m lat now c"
  by (auto simp: scrape_def split: prod.splits)

lemma last_hist_commit:
  "TxRate (last (cl_hist (scrape_commit m lat now c))) = rate (cl_tx c) (cl_prevTx c) now (cl_prevAt c)"
  "RxRate (last (cl_hist (scrape_commit m lat now c))) = rate (cl_rx c) (cl_prevRx c) now (cl_prevAt c)"
  by (simp_all add: scrape_commit_def Let_def last_push_window histLen_def)

lemma rate_exact:
  assumes "t1 \<noteq> 0" and "t1 < t2" and "t2 - t1 \<le> max_duration" and "n < 2 ^ 64"
  shows "rate (w + word_of_nat n) w t2 t1 * seconds (t2 - t1) = of_nat n"
proof -
  have "time_sub t2 t1 = t2 - t1"
    using assms by (intro time_sub_exact) (auto simp: go_simps)
  moreover have "0 < seconds (t2 - t1)" using assms by (simp add: seconds_def)
  moreover have "unat (word_of_nat n :: u64) = n" using assms(4) by (simp add: unat_of_nat)
  ultimately show ?thesis using assms(1) by (simp add: rate_def go_simps)
qed

lemma scrape_pair:
  assumes "t1 \<noteq> 0" and "t1 < t2" and "t2 - t1 \<le> max_duration"
    and "sum_list (map fst ns) < 2 ^ 64" and "sum_list (map snd ns) < 2 ^ 64"
    and "s = last (cl_hist (scrape f2 u2 t2 (add_all ns (scrape f1 u1 t1 c))))"
  shows "TxRate s * seconds (t2 - t1) = of_nat (sum_list (map fst ns))
       \<and> RxRate s * seconds (t2 - t1) = of_nat (sum_list (map snd ns))"
proof -
  obtain m1 l1 where c1: "scrape f1 u1 t1 c = scrape_commit m1 l1 t1 c"
    using scrape_is_commit by blast
  obtain m2 l2 where
    "scrape f2 u2 t2 (add_all ns (scrape f1 u1 t1 c)) =
       scrape_commit m2 l2 t2 (add_all ns (scrape f1 u1 t1 c))"
    using scrape_is_commit by blast
  with c1 assms(6) have
    "TxRate s = rate (cl_tx c + word_of_nat (sum_list (map fst ns))) (cl_tx c) t2 t1"
    "RxRate s = rate (cl_rx c + word_of_nat (sum_list (map snd ns))) (cl_rx c) t2 t1"
    by (simp_all add: last_hist_commit)
  with rate_exact [OF assms(1-4)] rate_exact [OF assms(1-3,5)] show ?thesis by simp
qed

section \<open>Properties\<close>

text \<open>
  C28. The registry refines a plain map of sessions. After any sequence of sessions coming,
  going, adding ports, piping bytes and being sampled, each id is mapped to the name,
  address and start of its last \<open>Add\<close> with the ports added since, and to nothing after
  \<open>Del\<close>; a port or a sample that arrives after \<open>Del\<close> changes nothing that is visible.
\<close>

theorem registry_refines_sessions:
  "reg_view (reg_run es) = foldl spec_apply Map.empty es"
  by (rule reg_view_run)

text \<open>
  \<open>Connected\<close> (what the heartbeat log compares UDP with) is true exactly when some
  session of that name has been added and not deleted since, whatever other sessions of the
  same client came and went in between.
\<close>

lemma Connected_iff_live_session:
  "Connected (reg_run es) name \<longleftrightarrow>
     (\<exists>i x. foldl spec_apply Map.empty es i = Some x \<and> fst x = name)"
  using Connected_view [OF reg_ok_run] by (simp add: reg_view_run)

text \<open>
  \<open>ClientAt\<close> names, in order and separated by slashes, exactly the clients whose last
  connection with a known address came from that address, connected now or not.
\<close>

lemma ClientAt_is_last_address:
  "\<exists>ns. ClientAt (reg_run es) ip = join ''/'' ns \<and> sorted ns \<and> distinct ns
        \<and> set ns = {n. last_addr es n = Some ip}"
proof (intro exI conjI)
  let ?ns = "sort (map fst (filter (\<lambda>(n, i). i = ip) (r_lastIP (reg_run es))))"
  have ok: "keys_ok (r_lastIP (reg_run es))" using reg_ok_run by (simp add: reg_ok_def)
  show "ClientAt (reg_run es) ip = join ''/'' ?ns" by (simp add: ClientAt_def)
  show "sorted ?ns" by simp
  show "distinct ?ns" using ok by (simp add: distinct_map_filter)
  show "set ?ns = {n. last_addr es n = Some ip}"
    using filter_keys [OF ok, of ip] by (simp add: get_lastIP_run)
qed

text \<open>
  C29. The rates of the panel's history are exact: the rate of a sample times the time since
  the previous one is the number of bytes piped in between, in both directions and also when
  a 64-bit counter wraps around.
\<close>

theorem sample_rates_exact:
  assumes "t1 \<noteq> 0" and "t1 < t2" and "t2 - t1 \<le> max_duration"
    and "sum_list (map fst ns) < 2 ^ 64" and "sum_list (map snd ns) < 2 ^ 64"
    and "s = last (cl_hist (scrape f2 u2 t2 (add_all ns (scrape f1 u1 t1 c))))"
  shows "TxRate s * seconds (t2 - t1) = of_nat (sum_list (map fst ns))
       \<and> RxRate s * seconds (t2 - t1) = of_nat (sum_list (map snd ns))"
  using scrape_pair [OF assms] .

text \<open>A client whose counter is about to wrap, sampled twice five seconds apart.\<close>

theorem sample_rates_exact_witness:
  "TxRate (last (cl_hist (scrape (\<lambda>_. None) (\<lambda>_ m. (m, False)) (6 * second)
     (add_all [(100, 1), (20, 2)] (scrape (\<lambda>_. None) (\<lambda>_ m. (m, False)) second
        ((new_client ''c'' ''ip'' 1)\<lparr>cl_tx := - 50\<rparr>)))))) * 5 = 120"
  using sample_rates_exact [of second "6 * second" "[(100, 1), (20, 2)]" _
      "\<lambda>_. None" "\<lambda>_ m. (m, False)" "\<lambda>_. None" "\<lambda>_ m. (m, False)"
      "(new_client ''c'' ''ip'' 1)\<lparr>cl_tx := - 50\<rparr>", OF _ _ _ _ _ refl]
  by (simp add: go_simps seconds_def)

lemma mainPort_fold:
  "foldl (\<lambda>m p. if m = 0 \<or> p < m then p else m) 0 ps =
     (let qs = takeWhile (\<lambda>p. p \<noteq> 0) (rev ps) in if qs = [] then 0 else Min (set qs))" for ps :: "u32 list"
proof (induction ps rule: rev_induct)
  case (snoc p ps)
  let ?qs = "takeWhile (\<lambda>p. p \<noteq> 0) (rev ps)"
  show ?case
  proof (cases "p = 0 \<or> ?qs = []")
    case True
    then show ?thesis using snoc by (auto simp: Let_def word_gt_0 dest: set_takeWhileD)
  next
    case False
    then have "Min (set ?qs) \<in> set ?qs" by (intro Min_in) auto
    define M where "M = Min (set ?qs)"
    have "M \<noteq> 0" using \<open>Min (set ?qs) \<in> set ?qs\<close> unfolding M_def by (auto dest: set_takeWhileD)
    moreover have "Min (insert p (set ?qs)) = min p M"
      using False unfolding M_def by (intro Min_insert) auto
    moreover have "foldl (\<lambda>m p. if m = 0 \<or> p < m then p else m) 0 ps = M"
      using False snoc unfolding M_def by (simp add: Let_def)
    ultimately show ?thesis using False
      by (simp add: Let_def min_def not_less) (auto simp: less_imp_le)
  qed
qed simp

text \<open>
  The port taken as a client's main service is the lowest one it forwards; as 0 stands
  for "none yet" in the loop, a forward of port 0 makes it forget the ports listed before.
\<close>

lemma mainPort_is_lowest:
  "mainPort c =
     (let ps = takeWhile (\<lambda>p. p \<noteq> 0) (rev (cl_ports c)) in if ps = [] then 0 else Min (set ps))"
  unfolding mainPort_def by (rule mainPort_fold)

end
