(* ===== verification/Links.thy ===== *)
theory Links
  imports Registry
begin

text \<open>
  The web entry points of clients, \<open>internal/monitor/monitor.go\<close>: the link templates of the
  operator (\<open>LinkConfig\<close>), the names \<open>tk-<site>-<role>\<close>, the subdomain labels made of them, and
  the root handler that sends a request to the client its host label names. Templates and client
  names are ASCII text.
\<close>

section \<open>Names and templates\<close>

record link =
  lk_Kind :: string
  lk_Label :: string
  lk_Host :: string

record link_config =
  Templates :: "(string \<times> string) list"
  BackupSuffix :: string

definition parse_template :: "(string \<times> string) list \<Rightarrow> string \<Rightarrow> (string \<times> string) list" where
  "parse_template m kv =
     (let kv = trim_space kv in
      if kv = [] then m
      else (case index_byte (CHR ''='') kv of
              None \<Rightarrow> m
            | Some i \<Rightarrow>
                (if 0 < i
                 then put (to_lower (trim_space (take i kv))) (trim_space (drop (Suc i) kv)) m
                 else m)))"

definition ParseLinkConfig :: "string \<Rightarrow> string \<Rightarrow> link_config" where
  "ParseLinkConfig spec backupSuffix =
     \<lparr>Templates = foldl parse_template [] (split_on (CHR '','') spec), BackupSuffix = backupSuffix\<rparr>"

definition alnum_char :: "char \<Rightarrow> bool" where
  "alnum_char c \<longleftrightarrow>
     (let n = (of_char c :: nat) in 97 \<le> n \<and> n \<le> 122 \<or> 48 \<le> n \<and> n \<le> 57)"

definition onlyAlnum :: "string \<Rightarrow> string" where
  "onlyAlnum s = filter alnum_char (to_lower s)"

definition splitName :: "string \<Rightarrow> string \<times> string \<times> bool" where
  "splitName name =
     (let name = to_lower name in
      if \<not> has_prefix name ''tk-'' then ([], [], False)
      else
        let rest = trim_prefix name ''tk-'' in
        case last_index_byte (CHR ''-'') rest of
          None \<Rightarrow> ([], [], False)
        | Some i \<Rightarrow>
            (let site = onlyAlnum (take i rest); role = onlyAlnum (drop (Suc i) rest)
             in (site, role, site \<noteq> [] \<and> role \<noteq> [])))"

text \<open>
  \<open>strings.NewReplacer("{site}", site, "{role}", role).Replace\<close>: one pass from the left, what was
  put in is not looked at again.
\<close>

function expand :: "string \<Rightarrow> string \<Rightarrow> string \<Rightarrow> string" where
  "expand site role t =
     (if t = [] then []
      else if has_prefix t ''{site}'' then site @ expand site role (drop 6 t)
      else if has_prefix t ''{role}'' then role @ expand site role (drop 6 t)
      else hd t # expand site role (tl t))"
  by pat_completeness auto
termination
  by (relation "measure (\<lambda>(site, role, t). length t)") auto

declare expand.simps [simp del]

definition mainHost :: "link_config \<Rightarrow> string \<Rightarrow> string" where
  "mainHost lc name =
     (let (site, role, ok) = splitName name in
      if \<not> ok then []
      else (case get (Templates lc) role of None \<Rightarrow> [] | Some t \<Rightarrow> expand site role t))"

definition backup_link :: "link_config \<Rightarrow> string \<Rightarrow> string \<Rightarrow> link list" where
  "backup_link lc name other =
     (let (site, role, _) = splitName name; (osite, orole, ok) = splitName other in
      if \<not> ok \<or> osite \<noteq> site \<or> orole = role then []
      else let h = mainHost lc other in
        if h \<noteq> []
        then [\<lparr>lk_Kind = ''backup'', lk_Label = orole @ '' via '' @ role, lk_Host = h @ BackupSuffix lc\<rparr>]
        else [])"

definition linksFor :: "link_config \<Rightarrow> string \<Rightarrow> string list \<Rightarrow> link list" where
  "linksFor lc name known =
     (let main = mainHost lc name in
      if main = [] then []
      else
        let (_, role, _) = splitName name;
            out = [\<lparr>lk_Kind = ''main'', lk_Label = role, lk_Host = main\<rparr>]
        in if BackupSuffix lc = [] then out
           else out @ concat (map (backup_link lc name) known))"

section \<open>The root handler\<close>

datatype route = Dashboard | No_service | Proxy_to cref u32

definition host_label :: "string \<Rightarrow> string" where
  "host_label host =
     (let host = (case split_host_port host of None \<Rightarrow> host | Some (h, _) \<Rightarrow> h)
      in case index_byte (CHR ''.'') host of None \<Rightarrow> host | Some i \<Rightarrow> take i host)"

definition root_route :: "link_config \<Rightarrow> registry \<Rightarrow> string \<Rightarrow> route" where
  "root_route lc r host =
     (let label = host_label host in
      if label \<noteq> [] \<and> Templates lc \<noteq> []
      then (case List.find (\<lambda>k. mainHost lc (cl_Name (r_heap r ! k)) = label) (reg_list r) of
              None \<Rightarrow> Dashboard
            | Some k \<Rightarrow>
                (let port = mainPort (r_heap r ! k)
                 in if port = 0 then No_service else Proxy_to k port))
      else Dashboard)"

section \<open>Lemmas on names\<close>

lemma to_lower_idem: "to_lower (to_lower s) = to_lower s"
  by (auto simp: to_lower_def to_lower_char_def Let_def)

lemma onlyAlnum_chars: "c \<in> set (onlyAlnum s) \<Longrightarrow> alnum_char c"
  by (simp add: onlyAlnum_def)

lemma to_lower_alnum: "\<forall>c \<in> set s. alnum_char c \<Longrightarrow> to_lower s = s"
  by (auto simp: to_lower_def to_lower_char_def alnum_char_def Let_def intro!: map_idI)

lemma onlyAlnum_alnum: "\<forall>c \<in> set s. alnum_char c \<Longrightarrow> onlyAlnum s = s"
  by (simp add: onlyAlnum_def to_lower_alnum)

lemma splitName_chars:
  "splitName name = (site, role, ok) \<Longrightarrow> c \<in> set site \<union> set role \<Longrightarrow> alnum_char c"
  by (auto simp: splitName_def Let_def onlyAlnum_def split: if_splits option.splits)

lemma expand_chars: "set (expand site role t) \<subseteq> set site \<union> set role \<union> set t"
proof (induction site role t rule: expand.induct)
  case (1 site role t)
  have tl: "set (tl t) \<subseteq> set t" "t \<noteq> [] \<Longrightarrow> hd t \<in> set t" by (cases t; auto)+
  have dr: "set (drop 6 t) \<subseteq> set t" by (rule set_drop_subset)
  show ?case
    by (subst expand.simps) (use 1 tl dr in \<open>auto; blast\<close>)
qed

lemma splitName_plain:
  assumes "\<forall>c \<in> set site. alnum_char c" "\<forall>c \<in> set role. alnum_char c" "site \<noteq> []" "role \<noteq> []"
  shows "splitName (''tk-'' @ site @ ''-'' @ role) = (site, role, True)"
proof -
  have dash: "CHR ''-'' \<notin> set role" using assms(2) by (auto simp: alnum_char_def)
  have low: "to_lower (''tk-'' @ site @ ''-'' @ role) = ''tk-'' @ site @ ''-'' @ role"
    using to_lower_alnum [OF assms(1)] to_lower_alnum [OF assms(2)]
    by (simp add: to_lower_def to_lower_char_def)
  have "last_index_byte (CHR ''-'') (site @ CHR ''-'' # role) = Some (length site)"
    using dash by (rule last_index_byte_fresh)
  with low assms show ?thesis
    by (simp add: splitName_def Let_def has_prefix_def trim_prefix_def onlyAlnum_alnum)
qed

section \<open>What a label is made of, and where a request goes\<close>

lemma get_template_set: "get (Templates lc) role = Some t \<Longrightarrow> set t \<subseteq> (\<Union>x \<in> set (Templates lc). set (snd x))"
  by (auto dest!: map_of_SomeD)

text \<open>
  A subdomain label holds only characters of the operator's templates and lower-case letters and
  digits: whatever a client is called, its name brings no dot, slash or colon into a host name.
\<close>

lemma labels_are_plain:
  "set (mainHost lc name) \<subseteq> {c. alnum_char c} \<union> (\<Union>x \<in> set (Templates lc). set (snd x))"
proof (cases "\<exists>site role t. splitName name = (site, role, True) \<and> get (Templates lc) role = Some t")
  case True
  then obtain site role t where s: "splitName name = (site, role, True)"
    and t: "get (Templates lc) role = Some t" by blast
  have "set (expand site role t) \<subseteq> set site \<union> set role \<union> set t" by (rule expand_chars)
  moreover have "set site \<union> set role \<subseteq> {c. alnum_char c}" using splitName_chars [OF s] by blast
  ultimately have "set (expand site role t) \<subseteq> {c. alnum_char c} \<union> (\<Union>x \<in> set (Templates lc). set (snd x))"
    using get_template_set [OF t] by blast
  with s t show ?thesis by (simp add: mainHost_def)
next
  case False
  then have "mainHost lc name = []" by (cases "splitName name") (auto simp: mainHost_def split: option.splits)
  then show ?thesis by simp
qed

text \<open>The clients of the registry whose main service has the label.\<close>

definition served_by :: "link_config \<Rightarrow> registry \<Rightarrow> string \<Rightarrow> cref set" where
  "served_by lc r label =
     {k \<in> snd ` set (r_m r). mainHost lc (cl_Name (r_heap r ! k)) = label}"

lemma mainPort_cases:
  "(mainPort c = 0 \<longleftrightarrow> cl_ports c = [] \<or> last (cl_ports c) = 0)
   \<and> (mainPort c = 0 \<or> mainPort c \<in> set (cl_ports c))"
proof (cases "takeWhile (\<lambda>p. p \<noteq> 0) (rev (cl_ports c)) = []")
  case True
  then show ?thesis
    by (cases "cl_ports c" rule: rev_cases) (auto simp: mainPort_is_lowest split: if_splits)
next
  case False
  let ?ps = "takeWhile (\<lambda>p. p \<noteq> 0) (rev (cl_ports c))"
  have m: "mainPort c = Min (set ?ps)" using False by (simp add: mainPort_is_lowest)
  have "Min (set ?ps) \<in> set ?ps" using False by (intro Min_in) auto
  with m have "mainPort c \<in> set ?ps" by simp
  then have "mainPort c \<noteq> 0 \<and> mainPort c \<in> set (cl_ports c)" by (auto dest: set_takeWhileD)
  with False show ?thesis
    by (cases "cl_ports c" rule: rev_cases) (auto split: if_splits)
qed

text \<open>
  C25. The root handler proxies a request only to a connected client whose label is the first label of
  the request's host, at a port that client listed; it answers that there is no service only when
  such a client lists no port, or port 0 last; and the dashboard answers exactly when no connected
  client has the label (or the host has none, or no templates are set).
\<close>

theorem root_route_cases:
  "(case root_route lc r host of
      Proxy_to k p \<Rightarrow>
        k \<in> served_by lc r (host_label host) \<and> p \<in> set (cl_ports (r_heap r ! k)) \<and> p \<noteq> 0
    | No_service \<Rightarrow>
        (\<exists>k. k \<in> served_by lc r (host_label host)
           \<and> (cl_ports (r_heap r ! k) = [] \<or> last (cl_ports (r_heap r ! k)) = 0))
    | Dashboard \<Rightarrow>
        host_label host = [] \<or> Templates lc = [] \<or> served_by lc r (host_label host) = {})"
proof -
  let ?P = "\<lambda>k. mainHost lc (cl_Name (r_heap r ! k)) = host_label host"
  have set: "set (reg_list r) = snd ` set (r_m r)" by (simp add: reg_list_def)
  show ?thesis
  proof (cases "host_label host = [] \<or> Templates lc = []")
    case True
    then show ?thesis by (auto simp: root_route_def)
  next
    case False
    show ?thesis
    proof (cases "List.find ?P (reg_list r)")
      case None
      then have "root_route lc r host = Dashboard" using False by (simp add: root_route_def)
      moreover have "served_by lc r (host_label host) = {}"
        using None by (auto simp: served_by_def find_None_iff set)
      ultimately show ?thesis by simp
    next
      case (Some k)
      then have k: "k \<in> served_by lc r (host_label host)"
        by (auto simp: find_Some_iff served_by_def set [symmetric])
      show ?thesis
      proof (cases "mainPort (r_heap r ! k) = 0")
        case True
        then have "root_route lc r host = No_service" using False Some by (simp add: root_route_def)
        with True k mainPort_cases [of "r_heap r ! k"] show ?thesis by auto
      next
        case nz: False
        then have "root_route lc r host = Proxy_to k (mainPort (r_heap r ! k))"
          using False Some by (simp add: root_route_def)
        with nz k mainPort_cases [of "r_heap r ! k"] show ?thesis by auto
      qed
    qed
  qed
qed

end
