(* ===== verification/Meta.thy ===== *)
theory Meta
  imports Prelude
begin

text \<open>
  The presentation metadata of clients, \<open>internal/monitor/meta.go\<close>: the store that reloads
  its file when the modification time or the size changes, and the validation of what will be
  shown. The JSON decoder and \<open>url.Parse\<close> are the parameters \<open>unmarshal\<close> (giving the
  entries in the decoded map's iteration order) and \<open>purl\<close> (scheme, host, whether there are
  credentials; \<open>None\<close> for an error).
\<close>

section \<open>Runes\<close>

text \<open>
  \<open>[]rune(s)\<close>: the UTF-8 sequences of a string, each as the bytes it is encoded to again; a
  byte that starts no valid sequence becomes the replacement character. \<open>utf8_chunks\<close> keeps those bytes.
\<close>

definition byte_at :: "string \<Rightarrow> nat \<Rightarrow> nat" where
  "byte_at s i = (if i < length s then of_char (s ! i) else 0)"

definition cont_at :: "string \<Rightarrow> nat \<Rightarrow> bool" where
  "cont_at s i \<longleftrightarrow> 128 \<le> byte_at s i \<and> byte_at s i \<le> 191"

definition rune_len :: "string \<Rightarrow> nat" where
  "rune_len s =
     (let a = byte_at s 0; b = byte_at s 1 in
      if a < 128 then 1
      else if 194 \<le> a \<and> a \<le> 223 \<and> cont_at s 1 then 2
      else if 224 \<le> a \<and> a \<le> 239 \<and> (if a = 224 then 160 else 128) \<le> b
              \<and> b \<le> (if a = 237 then 159 else 191) \<and> cont_at s 2 then 3
      else if 240 \<le> a \<and> a \<le> 244 \<and> (if a = 240 then 144 else 128) \<le> b
              \<and> b \<le> (if a = 244 then 143 else 191) \<and> cont_at s 2 \<and> cont_at s 3 then 4
      else 0)"

definition replacement :: string where
  "replacement = [CHR 0xEF, CHR 0xBF, CHR 0xBD]"

function utf8_chunks :: "string \<Rightarrow> string list" where
  "utf8_chunks s =
     (if s = [] then []
      else let n = max 1 (rune_len s) in take n s # utf8_chunks (drop n s))"
  by pat_completeness auto
termination
  by (relation "measure length") (auto simp: Let_def)

declare utf8_chunks.simps [simp del]

definition rune_of :: "string \<Rightarrow> string" where
  "rune_of c = (if rune_len c = 0 then replacement else c)"

definition runes :: "string \<Rightarrow> string list" where
  "runes s = map rune_of (utf8_chunks s)"

text \<open>\<open>unicode.IsSpace\<close>, and \<open>strings.TrimSpace\<close>, which keeps invalid bytes as they are.\<close>

definition space_rune :: "string \<Rightarrow> bool" where
  "space_rune r \<longleftrightarrow>
     (case map of_char r :: nat list of
        [a] \<Rightarrow> a \<in> {9, 10, 11, 12, 13, 32}
      | [a, b] \<Rightarrow> a = 194 \<and> b \<in> {133, 160}
      | [a, b, c] \<Rightarrow>
          (a, b, c) = (225, 154, 128) \<or> a = 226 \<and> b = 128 \<and> (c \<le> 138 \<or> c \<in> {168, 169, 175})
          \<or> (a, b, c) \<in> {(226, 129, 159), (227, 128, 128)}
      | _ \<Rightarrow> False)"

definition TrimSpace :: "string \<Rightarrow> string" where
  "TrimSpace s = concat (trim_right space_rune (trim_left space_rune (utf8_chunks s)))"

section \<open>Validation\<close>

definition maxTitleLen :: nat where "maxTitleLen = 100"
definition maxNameLen :: nat where "maxNameLen = 60"
definition maxURLLen :: nat where "maxURLLen = 300"

record port_meta =
  pm_Name :: string
  pm_URL :: string

record client_meta =
  cm_Title :: string
  cm_Ports :: "(string \<times> port_meta) list"

definition clip :: "string \<Rightarrow> nat \<Rightarrow> string" where
  "clip s n =
     (let s = TrimSpace s; r = runes s in if n < length r then concat (take n r) else s)"

type_synonym url_parser = "string \<Rightarrow> (string \<times> string \<times> bool) option"

definition cleanURL :: "url_parser \<Rightarrow> string \<Rightarrow> string" where
  "cleanURL purl raw =
     (if maxURLLen < length raw then []
      else (case purl raw of
              None \<Rightarrow> []
            | Some (scheme, host, user) \<Rightarrow>
                (if host = [] \<or> user then []
                 else if to_lower scheme \<in> {''http'', ''https'', ''tcp'', ''ssh''} then raw else [])))"

text \<open>The warnings, with what they are formatted from.\<close>

datatype meta_warning =
  Title_truncated string
| Port_invalid string string
| Url_invalid string string

definition sanitize_port ::
  "url_parser \<Rightarrow> string \<Rightarrow> (string \<times> port_meta) list \<times> meta_warning list \<Rightarrow> string \<times> port_meta \<Rightarrow>
     (string \<times> port_meta) list \<times> meta_warning list" where
  "sanitize_port purl name st kp =
     (let (ports, ws) = st; (key, p) = kp in
      case atoi (TrimSpace key) of
        None \<Rightarrow> (ports, ws @ [Port_invalid name key])
      | Some port \<Rightarrow>
          (if port < 1 \<or> 65535 < port then (ports, ws @ [Port_invalid name key])
           else
             let op = \<lparr>pm_Name = clip (pm_Name p) maxNameLen, pm_URL = []\<rparr>;
                 u = TrimSpace (pm_URL p);
                 (op, ws) =
                   (if u \<noteq> [] then
                      if cleanURL purl u = [] then (op, ws @ [Url_invalid name key])
                      else (op\<lparr>pm_URL := u\<rparr>, ws)
                    else (op, ws))
             in (put (itoa port) op ports, ws)))"

definition sanitize_client ::
  "url_parser \<Rightarrow> string \<Rightarrow> client_meta \<Rightarrow> client_meta \<times> meta_warning list" where
  "sanitize_client purl name c =
     (let title = clip (cm_Title c) maxTitleLen;
          ws = (if cm_Title c \<noteq> title then [Title_truncated name] else []);
          (ports, ws) = foldl (sanitize_port purl name) ([], ws) (cm_Ports c)
      in (\<lparr>cm_Title = title, cm_Ports = ports\<rparr>, ws))"

definition sanitize ::
  "url_parser \<Rightarrow> (string \<times> client_meta) list \<Rightarrow> (string \<times> client_meta) list \<times> meta_warning list" where
  "sanitize purl inp =
     (let rs = map (\<lambda>(n, c). (n, sanitize_client purl n c)) (sort_key fst inp)
      in (map (\<lambda>(n, r). (n, fst r)) rs, concat (map (\<lambda>(n, r). snd r) rs)))"

section \<open>The store\<close>

record meta_store =
  ms_path :: string
  ms_mtime :: gotime
  ms_size :: int
  ms_data :: "(string \<times> client_meta) list option"
  ms_warn :: "meta_warning list"

datatype meta_log = Removed | Bad_json | Warned meta_warning | Loaded nat

definition NewMetaStore :: "string \<Rightarrow> meta_store" where
  "NewMetaStore path =
     \<lparr>ms_path = path, ms_mtime = zero_time, ms_size = 0, ms_data = None, ms_warn = []\<rparr>"

text \<open>Each warning is logged the first time it occurs.\<close>

fun warn_once :: "meta_warning list \<Rightarrow> meta_warning list \<Rightarrow> meta_warning list \<times> meta_log list" where
  "warn_once seen [] = (seen, [])"
| "warn_once seen (w # ws) =
     (if w \<in> set seen then warn_once seen ws
      else let (seen', ls) = warn_once (w # seen) ws in (seen', Warned w # ls))"

definition refresh ::
  "url_parser \<Rightarrow> (string \<Rightarrow> (string \<times> client_meta) list option) \<Rightarrow> meta_store \<Rightarrow>
     (gotime \<times> int) option \<Rightarrow> string option \<Rightarrow> meta_store \<times> meta_log list" where
  "refresh purl unmarshal m st raw =
     (if ms_path m = [] then (m, [])
      else (case st of
              None \<Rightarrow>
                (if ms_data m \<noteq> None
                 then (m\<lparr>ms_data := None, ms_mtime := zero_time, ms_size := 0\<rparr>, [Removed])
                 else (m, []))
            | Some (mt, sz) \<Rightarrow>
                (if ms_data m \<noteq> None \<and> mt = ms_mtime m \<and> sz = ms_size m then (m, [])
                 else (case raw of
                         None \<Rightarrow> (m, [])
                       | Some bytes \<Rightarrow>
                           (case unmarshal bytes of
                              None \<Rightarrow> (m\<lparr>ms_mtime := mt, ms_size := sz\<rparr>, [Bad_json])
                            | Some inp \<Rightarrow>
                                (let (data, ws) = sanitize purl inp;
                                     (seen, ls) = warn_once (ms_warn m) ws
                                 in (m\<lparr>ms_data := Some data, ms_warn := seen, ms_mtime := mt,
                                       ms_size := sz\<rparr>,
                                     ls @ [Loaded (length data)])))))))"

definition zero_meta :: client_meta where
  "zero_meta = \<lparr>cm_Title = [], cm_Ports = []\<rparr>"

text \<open>What a lookup returns after its refresh.\<close>

definition meta_Get :: "meta_store \<Rightarrow> string \<Rightarrow> client_meta" where
  "meta_Get m name =
     (case ms_data m of
        None \<Rightarrow> zero_meta
      | Some d \<Rightarrow> (case get d name of None \<Rightarrow> zero_meta | Some c \<Rightarrow> c))"

definition meta_Port :: "meta_store \<Rightarrow> string \<Rightarrow> u32 \<Rightarrow> port_meta" where
  "meta_Port m name port =
     (case get (cm_Ports (meta_Get m name)) (show_nat (unat port)) of
        None \<Rightarrow> \<lparr>pm_Name = [], pm_URL = []\<rparr> | Some p \<Rightarrow> p)"

definition meta_Title :: "meta_store \<Rightarrow> string \<Rightarrow> string" where
  "meta_Title m name = (let t = cm_Title (meta_Get m name) in if t \<noteq> [] then t else name)"

section \<open>Lemmas on runes\<close>

lemma byte_at_append: "i < length r \<Longrightarrow> byte_at (r @ t) i = byte_at r i"
  by (simp add: byte_at_def nth_append)

lemma byte_at_take: "i < n \<Longrightarrow> n \<le> length s \<Longrightarrow> byte_at (take n s) i = byte_at s i"
  by (simp add: byte_at_def)

lemma byte_at_pos: "0 < byte_at s i \<Longrightarrow> i < length s"
  by (simp add: byte_at_def split: if_splits)

lemma rune_len_same:
  "rune_len s = n \<Longrightarrow> \<forall>i < n. byte_at t i = byte_at s i \<Longrightarrow> 0 < n \<Longrightarrow> rune_len t = n"
  by (auto simp: rune_len_def cont_at_def Let_def split: if_splits)

lemma rune_len_le: "s \<noteq> [] \<Longrightarrow> rune_len s \<le> length s"
proof -
  assume s: "s \<noteq> []"
  have at: "i < length s" if "128 \<le> byte_at s i" for i using that byte_at_pos [of s i] by simp
  have "1 < length s" if "rune_len s = 2" using that at [of 1]
    by (auto simp: rune_len_def cont_at_def Let_def split: if_splits)
  moreover have "2 < length s" if "rune_len s = 3" using that at [of 2]
    by (auto simp: rune_len_def cont_at_def Let_def split: if_splits)
  moreover have "3 < length s" if "rune_len s = 4" using that at [of 3]
    by (auto simp: rune_len_def cont_at_def Let_def split: if_splits)
  moreover have "rune_len s \<in> {0, 1, 2, 3, 4}" by (simp add: rune_len_def Let_def)
  moreover have "1 \<le> length s" using s by (simp add: Suc_leI)
  ultimately show ?thesis by fastforce
qed

definition valid_rune :: "string \<Rightarrow> bool" where
  "valid_rune r \<longleftrightarrow> r \<noteq> [] \<and> rune_len r = length r"

lemma valid_rune_of: "c \<in> set (utf8_chunks s) \<Longrightarrow> valid_rune (rune_of c)"
proof (induction s rule: utf8_chunks.induct)
  case (1 s)
  show ?case
  proof (cases "s = []")
    case True
    with "1.prems" show ?thesis by (simp add: utf8_chunks.simps)
  next
    case False
    let ?n = "max 1 (rune_len s)"
    have "1 \<le> length s" using False by (simp add: Suc_leI)
    then have n: "0 < ?n" "?n \<le> length s" using rune_len_le [OF False] by simp_all
    have "valid_rune (rune_of (take ?n s))"
    proof (cases "rune_len s = 0")
      case True
      have "rune_len (take 1 s) = 0 \<or> rune_len (take 1 s) = 1"
        using rune_len_le [of "take 1 s"] False by (cases s) (auto simp: le_Suc_eq)
      moreover have "rune_len (take 1 s) \<noteq> 1"
      proof
        assume "rune_len (take 1 s) = 1"
        then have "rune_len s = 1"
          by (rule rune_len_same [of "take 1 s"]) (use n in \<open>auto simp: byte_at_take\<close>)
        with True show False by simp
      qed
      ultimately have "rune_len (take 1 s) = 0" by blast
      with True show ?thesis
        by (simp add: rune_of_def valid_rune_def replacement_def rune_len_def cont_at_def byte_at_def)
    next
      case nz: False
      then have "rune_len s = ?n" by simp
      then have "rune_len (take ?n s) = ?n"
        by (rule rune_len_same [of s]) (use n in \<open>auto simp: byte_at_take\<close>)
      then show ?thesis using n False by (simp add: rune_of_def valid_rune_def)
    qed
    moreover have "c = take ?n s \<or> c \<in> set (utf8_chunks (drop ?n s))"
      using "1.prems" False by (simp add: utf8_chunks.simps [of s] Let_def)
    ultimately show ?thesis using "1.IH" False by blast
  qed
qed

lemma chunks_cons: "valid_rune r \<Longrightarrow> utf8_chunks (r @ t) = r # utf8_chunks t"
proof -
  assume v: "valid_rune r"
  then have "rune_len r = length r" by (simp add: valid_rune_def)
  then have "rune_len (r @ t) = length r"
    by (rule rune_len_same [of r]) (use v in \<open>auto simp: valid_rune_def byte_at_append\<close>)
  moreover have "1 \<le> length r" using v by (simp add: valid_rune_def Suc_leI)
  then have "max 1 (length r) = length r" by (rule max_absorb2)
  ultimately show ?thesis using v by (simp add: utf8_chunks.simps [of "r @ t"] valid_rune_def)
qed

lemma runes_concat: "\<forall>r \<in> set rs. valid_rune r \<Longrightarrow> runes (concat rs) = rs"
proof (induction rs)
  case (Cons r rs)
  then have "valid_rune r" by simp
  moreover from this have "rune_of r = r" by (simp add: rune_of_def valid_rune_def)
  ultimately show ?case using Cons by (simp add: runes_def chunks_cons)
qed (simp add: runes_def utf8_chunks.simps)

lemma runes_valid: "r \<in> set (runes s) \<Longrightarrow> valid_rune r"
  by (auto simp: runes_def valid_rune_of)

lemma length_runes_clip: "length (runes (clip s n)) \<le> n"
proof (cases "n < length (runes (TrimSpace s))")
  case True
  have "runes (concat (take n (runes (TrimSpace s)))) = take n (runes (TrimSpace s))"
    by (intro runes_concat) (auto intro: runes_valid dest: in_set_takeD)
  with True show ?thesis by (simp add: clip_def)
qed (simp add: clip_def)

section \<open>Validity of what is shown\<close>

definition url_ok :: "url_parser \<Rightarrow> string \<Rightarrow> bool" where
  "url_ok purl u \<longleftrightarrow>
     length u \<le> maxURLLen
     \<and> (\<exists>scheme host. purl u = Some (scheme, host, False) \<and> host \<noteq> []
            \<and> to_lower scheme \<in> {''http'', ''https'', ''tcp'', ''ssh''})"

definition port_ok :: "url_parser \<Rightarrow> string \<Rightarrow> port_meta \<Rightarrow> bool" where
  "port_ok purl k p \<longleftrightarrow>
     (\<exists>n. 1 \<le> n \<and> n \<le> 65535 \<and> k = itoa n) \<and> length (runes (pm_Name p)) \<le> maxNameLen
     \<and> (pm_URL p = [] \<or> url_ok purl (pm_URL p))"

definition shown_ok :: "url_parser \<Rightarrow> client_meta \<Rightarrow> bool" where
  "shown_ok purl c \<longleftrightarrow>
     length (runes (cm_Title c)) \<le> maxTitleLen \<and> (\<forall>(k, p) \<in> set (cm_Ports c). port_ok purl k p)"

lemma cleanURL_nonempty: "cleanURL purl u \<noteq> [] \<Longrightarrow> url_ok purl u"
  by (auto simp: cleanURL_def url_ok_def split: if_splits option.splits)

lemma set_put: "kv \<in> set (put k v m) \<Longrightarrow> kv = (k, v) \<or> kv \<in> set m"
  by (induction m) (auto split: if_splits)

lemma sanitize_port_ok:
  assumes "\<forall>(k, p) \<in> set ps. port_ok purl k p"
  shows "\<forall>(k, p) \<in> set (fst (sanitize_port purl name (ps, ws) kp)). port_ok purl k p"
proof -
  obtain key q where kp: "kp = (key, q)" by fastforce
  show ?thesis
  proof (cases "atoi (TrimSpace key)")
    case None
    with assms kp show ?thesis by (simp add: sanitize_port_def)
  next
    case (Some n)
    show ?thesis
    proof (cases "n < 1 \<or> 65535 < n")
      case True
      with assms kp Some show ?thesis by (simp add: sanitize_port_def)
    next
      case False
      let ?u = "TrimSpace (pm_URL q)"
      let ?op = "\<lparr>pm_Name = clip (pm_Name q) maxNameLen,
                   pm_URL = (if cleanURL purl ?u = [] then [] else ?u)\<rparr>"
      have "cleanURL purl [] = []" by (simp add: cleanURL_def split: option.splits)
      then have "fst (sanitize_port purl name (ps, ws) kp) = put (itoa n) ?op ps"
        using kp Some False by (auto simp: sanitize_port_def Let_def)
      moreover have "port_ok purl (itoa n) ?op"
        using False by (auto simp: port_ok_def length_runes_clip cleanURL_nonempty intro!: exI [of _ n])
      ultimately show ?thesis using assms set_put by fastforce
    qed
  qed
qed

lemma sanitize_ports_ok:
  "\<forall>(k, p) \<in> set (fst st). port_ok purl k p
   \<Longrightarrow> \<forall>(k, p) \<in> set (fst (foldl (sanitize_port purl name) st kps)). port_ok purl k p"
proof (induction kps arbitrary: st)
  case (Cons kp kps)
  then have "\<forall>(k, p) \<in> set (fst (sanitize_port purl name st kp)). port_ok purl k p"
    using sanitize_port_ok [of "fst st" purl name "snd st" kp] by simp
  then show ?case using Cons.IH by simp
qed simp

lemma sanitize_client_ok: "shown_ok purl (fst (sanitize_client purl name c))"
proof -
  have "\<forall>(k, p) \<in> set (fst (foldl (sanitize_port purl name) ([], ws) kps)). port_ok purl k p" for ws kps
    by (rule sanitize_ports_ok) simp
  moreover have "length (runes (cm_Title (fst (sanitize_client purl name c)))) \<le> maxTitleLen"
    by (simp only: sanitize_client_def Let_def split_beta fst_conv client_meta.simps length_runes_clip)
  moreover have "\<exists>ws. cm_Ports (fst (sanitize_client purl name c))
      = fst (foldl (sanitize_port purl name) ([], ws) (cm_Ports c))"
    by (simp only: sanitize_client_def Let_def split_beta fst_conv client_meta.simps) blast
  ultimately show ?thesis unfolding shown_ok_def by metis
qed

section \<open>Histories of the file\<close>

text \<open>A look at the file finds its modification time and size, and what a read returns.\<close>

definition meta_step ::
  "url_parser \<Rightarrow> (string \<Rightarrow> (string \<times> client_meta) list option) \<Rightarrow>
     meta_store \<Rightarrow> (gotime \<times> int) file_obs \<Rightarrow> meta_store" where
  "meta_step purl unmarshal m ob =
     fst (refresh purl unmarshal m (map_option fst ob) (Option.bind ob snd))"

definition meta_run ::
  "url_parser \<Rightarrow> (string \<Rightarrow> (string \<times> client_meta) list option) \<Rightarrow>
     string \<Rightarrow> (gotime \<times> int) file_obs list \<Rightarrow> meta_store" where
  "meta_run purl unmarshal path obs = foldl (meta_step purl unmarshal) (NewMetaStore path) obs"

text \<open>
  What is in use after each look: nothing until a content decodes, and nothing once the file is gone;
  then a content is looked at only if the stamp is not the one of the content looked at last, and it
  is taken if it decodes.
\<close>

fun in_use ::
  "(string \<Rightarrow> 'd option) \<Rightarrow> ('m \<times> 'd) option \<Rightarrow> 'm file_obs \<Rightarrow> ('m \<times> 'd) option" where
  "in_use unmarshal acc None = None"
| "in_use unmarshal acc (Some (st, None)) = acc"
| "in_use unmarshal acc (Some (st, Some bytes)) =
     (case acc of
        None \<Rightarrow> map_option (Pair st) (unmarshal bytes)
      | Some (st', x) \<Rightarrow>
          if st = st' then acc
          else Some (st, case unmarshal bytes of None \<Rightarrow> x | Some y \<Rightarrow> y))"

text \<open>The ideal: the last content that could be read and decoded since the file appeared.\<close>

fun last_good :: "(string \<Rightarrow> 'd option) \<Rightarrow> 'd option \<Rightarrow> 'm file_obs \<Rightarrow> 'd option" where
  "last_good unmarshal d None = None"
| "last_good unmarshal d (Some (st, None)) = d"
| "last_good unmarshal d (Some (st, Some bytes)) =
     (case unmarshal bytes of None \<Rightarrow> d | Some x \<Rightarrow> Some x)"

lemma in_use_decoded:
  assumes "edits_show obs" and "foldl (in_use unmarshal) None obs = Some (st, x)"
  shows "\<exists>bytes. (st, bytes) \<in> set (readable obs) \<and> (unmarshal bytes = None \<or> unmarshal bytes = Some x)"
  using assms
proof (induction obs arbitrary: st x rule: rev_induct)
  case (snoc ob obs)
  let ?acc = "foldl (in_use unmarshal) None obs"
  have IH: "\<exists>bytes. (st, bytes) \<in> set (readable obs) \<and> (unmarshal bytes = None \<or> unmarshal bytes = Some x)"
    if "?acc = Some (st, x)" for st x
    by (rule snoc.IH [OF edits_show_butlast [OF snoc.prems(1)] that])
  consider "ob = None" | m where "ob = Some (m, None)" | m d where "ob = Some (m, Some d)"
    by (cases ob) (auto, metis option.exhaust)
  then show ?case
  proof cases
    case 3
    then show ?thesis
      using snoc.prems(2) IH
      by (cases ?acc; cases "unmarshal d") (auto simp: readable_snoc split: if_splits)
  qed (use snoc.prems(2) IH in \<open>auto simp: readable_snoc\<close>)
qed simp

text \<open>When edits show, the stamp hides nothing.\<close>

lemma in_use_last_good:
  assumes "edits_show obs"
  shows "map_option snd (foldl (in_use unmarshal) None obs) = foldl (last_good unmarshal) None obs"
  using assms
proof (induction obs rule: rev_induct)
  case (snoc ob obs)
  let ?acc = "foldl (in_use unmarshal) None obs"
  note es = edits_show_butlast [OF snoc.prems]
  have IH: "map_option snd ?acc = foldl (last_good unmarshal) None obs" by (rule snoc.IH [OF es])
  consider "ob = None" | m where "ob = Some (m, None)" | m d where "ob = Some (m, Some d)"
    by (cases ob) (auto, metis option.exhaust)
  then show ?case
  proof cases
    case (3 m d)
    show ?thesis
    proof (cases ?acc)
      case None
      then show ?thesis using IH 3 by (simp add: option.map_comp comp_def split: option.split)
    next
      case (Some sx)
      obtain st x where sx: "sx = (st, x)" by (cases sx)
      obtain b where b: "(st, b) \<in> set (readable obs)" "unmarshal b = None \<or> unmarshal b = Some x"
        using in_use_decoded [OF es, of unmarshal st x] Some sx by blast
      have "m = st \<Longrightarrow> d = b"
        using snoc.prems b(1) 3 by (fastforce simp: edits_show_def readable_snoc)
      with IH Some sx b(2) 3 show ?thesis by (auto split: option.split)
    qed
  qed (use IH in auto)
qed simp

definition meta_sync ::
  "url_parser \<Rightarrow> (string \<Rightarrow> (string \<times> client_meta) list option) \<Rightarrow>
     meta_store \<Rightarrow> ((gotime \<times> int) \<times> (string \<times> client_meta) list) option \<Rightarrow> bool" where
  "meta_sync purl unmarshal m acc \<longleftrightarrow>
     ms_path m \<noteq> [] \<and> ms_data m = map_option (fst \<circ> sanitize purl \<circ> snd) acc
     \<and> (acc \<noteq> None \<longrightarrow> (ms_mtime m, ms_size m) = fst (the acc))"

lemma meta_step_sync:
  assumes sy: "meta_sync purl unmarshal m acc"
  shows "meta_sync purl unmarshal (meta_step purl unmarshal m ob) (in_use unmarshal acc ob)"
proof -
  consider "ob = None" | st where "ob = Some (st, None)" | mt sz d where "ob = Some ((mt, sz), Some d)"
    by (cases ob) (auto, metis option.exhaust)
  then show ?thesis
  proof cases
    case (3 mt sz d)
    show ?thesis
    proof (cases "unmarshal d")
      case None
      with 3 sy show ?thesis
        by (cases acc) (auto simp: meta_sync_def meta_step_def refresh_def)
    next
      case (Some inp)
      obtain data ws where san: "sanitize purl inp = (data, ws)" by fastforce
      obtain seen ls where warn: "warn_once (ms_warn m) ws = (seen, ls)" by fastforce
      show ?thesis
        using 3 sy Some san warn
        by (cases acc) (auto simp: meta_sync_def meta_step_def refresh_def)
    qed
  next
    case 1
    with sy show ?thesis by (cases acc) (auto simp: meta_sync_def meta_step_def refresh_def)
  next
    case (2 st)
    with sy show ?thesis by (cases acc; cases st) (auto simp: meta_sync_def meta_step_def refresh_def)
  qed
qed

interpretation meta_file: simulation "meta_step purl unmarshal" "in_use unmarshal" "meta_sync purl unmarshal"
    for purl unmarshal
  by unfold_locales (rule meta_step_sync)

lemma meta_start_sync: "path \<noteq> [] \<Longrightarrow> meta_sync purl unmarshal (NewMetaStore path) None"
  by (simp add: meta_sync_def NewMetaStore_def)

section \<open>What the panel is given\<close>

lemma shown_zero: "shown_ok purl zero_meta"
  by (simp add: shown_ok_def zero_meta_def runes_def utf8_chunks.simps)

lemma get_filter: "get xs k = get (filter (\<lambda>x. fst x = k) xs) k"
  by (induction xs) auto

lemma get_sort_key: "get (sort_key fst xs) k = get xs k"
  by (metis get_filter sort_key_stable)

lemma get_sanitize:
  "get (fst (sanitize purl inp)) name =
     map_option (\<lambda>c. fst (sanitize_client purl name c)) (get inp name)"
proof -
  have "get (map (\<lambda>(n, c). (n, fst (sanitize_client purl n c))) (sort_key fst inp)) name
      = map_option (\<lambda>c. fst (sanitize_client purl name c)) (get inp name)"
    by (simp add: get_map_values get_sort_key)
  then show ?thesis by (simp add: sanitize_def Let_def comp_def case_prod_unfold)
qed

text \<open>What is given for a client from the decoded file.\<close>

definition meta_of :: "url_parser \<Rightarrow> (string \<times> client_meta) list option \<Rightarrow> string \<Rightarrow> client_meta" where
  "meta_of purl d name =
     (case d of
        None \<Rightarrow> zero_meta
      | Some inp \<Rightarrow> (case get inp name of
                      None \<Rightarrow> zero_meta | Some c \<Rightarrow> fst (sanitize_client purl name c)))"

lemma meta_Get_run:
  "path \<noteq> [] \<Longrightarrow>
     meta_Get (meta_run purl unmarshal path obs) name =
       meta_of purl (map_option snd (foldl (in_use unmarshal) None obs)) name"
  using meta_file.sim_run [OF meta_start_sync [of path], of purl unmarshal obs]
  by (auto simp: meta_sync_def meta_Get_def meta_run_def meta_of_def get_sanitize split: option.splits)

lemma meta_run_no_path: "meta_run purl unmarshal [] obs = NewMetaStore []"
proof -
  have "foldl (meta_step purl unmarshal) m obs = m" if "ms_path m = []" for m
    using that by (induction obs) (simp_all add: meta_step_def refresh_def)
  then show ?thesis by (simp add: meta_run_def NewMetaStore_def)
qed

lemma meta_Get_shown: "shown_ok purl (meta_Get (meta_run purl unmarshal path obs) name)"
proof (cases "path = []")
  case True
  then show ?thesis
    by (simp add: meta_run_no_path meta_Get_def NewMetaStore_def shown_zero)
next
  case False
  then show ?thesis by (auto simp: meta_Get_run meta_of_def shown_zero sanitize_client_ok split: option.splits)
qed

text \<open>
  C27. Whatever the metadata file held over time, what the panel is given for a client is valid: a
  title of at most 100 characters, port entries named by decimal numbers from 1 to 65535 with names
  of at most 60 characters, and URLs that are empty, or short, with a known scheme and a host and
  without credentials.
\<close>

theorem shown_metadata_is_valid:
  "length (runes (cm_Title (meta_Get (meta_run purl unmarshal path obs) name))) \<le> 100
   \<and> list_all (\<lambda>(k, p).
        (\<exists>n. 1 \<le> n \<and> n \<le> 65535 \<and> k = itoa n) \<and> length (runes (pm_Name p)) \<le> 60
        \<and> (pm_URL p = []
           \<or> length (pm_URL p) \<le> 300
             \<and> (\<exists>scheme host. purl (pm_URL p) = Some (scheme, host, False) \<and> host \<noteq> []
                  \<and> to_lower scheme \<in> {''http'', ''https'', ''tcp'', ''ssh''})))
      (cm_Ports (meta_Get (meta_run purl unmarshal path obs) name))"
  using meta_Get_shown [of purl unmarshal path obs name]
  by (simp add: shown_ok_def port_ok_def url_ok_def maxTitleLen_def maxNameLen_def maxURLLen_def
      list_all_iff)

text \<open>
  C26. A lookup follows the metadata file, as far as its modification time and size tell. A missing
  file gives no metadata and forgets what was known, and an unreadable one changes nothing. A content
  is looked at unless there is metadata already and the stamp, modification time and size, is that
  of the content looked at last; it is taken if it decodes, and a malformed one keeps the metadata in
  use. So an edit that keeps the stamp is missed until the stamp changes. If every edit gives the
  file a stamp it has not had before, every lookup answers from the last content that could be read
  and decoded since the file appeared.
\<close>

theorem metadata_follows_file:
  assumes "path \<noteq> []"
  shows "meta_Get (meta_run purl unmarshal path obs) name =
           meta_of purl (map_option snd (foldl (in_use unmarshal) None obs)) name
       \<and> (edits_show obs \<longrightarrow>
           meta_Get (meta_run purl unmarshal path obs) name =
             meta_of purl (foldl (last_good unmarshal) None obs) name)"
  using assms by (simp add: meta_Get_run in_use_last_good)

lemmas title_simps = sanitize_def sanitize_client_def clip_def TrimSpace_def utf8_chunks.simps rune_len_def
  byte_at_def cont_at_def runes_def rune_of_def trim_left_def trim_right_def space_rune_def maxTitleLen_def

text \<open>A malformed edit keeps the title.\<close>

theorem metadata_follows_file_witness:
  "cm_Title (meta_Get (meta_run (\<lambda>u. None)
      (\<lambda>b. if b = ''bad'' then None else Some [(''c1'', \<lparr>cm_Title = b, cm_Ports = []\<rparr>)])
      ''clients.json'' [Some ((1, 4), Some ''Site''), Some ((2, 3), Some ''bad'')]) ''c1'') = ''Site''"
  using metadata_follows_file [of "''clients.json''" "\<lambda>u. None"
      "\<lambda>b. if b = ''bad'' then None else Some [(''c1'', \<lparr>cm_Title = b, cm_Ports = []\<rparr>)]"
      "[Some ((1, 4), Some ''Site''), Some ((2, 3), Some ''bad'')]" "''c1''"]
  by (simp add: meta_of_def title_simps)

text \<open>An edit of the same size within one modification time is missed.\<close>

lemma edit_within_stamp_is_missed:
  "cm_Title (meta_Get (meta_run (\<lambda>u. None) (\<lambda>b. Some [(''c1'', \<lparr>cm_Title = b, cm_Ports = []\<rparr>)])
      ''clients.json'' [Some ((1, 4), Some ''Site''), Some ((1, 4), Some ''Yard'')]) ''c1'') = ''Site''"
  by (simp add: meta_Get_run meta_of_def title_simps)

text \<open>
  When the first content is malformed there is no previous data, so the remembered modification time
  is not looked at: the file is read, decoded and logged again by every lookup.
\<close>

lemma bad_json_retried:
  assumes "ms_path m \<noteq> []" "ms_data m = None" "unmarshal bytes = None"
  shows "refresh purl unmarshal (fst (refresh purl unmarshal m (Some st) (Some bytes))) (Some st) (Some bytes)
           = (fst (refresh purl unmarshal m (Some st) (Some bytes)), [Bad_json])"
  using assms by (cases st) (simp add: refresh_def)

lemma trimmed_title_is_reported:
  "snd (sanitize_client purl name \<lparr>cm_Title = '' a'', cm_Ports = []\<rparr>) = [Title_truncated name]"
  by (simp add: sanitize_client_def clip_def TrimSpace_def utf8_chunks.simps rune_len_def
      byte_at_def cont_at_def runes_def rune_of_def trim_left_def trim_right_def space_rune_def
      maxTitleLen_def)

end
