(* ===== verification/Probe.thy ===== *)
theory Probe
  imports Meta
begin

text \<open>
  The port test of the panel, \<open>internal/monitor/probe.go\<close>: how one probe is classified, and the
  gate that limits how often a port is probed. The sockets, the TLS and the HTTP library give the
  outcome of an attempt as a value: the text of an error with whether it is a timeout, or the
  status of an answer; the times taken are arguments.
\<close>

section \<open>Time limits\<close>

definition httpProbeTimeout :: duration where "httpProbeTimeout = 6 * second"
definition tcpProbeTimeout :: duration where "tcpProbeTimeout = 3 * second"
definition tcpProbeWait :: duration where "tcpProbeWait = 1500 * millisecond"

section \<open>Classification\<close>

record probe_result =
  pr_Kind :: string
  pr_Level :: string
  pr_Message :: string
  pr_Status :: int
  pr_LatencyMS :: rat

definition closed_at_once :: string where
  "closed_at_once = ''the tunnel closed the connection at once: the client could not reach its local service''"

text \<open>\<open>deadline\<close>: the error is \<open>context.DeadlineExceeded\<close>.\<close>

definition explainErr :: "string \<Rightarrow> bool \<Rightarrow> string \<Rightarrow> string" where
  "explainErr s deadline scheme =
     (if contains s ''first record does not look like a TLS handshake''
         \<or> contains s ''server gave HTTP response to HTTPS client''
      then ''the URL says https but the service speaks plain HTTP''
      else if contains s ''EOF'' \<or> contains s ''connection reset''
         \<or> contains s ''server closed idle connection'' \<or> contains s ''broken pipe''
      then closed_at_once
      else if contains s ''tls:'' \<and> to_lower scheme = ''http''
      then ''TLS error on an http URL: '' @ s
      else if deadline \<or> contains s ''timeout'' \<or> contains s ''deadline''
      then ''no answer within 6s''
      else if contains s ''refused'' then ''the port is not listening on the server''
      else s)"

datatype http_outcome =
  Request_error string
| Do_error string bool
| Answered int

definition probeHTTP :: "string \<Rightarrow> http_outcome \<Rightarrow> rat \<Rightarrow> probe_result" where
  "probeHTTP scheme out ms =
     (case out of
        Request_error e \<Rightarrow>
          \<lparr>pr_Kind = ''http'', pr_Level = ''fail'', pr_Message = ''bad URL: '' @ e, pr_Status = 0,
           pr_LatencyMS = 0\<rparr>
      | Do_error e deadline \<Rightarrow>
          \<lparr>pr_Kind = ''http'', pr_Level = ''fail'', pr_Message = explainErr e deadline scheme,
           pr_Status = 0, pr_LatencyMS = ms\<rparr>
      | Answered code \<Rightarrow>
          (let (level, msg) =
             (if code < 400 then (''ok'', ''the service answered HTTP '' @ itoa code)
              else if code = 401 \<or> code = 403
              then (''ok'', ''the service answered HTTP '' @ itoa code @ '' (it is up, login required)'')
              else if 500 \<le> code
              then (''warn'', ''the service answered HTTP '' @ itoa code
                              @ '': reached, but it reports an error'')
              else (''warn'', ''the service answered HTTP '' @ itoa code
                              @ '': reached, but not the expected page''))
           in \<lparr>pr_Kind = ''http'', pr_Level = level, pr_Message = msg, pr_Status = code,
               pr_LatencyMS = ms\<rparr>))"

text \<open>A dial error, or what the one-byte read gives.\<close>

datatype tcp_outcome = Dial_error string | Read_byte | Read_timeout | Read_closed

definition probeTCP :: "tcp_outcome \<Rightarrow> rat \<Rightarrow> probe_result" where
  "probeTCP out ms =
     (case out of
        Dial_error e \<Rightarrow>
          \<lparr>pr_Kind = ''tcp'', pr_Level = ''fail'',
           pr_Message = ''the port is not listening on the server: '' @ e, pr_Status = 0,
           pr_LatencyMS = 0\<rparr>
      | Read_byte \<Rightarrow>
          \<lparr>pr_Kind = ''tcp'', pr_Level = ''ok'', pr_Message = ''the service sent data: it is up'',
           pr_Status = 0, pr_LatencyMS = ms\<rparr>
      | Read_timeout \<Rightarrow>
          \<lparr>pr_Kind = ''tcp'', pr_Level = ''ok'',
           pr_Message = ''connection accepted and held open: the service is up (it waits for the client to speak first)'',
           pr_Status = 0, pr_LatencyMS = ms\<rparr>
      | Read_closed \<Rightarrow>
          \<lparr>pr_Kind = ''tcp'', pr_Level = ''fail'', pr_Message = closed_at_once, pr_Status = 0,
           pr_LatencyMS = ms\<rparr>)"

text \<open>
  The TCP probe over time: after \<open>dialed\<close> the dial has ended, with the given error if any, unless the limit comes
  first; \<open>wire\<close> is what arrives then, and after how long, if anything. The result is what \<open>probeTCP\<close> sees, and how long it has
  taken; \<open>limit_error\<close> is the error of a dial that took too long.
\<close>

definition tcp_probe_run ::
  "string \<Rightarrow> duration \<times> string option \<Rightarrow> (duration \<times> bool) option \<Rightarrow> tcp_outcome \<times> duration" where
  "tcp_probe_run limit_error dialed wire =
     (let (d, err) = dialed in
      if tcpProbeTimeout \<le> d then (Dial_error limit_error, tcpProbeTimeout)
      else (case err of
              Some e \<Rightarrow> (Dial_error e, d)
            | None \<Rightarrow>
                (case wire of
                   None \<Rightarrow> (Read_timeout, d + tcpProbeWait)
                 | Some (w, byte) \<Rightarrow>
                     (if tcpProbeWait \<le> w then (Read_timeout, d + tcpProbeWait)
                      else (if byte then Read_byte else Read_closed, d + w)))))"

text \<open>
  A port is reported to work only if its connection was accepted and not closed at once, and a probe
  returns within four and a half seconds.
\<close>

lemma tcp_probe_run_bounded:
  assumes "0 \<le> fst dialed"
  shows "snd (tcp_probe_run e dialed wire) \<le> 4500 * millisecond"
    and "pr_Level (probeTCP (fst (tcp_probe_run e dialed wire)) ms) = ''ok'' \<longleftrightarrow>
      fst dialed < tcpProbeTimeout \<and> snd dialed = None
      \<and> (case wire of Some (w, False) \<Rightarrow> tcpProbeWait \<le> w | _ \<Rightarrow> True)"
  using assms
  by (auto simp: tcp_probe_run_def probeTCP_def tcpProbeTimeout_def tcpProbeWait_def second_def millisecond_def
      split: prod.splits option.splits bool.splits)

text \<open>The limit that \<open>explainErr\<close> names is the one the HTTP probe has.\<close>

lemma explained_timeout:
  "explainErr ''net/http: timeout'' True scheme = ''no answer within '' @ itoa (httpProbeTimeout div second) @ ''s''"
  by (simp add: explainErr_def contains.simps has_prefix_def httpProbeTimeout_def second_def itoa_def
      show_nat.simps digit_char_def char_of_def bit_0)

definition probe ::
  "url_parser \<Rightarrow> (string \<Rightarrow> http_outcome \<times> rat) \<Rightarrow> (string \<Rightarrow> tcp_outcome \<times> rat) \<Rightarrow> string \<Rightarrow> string \<Rightarrow>
     probe_result" where
  "probe purl http tcp addr rawURL =
     (case purl rawURL of
        Some (scheme, host, user) \<Rightarrow>
          (if rawURL \<noteq> [] \<and> to_lower scheme \<in> {''http'', ''https''}
           then (let (out, ms) = http addr in probeHTTP scheme out ms)
           else (let (out, ms) = tcp addr in probeTCP out ms))
      | None \<Rightarrow> (let (out, ms) = tcp addr in probeTCP out ms))"

section \<open>The gate\<close>

record probe_gate =
  pg_last :: "(string \<times> gotime) list"
  pg_min :: duration

definition newProbeGate :: "duration \<Rightarrow> probe_gate" where
  "newProbeGate gap = \<lparr>pg_last = [], pg_min = gap\<rparr>"

definition minute :: duration where
  "minute = 60 * second"

definition grant :: "probe_gate \<Rightarrow> string \<Rightarrow> gotime \<Rightarrow> probe_gate" where
  "grant g key now =
     (let m = put key now (pg_last g)
      in g\<lparr>pg_last := (if 1024 < length m then filter (\<lambda>(k, t). \<not> minute < time_sub now t) m else m)\<rparr>)"

definition allow :: "probe_gate \<Rightarrow> string \<Rightarrow> gotime \<Rightarrow> probe_gate \<times> bool" where
  "allow g key now =
     (case get (pg_last g) key of
        Some t \<Rightarrow> if time_sub now t < pg_min g then (g, False) else (grant g key now, True)
      | None \<Rightarrow> (grant g key now, True))"

section \<open>The gate against one that forgets nothing\<close>

fun gate_run :: "probe_gate \<Rightarrow> (string \<times> gotime) list \<Rightarrow> bool list" where
  "gate_run g [] = []"
| "gate_run g ((key, now) # calls) = (let (g', ok) = allow g key now in ok # gate_run g' calls)"

text \<open>\<open>granted\<close> holds every probe granted so far.\<close>

fun spaced :: "duration \<Rightarrow> (string \<times> gotime) list \<Rightarrow> (string \<times> gotime) list \<Rightarrow> bool list" where
  "spaced gap granted [] = []"
| "spaced gap granted ((key, now) # calls) =
     (if list_ex (\<lambda>(k, t). k = key \<and> now - t < gap) granted
      then False # spaced gap granted calls
      else True # spaced gap ((key, now) # granted) calls)"

text \<open>
  What the gate remembers at time \<open>now\<close>: the last grant of every key, except for keys whose grants
  are all more than a minute old.
\<close>

definition remembers :: "(string \<times> gotime) list \<Rightarrow> gotime \<Rightarrow> (string \<times> gotime) list \<Rightarrow> bool" where
  "remembers m now granted \<longleftrightarrow>
     keys_ok m \<and> (\<forall>(k, t) \<in> set granted. t \<le> now)
     \<and> (\<forall>k t. get m k = Some t \<longrightarrow> (k, t) \<in> set granted \<and> (\<forall>t'. (k, t') \<in> set granted \<longrightarrow> t' \<le> t))
     \<and> (\<forall>k t. get m k = None \<longrightarrow> (k, t) \<in> set granted \<longrightarrow> minute < now - t)"

lemma remembers_later: "remembers m now granted \<Longrightarrow> now \<le> now' \<Longrightarrow> remembers m now' granted"
  unfolding remembers_def by fastforce

lemma minute_old: "minute < time_sub now t \<longleftrightarrow> minute < now - t"
proof -
  have "minute + 1 \<le> time_sub now t \<longleftrightarrow> minute + 1 \<le> now - t"
    by (rule time_sub_ge_iff) (simp_all add: minute_def second_def max_duration_def min_duration_def)
  then show ?thesis by linarith
qed

lemma get_filter_values:
  "keys_ok m \<Longrightarrow> get (filter (\<lambda>(k, t). P t) m) k =
     (case get m k of None \<Rightarrow> None | Some t \<Rightarrow> if P t then Some t else None)"
proof (induction m)
  case (Cons x m)
  then show ?case
    by (cases x) (auto split: option.splits dest: map_of_SomeD simp: image_iff map_of_eq_None_iff)
qed simp

lemma keys_ok_filter: "keys_ok m \<Longrightarrow> keys_ok (filter P m)"
  by (rule distinct_map_filter)

lemma remembers_put:
  assumes "remembers m now granted"
  shows "remembers (put key now m) now ((key, now) # granted)"
  using assms unfolding remembers_def by (auto simp: keys_ok_put split: if_splits)

lemma remembers_grant:
  assumes "remembers (pg_last g) now granted"
  shows "remembers (pg_last (grant g key now)) now ((key, now) # granted)"
proof -
  let ?m = "put key now (pg_last g)" and ?h = "(key, now) # granted"
  have m: "remembers ?m now ?h" using assms by (rule remembers_put)
  have "remembers (filter (\<lambda>(k, t). \<not> minute < time_sub now t) ?m) now ?h"
    unfolding remembers_def
  proof (intro conjI allI impI)
    have k: "keys_ok ?m" using m by (simp add: remembers_def)
    note gf = get_filter_values [OF k, of "\<lambda>t. \<not> minute < time_sub now t"]
    show "keys_ok (filter (\<lambda>(k, t). \<not> minute < time_sub now t) ?m)" using k by (rule keys_ok_filter)
    show "\<forall>(k, t) \<in> set ?h. t \<le> now" using m unfolding remembers_def by blast
    fix k t
    {
      assume "get (filter (\<lambda>(k, t). \<not> minute < time_sub now t) ?m) k = Some t"
      then have "get ?m k = Some t" unfolding gf by (auto split: option.splits if_splits)
      then show "(k, t) \<in> set ?h" and "\<And>t'. (k, t') \<in> set ?h \<Longrightarrow> t' \<le> t"
        using m unfolding remembers_def by blast+
    next
      assume n: "get (filter (\<lambda>(k, t). \<not> minute < time_sub now t) ?m) k = None" and h: "(k, t) \<in> set ?h"
      show "minute < now - t"
      proof (cases "get ?m k")
        case None
        with m h show ?thesis unfolding remembers_def by blast
      next
        case (Some u)
        then have "minute < now - u" using n unfolding gf by (auto simp: minute_old split: if_splits)
        moreover have "t \<le> u" using m Some h unfolding remembers_def by blast
        ultimately show ?thesis by simp
      qed
    }
  qed
  with m show ?thesis by (simp add: grant_def Let_def)
qed

lemma gate_run_spaced:
  assumes "remembers (pg_last g) now0 granted" "0 < pg_min g" "pg_min g \<le> minute"
    and "sorted (map snd calls)" "\<forall>c \<in> set calls. now0 \<le> snd c"
  shows "gate_run g calls = spaced (pg_min g) granted calls"
  using assms
proof (induction calls arbitrary: g now0 granted)
  case (Cons c calls)
  obtain key now where c: "c = (key, now)" by fastforce
  have "now0 \<le> now" using Cons.prems(5) c by simp
  with Cons.prems(1) have rem: "remembers (pg_last g) now granted" by (rule remembers_later)
  have late: "\<forall>c \<in> set calls. now \<le> snd c" and s: "sorted (map snd calls)"
    using Cons.prems(4) c by auto
  have gap: "time_sub now t < pg_min g \<longleftrightarrow> now - t < pg_min g" for t
    using Cons.prems(2,3) by (intro time_sub_less_iff)
      (simp_all add: minute_def second_def max_duration_def min_duration_def)
  let ?busy = "list_ex (\<lambda>(k, t). k = key \<and> now - t < pg_min g) granted"
  have allow: "allow g key now = (if ?busy then (g, False) else (grant g key now, True))"
  proof (cases "get (pg_last g) key")
    case None
    then have "minute < now - t" if "(key, t) \<in> set granted" for t
      using rem that unfolding remembers_def by blast
    then have "\<not> ?busy" using Cons.prems(3) by (force simp: list_ex_iff)
    with None show ?thesis by (simp add: allow_def)
  next
    case (Some t)
    then have t: "(key, t) \<in> set granted" "\<And>t'. (key, t') \<in> set granted \<Longrightarrow> t' \<le> t"
      using rem unfolding remembers_def by blast+
    then have "?busy \<longleftrightarrow> now - t < pg_min g" by (force simp: list_ex_iff)
    with Some gap show ?thesis by (simp add: allow_def)
  qed
  show ?case
  proof (cases ?busy)
    case True
    with Cons.IH [OF rem Cons.prems(2,3) s late] allow c show ?thesis by simp
  next
    case False
    have min: "pg_min (grant g key now) = pg_min g" by (simp add: grant_def Let_def)
    have "gate_run (grant g key now) calls
        = spaced (pg_min (grant g key now)) ((key, now) # granted) calls"
      using Cons.IH [OF remembers_grant [OF rem] _ _ s late] Cons.prems(2,3) min by simp
    with False allow c min show ?thesis by simp
  qed
qed simp

text \<open>
  C36. The gate of the panel grants a probe exactly when none of the same client and port was granted
  less than its minimum interval before: forgetting entries older than a minute once there are more
  than 1024 never lets one through early.
\<close>

theorem gate_is_exact:
  assumes "sorted (map snd calls)" and "0 < gap" and "gap \<le> minute"
  shows "gate_run (newProbeGate gap) calls = spaced gap [] calls"
proof -
  have "remembers (pg_last (newProbeGate gap)) now []" for now
    by (simp add: remembers_def newProbeGate_def)
  moreover have "\<forall>c \<in> set calls. (case calls of [] \<Rightarrow> 0 | c # _ \<Rightarrow> snd c) \<le> snd c"
    using assms(1) by (cases calls) auto
  ultimately show ?thesis
    using gate_run_spaced [of "newProbeGate gap"] assms by (simp add: newProbeGate_def)
qed

theorem gate_is_exact_witness:
  "gate_run (newProbeGate second)
     [(''a:80'', 0), (''a:80'', 999999999), (''b:80'', 999999999), (''a:80'', second)]
   = [True, False, True, True]"
  using gate_is_exact [of "[(''a:80'', 0), (''a:80'', 999999999), (''b:80'', 999999999), (''a:80'', second)]"
      second]
  by (simp add: minute_def second_def)

end
