(* ===== verification/Traffic.thy ===== *)
theory Traffic
  imports Prelude
begin

text \<open>
  The traffic store, \<open>internal/monitor/traffic.go\<close>: bytes per client, port and day, the
  last time each client was seen, and its log of availability transitions, with the uptime
  percentage computed from it and the pruning done before each save. Go maps that can be nil
  are options (a nil map reads as empty and panics when written); an operation that can
  panic returns \<open>None\<close> then. Unsigned counters are 64-bit words. The date of today, which
  the code formats from the local clock, is an argument.
\<close>

section \<open>State\<close>

record pb =
  Tx :: u64
  Rx :: u64

record up_event =
  ev_T :: int
  ev_U :: bool

record ct =
  Ports :: "(u32 \<times> pb) list option"
  Days :: "(string \<times> u64) list option"
  LastSeen :: int
  Up :: "up_event list"

record traffic_store =
  ts_path :: string
  ts_m :: "(string \<times> ct) list"
  ts_dirty :: bool

definition empty_ct :: ct where
  "empty_ct = \<lparr>Ports = Some [], Days = Some [], LastSeen = 0, Up = []\<rparr>"

text \<open>Reading and writing a map that may be nil.\<close>

definition nil_get :: "('k \<times> 'v) list option \<Rightarrow> 'k \<Rightarrow> 'v option" where
  "nil_get m k = (case m of None \<Rightarrow> None | Some xs \<Rightarrow> get xs k)"

definition nil_put :: "'k \<Rightarrow> 'v \<Rightarrow> ('k \<times> 'v) list option \<Rightarrow> ('k \<times> 'v) list option option" where
  "nil_put k v m = (case m of None \<Rightarrow> None | Some xs \<Rightarrow> Some (Some (put k v xs)))"

section \<open>Operations\<close>

text \<open>
  \<open>loaded\<close> is the map the file decodes to (empty when there is no readable file); an entry
  that decodes to a nil pointer makes the seeding loop panic.
\<close>

definition NewTrafficStore ::
  "string \<Rightarrow> (string \<times> ct option) list \<Rightarrow> gotime \<Rightarrow> traffic_store option" where
  "NewTrafficStore path loaded now =
     (if list_all (\<lambda>(n, c). c \<noteq> None) loaded then
        Some \<lparr>ts_path = path,
              ts_m = map (\<lambda>(n, c). (n, if LastSeen (the c) = 0 then (the c)\<lparr>LastSeen := unix now\<rparr>
                                       else the c)) loaded,
              ts_dirty = False\<rparr>
      else None)"

definition entry :: "traffic_store \<Rightarrow> string \<Rightarrow> ct" where
  "entry t name = (case get (ts_m t) name of None \<Rightarrow> empty_ct | Some c \<Rightarrow> c)"

definition Touch :: "traffic_store \<Rightarrow> string \<Rightarrow> gotime \<Rightarrow> traffic_store" where
  "Touch t name now =
     (if name = [] then t
      else t\<lparr>ts_m := put name ((entry t name)\<lparr>LastSeen := unix now\<rparr>) (ts_m t), ts_dirty := True\<rparr>)"

definition RecordState :: "traffic_store \<Rightarrow> string \<Rightarrow> bool \<Rightarrow> gotime \<Rightarrow> traffic_store" where
  "RecordState t name up now =
     (if name = [] then t
      else
        let c = entry t name;
            t = t\<lparr>ts_m := put name c (ts_m t)\<rparr>
        in if Up c = [] \<or> ev_U (last (Up c)) \<noteq> up
           then t\<lparr>ts_m := put name (c\<lparr>Up := Up c @ [\<lparr>ev_T = unix now, ev_U = up\<rparr>]\<rparr>) (ts_m t),
                  ts_dirty := True\<rparr>
           else t)"

definition Add ::
  "traffic_store \<Rightarrow> string \<Rightarrow> u32 \<Rightarrow> u64 \<Rightarrow> u64 \<Rightarrow> string \<Rightarrow> traffic_store option" where
  "Add t name port tx rx day =
     (if name = [] then Some t
      else
        let c = entry t name;
            p = (case nil_get (Ports c) port of None \<Rightarrow> \<lparr>Tx = 0, Rx = 0\<rparr> | Some p \<Rightarrow> p);
            b = (case nil_get (Days c) day of None \<Rightarrow> 0 | Some b \<Rightarrow> b)
        in case nil_put port \<lparr>Tx = Tx p + tx, Rx = Rx p + rx\<rparr> (Ports c) of
             None \<Rightarrow> None
           | Some ports \<Rightarrow>
               (case nil_put day (b + (tx + rx)) (Days c) of
                  None \<Rightarrow> None
                | Some days \<Rightarrow>
                    Some (t\<lparr>ts_m := put name (c\<lparr>Ports := ports, Days := days\<rparr>) (ts_m t),
                            ts_dirty := True\<rparr>)))"

definition uptimeSeries :: "traffic_store \<Rightarrow> string \<Rightarrow> up_event list" where
  "uptimeSeries t name = (case get (ts_m t) name of None \<Rightarrow> [] | Some c \<Rightarrow> Up c)"

definition Seen :: "traffic_store \<Rightarrow> (string \<times> int) list" where
  "Seen t = map (\<lambda>(n, c). (n, LastSeen c)) (ts_m t)"

definition todayTotal :: "traffic_store \<Rightarrow> string \<Rightarrow> string \<Rightarrow> u64" where
  "todayTotal t name day =
     (case get (ts_m t) name of
        None \<Rightarrow> 0
      | Some c \<Rightarrow> (case nil_get (Days c) day of None \<Rightarrow> 0 | Some b \<Rightarrow> b))"

subsection \<open>Uptime\<close>

text \<open>The first loop of \<open>uptimePct\<close>: the state when the window opens.\<close>

fun entry_state :: "int \<Rightarrow> bool \<Rightarrow> up_event list \<Rightarrow> bool" where
  "entry_state from st [] = st"
| "entry_state from st (e # es) = (if ev_T e \<le> from then entry_state from (ev_U e) es else st)"

text \<open>The second loop, over the cursor, the current state and the seconds up so far.\<close>

fun up_loop :: "int \<Rightarrow> int \<Rightarrow> up_event list \<Rightarrow> int \<Rightarrow> bool \<Rightarrow> int \<Rightarrow> int \<times> bool \<times> int" where
  "up_loop from now [] cursor cur upDur = (cursor, cur, upDur)"
| "up_loop from now (e # es) cursor cur upDur =
     (if ev_T e \<le> from then up_loop from now es cursor cur upDur
      else if now \<le> ev_T e then (cursor, cur, upDur)
      else up_loop from now es (ev_T e) (ev_U e)
             (if cur then upDur + (ev_T e - cursor) else upDur))"

definition uptime_of :: "up_event list \<Rightarrow> int \<Rightarrow> int \<Rightarrow> rat" where
  "uptime_of ev windowSec now =
     (if ev = [] then -1
      else
        let from = now - windowSec;
            ds = ev_T (hd ev);
            from = (if from < ds then ds else from);
            st = entry_state from (ev_U (hd ev)) ev;
            (cursor, cur, upDur) = up_loop from now ev from st 0;
            upDur = (if cur then upDur + (now - cursor) else upDur);
            cov = now - from
        in if cov \<le> 0 then -1 else of_int upDur / of_int cov * 100)"

definition uptimePct :: "traffic_store \<Rightarrow> string \<Rightarrow> int \<Rightarrow> gotime \<Rightarrow> rat" where
  "uptimePct t name windowSec now =
     (case get (ts_m t) name of None \<Rightarrow> -1 | Some c \<Rightarrow> uptime_of (Up c) windowSec (unix now))"

subsection \<open>Rows of the dialog\<close>

record portRow =
  pw_Port :: u32
  pw_Tx :: u64
  pw_Rx :: u64

record dayRow =
  dw_Date :: string
  dw_Bytes :: u64

definition breakdown :: "traffic_store \<Rightarrow> string \<Rightarrow> portRow list \<times> dayRow list" where
  "breakdown t name =
     (case get (ts_m t) name of
        None \<Rightarrow> ([], [])
      | Some c \<Rightarrow>
          (let ports = map (\<lambda>(port, p). \<lparr>pw_Port = port, pw_Tx = Tx p, pw_Rx = Rx p\<rparr>) (case Ports c of None \<Rightarrow> [] | Some xs \<Rightarrow> xs);
               ports = sort_key pw_Port ports;
               days = map (\<lambda>(d, b). \<lparr>dw_Date = d, dw_Bytes = b\<rparr>) (case Days c of None \<Rightarrow> [] | Some xs \<Rightarrow> xs);
               days = rev (sort_key dw_Date days);
               days = (if 30 < length days then take 30 days else days)
           in (ports, days)))"

subsection \<open>Saving\<close>

definition prune_days :: "(string \<times> u64) list option \<Rightarrow> (string \<times> u64) list option" where
  "prune_days days =
     (case days of
        None \<Rightarrow> None
      | Some m \<Rightarrow>
          (if 60 < length m then
             let ds = sort (map fst m)
             in Some (fold AList.delete (take (length ds - 60) ds) m)
           else Some m))"

fun keep_index :: "int \<Rightarrow> nat \<Rightarrow> nat \<Rightarrow> up_event list \<Rightarrow> nat" where
  "keep_index cutoff_t keep i [] = keep"
| "keep_index cutoff_t keep i (e # es) =
     (if ev_T e < cutoff_t then keep_index cutoff_t i (Suc i) es else keep)"

definition prune_up :: "int \<Rightarrow> up_event list \<Rightarrow> up_event list" where
  "prune_up cutoff_t up =
     (let up = (if 1 < length up then
                  let keep = keep_index cutoff_t 0 0 up in if 0 < keep then drop keep up else up
                else up)
      in if 8000 < length up then drop (length up - 8000) up else up)"

text \<open>
  One tick of the saver: when there is something to save, prune every entry, and hand the
  map to the writer. \<open>cutoff_t\<close> is 31 days ago.
\<close>

definition cutoff :: "gotime \<Rightarrow> int" where
  "cutoff now = unix (now - 31 * 24 * 3600 * second)"

definition prune :: "int \<Rightarrow> ct \<Rightarrow> ct" where
  "prune cutoff_t c = c\<lparr>Days := prune_days (Days c), Up := prune_up cutoff_t (Up c)\<rparr>"

definition save_tick ::
  "traffic_store \<Rightarrow> gotime \<Rightarrow> traffic_store \<times> (string \<times> ct) list option" where
  "save_tick t now =
     (if \<not> ts_dirty t \<or> ts_path t = [] then (t, None)
      else
        let m = map (\<lambda>(n, c). (n, prune (cutoff now) c)) (ts_m t)
        in (t\<lparr>ts_m := m, ts_dirty := False\<rparr>, Some m))"

section \<open>The uptime percentage\<close>

text \<open>The state during second \<open>t\<close>: that of the latest transition not after it.\<close>

definition up_at :: "up_event list \<Rightarrow> int \<Rightarrow> bool" where
  "up_at ev t = (case filter (\<lambda>e. ev_T e \<le> t) ev of [] \<Rightarrow> False | es \<Rightarrow> ev_U (last es))"

definition up_seconds :: "up_event list \<Rightarrow> int \<Rightarrow> int \<Rightarrow> nat" where
  "up_seconds ev a b = card {t \<in> {a..<b}. up_at ev t}"

definition chronological :: "up_event list \<Rightarrow> bool" where
  "chronological ev \<longleftrightarrow> sorted (map ev_T ev)"

lemma entry_state_later: "\<forall>e \<in> set es. t < ev_T e \<Longrightarrow> entry_state t st es = st"
  by (cases es) auto

lemma entry_state_filter:
  "chronological es \<Longrightarrow>
     entry_state t st es = (case filter (\<lambda>e. ev_T e \<le> t) es of [] \<Rightarrow> st | fs \<Rightarrow> ev_U (last fs))"
proof (induction es arbitrary: st)
  case (Cons e es)
  have tail: "chronological es" using Cons.prems by (simp add: chronological_def)
  show ?case
  proof (cases "ev_T e \<le> t")
    case True
    then show ?thesis using Cons.IH [OF tail] by (auto split: list.split)
  next
    case False
    then have "\<forall>x \<in> set (e # es). t < ev_T x"
      using Cons.prems by (auto simp: chronological_def)
    then have "filter (\<lambda>x. ev_T x \<le> t) (e # es) = []" by (auto simp: filter_empty_conv)
    with False show ?thesis by simp
  qed
qed simp

lemma up_at_entry_state:
  "chronological ev \<Longrightarrow> ev \<noteq> [] \<Longrightarrow> ev_T (hd ev) \<le> t \<Longrightarrow> up_at ev t = entry_state t st ev"
proof (cases ev)
  case (Cons e es)
  assume "chronological ev" and "ev_T (hd ev) \<le> t"
  moreover from this Cons have "chronological es" by (simp add: chronological_def)
  ultimately show ?thesis
    using Cons by (auto simp: entry_state_filter up_at_def split: list.split)
qed simp

definition seconds_in :: "(int \<Rightarrow> bool) \<Rightarrow> int \<Rightarrow> int \<Rightarrow> int" where
  "seconds_in P a b = int (card {t \<in> {a..<b}. P t})"

lemma seconds_in_const: "a \<le> b \<Longrightarrow> (\<And>t. a \<le> t \<Longrightarrow> t < b \<Longrightarrow> P t = c) \<Longrightarrow>
    seconds_in P a b = (if c then b - a else 0)"
proof -
  assume "a \<le> b" and P: "\<And>t. a \<le> t \<Longrightarrow> t < b \<Longrightarrow> P t = c"
  then have "{t \<in> {a..<b}. P t} = (if c then {a..<b} else {})" by auto
  with \<open>a \<le> b\<close> show ?thesis by (simp add: seconds_in_def)
qed

lemma seconds_in_split:
  "a \<le> m \<Longrightarrow> m \<le> b \<Longrightarrow> seconds_in P a b = seconds_in P a m + seconds_in P m b"
proof -
  assume "a \<le> m" and "m \<le> b"
  then have "{t \<in> {a..<b}. P t} = {t \<in> {a..<m}. P t} \<union> {t \<in> {m..<b}. P t}" by auto
  moreover have "card ({t \<in> {a..<m}. P t} \<union> {t \<in> {m..<b}. P t})
      = card {t \<in> {a..<m}. P t} + card {t \<in> {m..<b}. P t}"
    by (rule card_Un_disjoint)
      (auto intro: finite_subset [of _ "{a..<m}"] finite_subset [of _ "{m..<b}"])
  ultimately show ?thesis by (simp add: seconds_in_def)
qed

lemma seconds_in_cong:
  "(\<And>t. a \<le> t \<Longrightarrow> t < b \<Longrightarrow> P t = Q t) \<Longrightarrow> seconds_in P a b = seconds_in Q a b"
  unfolding seconds_in_def by (metis (mono_tags, lifting) Collect_cong atLeastLessThan_iff)

text \<open>The seconds the second loop and its final step add up, over the events after \<open>from\<close>.\<close>

lemma up_loop_counts:
  assumes "chronological es" and "\<forall>e \<in> set es. from < ev_T e \<and> cursor \<le> ev_T e"
    and "cursor \<le> now" and "up_loop from now es cursor cur d = (cursor', cur', d')"
  shows "(if cur' then d' + (now - cursor') else d')
           = d + seconds_in (\<lambda>t. entry_state t cur es) cursor now"
  using assms
proof (induction es arbitrary: cursor cur d)
  case Nil
  then show ?case using seconds_in_const [of cursor now "\<lambda>t. cur" cur] by auto
next
  case (Cons e es)
  have e: "from < ev_T e" "cursor \<le> ev_T e" using Cons.prems(2) by auto
  show ?case
  proof (cases "now \<le> ev_T e")
    case True
    then have "seconds_in (\<lambda>t. entry_state t cur (e # es)) cursor now = (if cur then now - cursor else 0)"
      using Cons.prems(3) by (intro seconds_in_const) auto
    with True e Cons.prems(4) show ?thesis by auto
  next
    case False
    let ?d = "if cur then d + (ev_T e - cursor) else d"
    have "(if cur' then d' + (now - cursor') else d')
        = ?d + seconds_in (\<lambda>t. entry_state t (ev_U e) es) (ev_T e) now"
      using Cons.prems False e by (intro Cons.IH) (auto simp: chronological_def)
    moreover have "seconds_in (\<lambda>t. entry_state t (ev_U e) es) (ev_T e) now
        = seconds_in (\<lambda>t. entry_state t cur (e # es)) (ev_T e) now"
      by (rule seconds_in_cong) simp
    moreover have "seconds_in (\<lambda>t. entry_state t cur (e # es)) cursor (ev_T e)
        = (if cur then ev_T e - cursor else 0)"
      using e by (intro seconds_in_const) auto
    moreover have "seconds_in (\<lambda>t. entry_state t cur (e # es)) cursor now
        = seconds_in (\<lambda>t. entry_state t cur (e # es)) cursor (ev_T e)
          + seconds_in (\<lambda>t. entry_state t cur (e # es)) (ev_T e) now"
      using e False by (intro seconds_in_split) auto
    ultimately show ?thesis by simp
  qed
qed

text \<open>Events not after \<open>from\<close> only set the entry state.\<close>

lemma up_loop_skip:
  "\<forall>e \<in> set es. ev_T e \<le> from \<Longrightarrow>
     up_loop from now (es @ fs) cursor cur d = up_loop from now fs cursor cur d"
  by (induction es) auto

lemma entry_state_skip:
  "\<forall>e \<in> set es. ev_T e \<le> t \<Longrightarrow> entry_state t st (es @ fs) = entry_state t (entry_state t st es) fs"
  by (induction es arbitrary: st) auto

lemma entry_state_past:
  "\<forall>e \<in> set es. ev_T e \<le> t \<Longrightarrow> entry_state t st es = (if es = [] then st else ev_U (last es))"
  by (induction es arbitrary: st) auto

lemma chronological_split:
  assumes "chronological ev"
  shows "\<forall>e \<in> set (dropWhile (\<lambda>e. ev_T e \<le> from) ev). from < ev_T e"
proof (cases "dropWhile (\<lambda>e. ev_T e \<le> from) ev")
  case (Cons x xs)
  have "ev = takeWhile (\<lambda>e. ev_T e \<le> from) ev @ x # xs"
    by (metis Cons takeWhile_dropWhile_id)
  then have "sorted (map ev_T (x # xs))"
    using assms unfolding chronological_def by (metis map_append sorted_append)
  moreover have "from < ev_T x" using hd_dropWhile [of "\<lambda>e. ev_T e \<le> from" ev] Cons by simp
  ultimately show ?thesis using Cons by auto
next
  case Nil
  then show ?thesis by (simp only: list.set ball_empty)
qed

lemma chronological_dropWhile: "chronological ev \<Longrightarrow> chronological (dropWhile P ev)"
  unfolding chronological_def by (metis map_append sorted_append takeWhile_dropWhile_id)

lemma uptime_counts_seconds:
  assumes "chronological ev" and "ev \<noteq> []"
    and "from = max (now - windowSec) (ev_T (hd ev))"
  shows "uptime_of ev windowSec now =
    (if now \<le> from then -1
     else of_nat (card {t \<in> {from..<now}. up_at ev t}) / of_int (now - from) * 100)"
proof (cases "now \<le> from")
  case True
  then show ?thesis using assms by (auto simp: uptime_of_def Let_def max_def split: prod.split)
next
  case False
  define pre where "pre = takeWhile (\<lambda>e. ev_T e \<le> from) ev"
  define post where "post = dropWhile (\<lambda>e. ev_T e \<le> from) ev"
  have ev: "ev = pre @ post" by (simp add: pre_def post_def)
  have pre: "\<forall>e \<in> set pre. ev_T e \<le> from" by (auto simp: pre_def dest: set_takeWhileD)
  have post: "\<forall>e \<in> set post. from < ev_T e" "chronological post"
    using assms(1) by (simp_all add: post_def chronological_split chronological_dropWhile)
  define st where "st = entry_state from (ev_U (hd ev)) ev"
  have st: "st = entry_state from (ev_U (hd ev)) pre"
    unfolding st_def ev using pre post by (simp add: entry_state_skip entry_state_later)
  obtain cursor cur d where loop: "up_loop from now post from st 0 = (cursor, cur, d)"
    by (cases "up_loop from now post from st 0")
  have up: "(if cur then d + (now - cursor) else d) = seconds_in (\<lambda>t. entry_state t st post) from now"
    using up_loop_counts [OF post(2) _ _ loop] post(1) False by force
  also have "\<dots> = seconds_in (up_at ev) from now"
  proof (rule seconds_in_cong)
    fix t assume t: "from \<le> t"
    then have le: "\<forall>e \<in> set pre. ev_T e \<le> t" using pre by auto
    have "up_at ev t = entry_state t (ev_U (hd ev)) ev"
      using assms t by (intro up_at_entry_state) auto
    also have "\<dots> = entry_state t (entry_state t (ev_U (hd ev)) pre) post"
      using le ev entry_state_skip by metis
    also have "entry_state t (ev_U (hd ev)) pre = st"
      using le pre by (simp add: st entry_state_past)
    finally show "entry_state t st post = up_at ev t" by simp
  qed
  finally have up: "(if cur then d + (now - cursor) else d) = seconds_in (up_at ev) from now" .
  have "up_loop from now ev from st 0 = (cursor, cur, d)"
    using loop pre ev up_loop_skip by metis
  moreover have "(if now - windowSec < ev_T (hd ev) then ev_T (hd ev) else now - windowSec) = from"
    by (simp add: assms(3) max_def)
  ultimately have "uptime_of ev windowSec now =
      of_int (if cur then d + (now - cursor) else d) / of_int (now - from) * 100"
    using False assms(2) by (simp add: uptime_of_def Let_def st_def [symmetric])
  then show ?thesis using False by (simp add: up seconds_in_def del: times_divide_eq_left)
qed

section \<open>Pruning the availability log\<close>

lemma keep_index_eq:
  "keep_index c k i es =
     (let n = length (takeWhile (\<lambda>e. ev_T e < c) es) in if n = 0 then k else i + n - 1)"
proof (induction es arbitrary: k i)
  case (Cons e es)
  then show ?case by (auto simp: Let_def)
qed simp

text \<open>What pruning drops lies before an event that is itself before the cutoff.\<close>

lemma prune_up_split:
  assumes "length up \<le> 8000"
  obtains "prune_up c up = up"
  | pre e post where "up = pre @ e # post" and "\<forall>x \<in> set (pre @ [e]). ev_T x < c"
      and "prune_up c up = e # post" and "pre \<noteq> []"
proof (cases "1 < length (takeWhile (\<lambda>e. ev_T e < c) up)")
  case True
  let ?old = "takeWhile (\<lambda>e. ev_T e < c) up"
  let ?new = "dropWhile (\<lambda>e. ev_T e < c) up"
  have len: "length ?old \<le> length up" by (rule length_takeWhile_le)
  have "?old \<noteq> []" using True by auto
  then obtain pre e where old: "?old = pre @ [e]" by (metis rev_exhaust)
  have up: "up = pre @ e # ?new" by (metis old takeWhile_dropWhile_id append.assoc append_Cons append_Nil)
  have lt: "\<forall>x \<in> set (pre @ [e]). ev_T x < c" using old by (metis set_takeWhileD)
  have "pre \<noteq> []" using True old by auto
  moreover have "1 < length up" using True len by linarith
  then have "prune_up c up = drop (length pre) up"
    using True assms old by (auto simp: prune_up_def keep_index_eq Let_def)
  then have "prune_up c up = e # ?new" by (metis up append_eq_conv_conj)
  ultimately show thesis using up lt that(2) by blast
next
  case False
  then have "keep_index c 0 0 up = 0" by (simp add: keep_index_eq Let_def)
  then have "prune_up c up = up" using assms by (simp add: prune_up_def)
  then show thesis by (rule that(1))
qed

text \<open>
  Pruning is invisible: dropping the transitions older than the cutoff, all but the last
  of them, changes no uptime percentage over a window that starts at or after the cutoff
  (here for logs within the cap of 8000 entries).
\<close>

lemma prune_keeps_uptime:
  assumes "length up \<le> 8000" and "cutoff_t \<le> now - windowSec"
  shows "uptime_of (prune_up cutoff_t up) windowSec now = uptime_of up windowSec now"
  using assms(1)
proof (cases rule: prune_up_split [where c = cutoff_t])
  case 1
  then show ?thesis by simp
next
  case (2 pre e post)
  let ?f = "now - windowSec"
  have le: "\<forall>x \<in> set (pre @ [e]). ev_T x \<le> ?f" using 2(2) assms(2) by force
  obtain x xs where pre: "pre = x # xs" using 2(4) by (cases pre) auto
  have x: "\<not> ?f < ev_T x" and e: "\<not> ?f < ev_T e" using le pre by auto
  have up: "up = (pre @ [e]) @ post" using 2(1) by simp
  have "entry_state ?f (ev_U x) up = entry_state ?f (ev_U e) post"
    using le unfolding up by (subst entry_state_skip) (auto simp: entry_state_past)
  moreover have "up_loop ?f now up ?f st 0 = up_loop ?f now post ?f st 0" for st
    using le unfolding up by (rule up_loop_skip)
  moreover have "hd up = x" "up \<noteq> []" using up pre by simp_all
  ultimately show ?thesis
    unfolding uptime_of_def 2(3) using x e by (simp add: Let_def)
qed

theorem prune_keeps_uptime_witness:
  "prune_up 50 [\<lparr>ev_T = 10, ev_U = True\<rparr>, \<lparr>ev_T = 20, ev_U = False\<rparr>, \<lparr>ev_T = 60, ev_U = True\<rparr>]
     = [\<lparr>ev_T = 20, ev_U = False\<rparr>, \<lparr>ev_T = 60, ev_U = True\<rparr>] \<and>
   uptime_of [\<lparr>ev_T = 20, ev_U = False\<rparr>, \<lparr>ev_T = 60, ev_U = True\<rparr>] 50 100 =
   uptime_of [\<lparr>ev_T = 10, ev_U = True\<rparr>, \<lparr>ev_T = 20, ev_U = False\<rparr>, \<lparr>ev_T = 60, ev_U = True\<rparr>] 50 100"
proof -
  let ?up = "[\<lparr>ev_T = 10, ev_U = True\<rparr>, \<lparr>ev_T = 20, ev_U = False\<rparr>, \<lparr>ev_T = 60, ev_U = True\<rparr>]"
  have p: "prune_up 50 ?up = [\<lparr>ev_T = 20, ev_U = False\<rparr>, \<lparr>ev_T = 60, ev_U = True\<rparr>]"
    by (simp add: prune_up_def)
  show ?thesis using prune_keeps_uptime [of ?up 50 100 50] p by simp
qed

section \<open>Runs of the store\<close>

datatype traffic_op =
    OpTouch string gotime
  | OpState string bool gotime
  | OpAdd string u32 u64 u64 string
  | OpSave gotime

fun traffic_step :: "traffic_store \<Rightarrow> traffic_op \<Rightarrow> traffic_store option" where
  "traffic_step t (OpTouch n now) = Some (Touch t n now)"
| "traffic_step t (OpState n up now) = Some (RecordState t n up now)"
| "traffic_step t (OpAdd n port tx rx day) = Add t n port tx rx day"
| "traffic_step t (OpSave now) = Some (fst (save_tick t now))"

fun traffic_run :: "traffic_store \<Rightarrow> traffic_op list \<Rightarrow> traffic_store option" where
  "traffic_run t [] = Some t"
| "traffic_run t (x # xs) = (case traffic_step t x of None \<Rightarrow> None | Some t' \<Rightarrow> traffic_run t' xs)"

definition fresh_store :: "string \<Rightarrow> traffic_store" where
  "fresh_store path = \<lparr>ts_path = path, ts_m = [], ts_dirty = False\<rparr>"

text \<open>Well-formed entries: maps that are not nil, a log without repeated states.\<close>

definition ct_ok :: "ct \<Rightarrow> bool" where
  "ct_ok c \<longleftrightarrow> Ports c \<noteq> None \<and> Days c \<noteq> None \<and> distinct_adj (map ev_U (Up c))"

definition store_ok :: "traffic_store \<Rightarrow> bool" where
  "store_ok t \<longleftrightarrow> (\<forall>n c. get (ts_m t) n = Some c \<longrightarrow> ct_ok c)"

lemma store_ok_entry: "store_ok t \<Longrightarrow> ct_ok (entry t n)"
  by (auto simp: store_ok_def entry_def ct_ok_def empty_ct_def split: option.split)

lemma store_ok_put:
  "store_ok t \<Longrightarrow> ct_ok c \<Longrightarrow> store_ok (t\<lparr>ts_m := put n c (ts_m t), ts_dirty := d\<rparr>)"
  by (auto simp: store_ok_def)

lemma distinct_adj_drop: "distinct_adj xs \<Longrightarrow> distinct_adj (drop n xs)"
proof (induction xs arbitrary: n)
  case (Cons x xs)
  then show ?case by (cases n; cases xs) auto
qed simp

lemma distinct_adj_snoc:
  "distinct_adj (xs @ [x]) \<longleftrightarrow> distinct_adj xs \<and> (xs = [] \<or> last xs \<noteq> x)"
  by (induction xs rule: induct_list012) auto

lemma prune_up_drop: "\<exists>k. prune_up c up = drop k up"
proof -
  have "\<exists>k. (if 1 < length up then let keep = keep_index c 0 0 up
              in if 0 < keep then drop keep up else up else up) = drop k up"
    by (metis drop0)
  then obtain k where "(if 1 < length up then let keep = keep_index c 0 0 up
              in if 0 < keep then drop keep up else up else up) = drop k up" ..
  then show ?thesis by (auto simp: prune_up_def Let_def)
qed

lemma ct_ok_prune: "ct_ok c \<Longrightarrow> ct_ok (prune cutoff_t c)"
proof -
  assume c: "ct_ok c"
  obtain k where "prune_up cutoff_t (Up c) = drop k (Up c)" using prune_up_drop by blast
  with c show ?thesis
    by (auto simp: ct_ok_def prune_def prune_days_def drop_map [symmetric] distinct_adj_drop Let_def)
qed

lemma store_ok_step: "store_ok t \<Longrightarrow> \<exists>t'. traffic_step t x = Some t' \<and> store_ok t'"
proof (cases x)
  case (OpTouch n now)
  assume ok: "store_ok t"
  have "ct_ok ((entry t n)\<lparr>LastSeen := unix now\<rparr>)" using store_ok_entry [OF ok, of n] by (simp add: ct_ok_def)
  with ok OpTouch show ?thesis by (simp add: Touch_def store_ok_put)
next
  case (OpState n up now)
  assume ok: "store_ok t"
  let ?c = "entry t n"
  have "ct_ok (?c\<lparr>Up := Up ?c @ [\<lparr>ev_T = unix now, ev_U = up\<rparr>]\<rparr>)"
    if "Up ?c = [] \<or> ev_U (last (Up ?c)) \<noteq> up"
    using that store_ok_entry [OF ok, of n] by (auto simp: ct_ok_def distinct_adj_snoc last_map)
  with ok OpState store_ok_entry [OF ok, of n] show ?thesis
    by (auto simp: RecordState_def Let_def store_ok_def)
next
  case (OpAdd n port tx rx day)
  assume ok: "store_ok t"
  with OpAdd store_ok_entry [OF ok, of n] show ?thesis
    by (auto simp: Add_def nil_put_def ct_ok_def Let_def store_ok_def)
next
  case (OpSave now)
  assume ok: "store_ok t"
  with OpSave show ?thesis
    by (auto simp: save_tick_def Let_def store_ok_def get_map_values intro: ct_ok_prune)
qed

lemma store_ok_run: "store_ok t \<Longrightarrow> \<exists>t'. traffic_run t xs = Some t' \<and> store_ok t'"
proof (induction xs arbitrary: t)
  case (Cons x xs)
  then show ?case using store_ok_step [of t x] by auto
qed simp

lemma store_ok_fresh: "store_ok (fresh_store path)"
  by (simp add: store_ok_def fresh_store_def)

lemma traffic_run_snoc:
  "traffic_run t (xs @ [x]) = (case traffic_run t xs of None \<Rightarrow> None | Some t' \<Rightarrow> traffic_step t' x)"
  by (induction xs arbitrary: t) (auto split: option.splits)

subsection \<open>Byte counters\<close>

definition port_total :: "traffic_store \<Rightarrow> string \<Rightarrow> u32 \<Rightarrow> u64 \<times> u64" where
  "port_total t n port =
     (case nil_get (Ports (entry t n)) port of None \<Rightarrow> (0, 0) | Some p \<Rightarrow> (Tx p, Rx p))"

text \<open>The bytes an operation moves for a client and port.\<close>

fun moved :: "string \<Rightarrow> u32 \<Rightarrow> traffic_op \<Rightarrow> u64 \<times> u64" where
  "moved n port (OpAdd n' port' tx rx day) = (if n' = n \<and> port' = port \<and> n \<noteq> [] then (tx, rx) else (0, 0))"
| "moved n port x = (0, 0)"

lemma entry_put:
  "entry (t\<lparr>ts_m := put n c (ts_m t)\<rparr>) k = (if k = n then c else entry t k)"
  "entry (t\<lparr>ts_m := put n c (put n c' (ts_m t))\<rparr>) k = (if k = n then c else entry t k)"
  by (simp_all add: entry_def)

lemma entry_dirty [simp]: "entry (t\<lparr>ts_dirty := d\<rparr>) k = entry t k"
  by (simp add: entry_def)

lemma entry_Touch:
  "entry (Touch t n now) k = (if k = n \<and> n \<noteq> [] then (entry t n)\<lparr>LastSeen := unix now\<rparr> else entry t k)"
  by (simp add: Touch_def entry_put)

lemma entry_RecordState:
  "entry (RecordState t n up now) k =
     (if k = n \<and> n \<noteq> [] \<and> (Up (entry t n) = [] \<or> ev_U (last (Up (entry t n))) \<noteq> up)
      then (entry t n)\<lparr>Up := Up (entry t n) @ [\<lparr>ev_T = unix now, ev_U = up\<rparr>]\<rparr> else entry t k)"
  by (simp add: RecordState_def Let_def entry_put)

lemma entry_save:
  "Ports (entry (fst (save_tick t now)) k) = Ports (entry t k)"
  "LastSeen (entry (fst (save_tick t now)) k) = LastSeen (entry t k)"
  "Up (entry (fst (save_tick t now)) k) = Up (entry t k) \<or>
   Up (entry (fst (save_tick t now)) k) = prune_up (cutoff now) (Up (entry t k))"
  by (auto simp: save_tick_def entry_def Let_def get_map_values prune_def empty_ct_def
      split: option.splits)

text \<open>What a successful \<open>Add\<close> does to the entry of its client.\<close>

lemma entry_Add:
  assumes "Add t n port tx rx day = Some t'"
  shows "(n = [] \<and> t' = t) \<or>
    (\<exists>ps ds p b. n \<noteq> [] \<and> Ports (entry t n) = Some ps \<and> Days (entry t n) = Some ds \<and>
       p = (case get ps port of None \<Rightarrow> \<lparr>Tx = 0, Rx = 0\<rparr> | Some p \<Rightarrow> p) \<and>
       b = (case get ds day of None \<Rightarrow> 0 | Some b \<Rightarrow> b) \<and>
       t' = t\<lparr>ts_m := put n ((entry t n)\<lparr>Ports := Some (put port \<lparr>Tx = Tx p + tx, Rx = Rx p + rx\<rparr> ps),
                                          Days := Some (put day (b + (tx + rx)) ds)\<rparr>) (ts_m t),
              ts_dirty := True\<rparr>)"
proof (cases "n = []")
  case True
  with assms show ?thesis by (simp add: Add_def)
next
  case False
  then obtain ps ds where "Ports (entry t n) = Some ps" and "Days (entry t n) = Some ds"
    using assms by (cases "Ports (entry t n)"; cases "Days (entry t n)") (simp_all add: Add_def nil_put_def Let_def)
  with assms False show ?thesis by (simp add: Add_def nil_put_def nil_get_def Let_def)
qed

lemma entry_Add_Up: "Add t m port tx rx day = Some t' \<Longrightarrow> Up (entry t' n) = Up (entry t n)"
  by (drule entry_Add) (elim disjE exE conjE, simp_all add: entry_put)

lemma port_total_Add:
  assumes "Add t n' port' tx rx day = Some t'"
  shows "port_total t' n port =
    (if n' = n \<and> port' = port \<and> n \<noteq> []
     then (fst (port_total t n port) + tx, snd (port_total t n port) + rx) else port_total t n port)"
  using entry_Add [OF assms]
proof (elim disjE exE conjE)
  fix ps ds p b
  assume n': "n' \<noteq> []" and ps: "Ports (entry t n') = Some ps"
    and p: "p = (case get ps port' of None \<Rightarrow> \<lparr>Tx = 0, Rx = 0\<rparr> | Some p \<Rightarrow> p)"
    and t': "t' = t\<lparr>ts_m := put n' ((entry t n')\<lparr>Ports := Some (put port' \<lparr>Tx = Tx p + tx, Rx = Rx p + rx\<rparr> ps),
                                          Days := Some (put day (b + (tx + rx)) ds)\<rparr>) (ts_m t),
              ts_dirty := True\<rparr>"
  have "nil_get (Ports (entry t' n)) port =
      (if n = n' \<and> port = port' then Some \<lparr>Tx = Tx p + tx, Rx = Rx p + rx\<rparr> else nil_get (Ports (entry t n)) port)"
    by (simp add: t' entry_put nil_get_def ps)
  with n' ps p show ?thesis by (cases "get ps port'") (auto simp: port_total_def nil_get_def)
qed auto

lemma port_total_step:
  assumes "traffic_step t x = Some t'"
  shows "port_total t' n port = (fst (port_total t n port) + fst (moved n port x),
                                 snd (port_total t n port) + snd (moved n port x))"
proof (cases x)
  case (OpAdd n' port' tx rx day)
  with assms show ?thesis by (simp add: port_total_Add)
next
  case (OpSave now)
  with assms have t': "t' = fst (save_tick t now)" by simp
  with OpSave show ?thesis by (simp add: port_total_def entry_save(1))
next
  case (OpTouch n' now)
  with assms show ?thesis by (auto simp: port_total_def entry_Touch)
next
  case (OpState n' up now)
  with assms show ?thesis by (auto simp: port_total_def entry_RecordState)
qed

text \<open>
  C17. The counters lose nothing and nothing panics: from a fresh store, any sequence of
  operations, saves included, succeeds, and afterwards the counters of every client and
  port are the sums (on \<open>uint64\<close>, with its wrap-around) of what was added for them.
\<close>

theorem port_totals_are_sums:
  "\<exists>t. traffic_run (fresh_store path) ops = Some t \<and>
       port_total t n port = (sum_list (map (\<lambda>x. fst (moved n port x)) ops),
                              sum_list (map (\<lambda>x. snd (moved n port x)) ops))"
proof (induction ops rule: rev_induct)
  case Nil
  show ?case by (simp add: port_total_def entry_def fresh_store_def empty_ct_def nil_get_def)
next
  case (snoc x ops)
  then obtain t where t: "traffic_run (fresh_store path) ops = Some t"
    and tot: "port_total t n port = (sum_list (map (\<lambda>x. fst (moved n port x)) ops),
                              sum_list (map (\<lambda>x. snd (moved n port x)) ops))" by blast
  have "store_ok t" using store_ok_run [OF store_ok_fresh, of path ops] t by simp
  then obtain t' where t': "traffic_step t x = Some t'" using store_ok_step by blast
  with t have "traffic_run (fresh_store path) (ops @ [x]) = Some t'" by (simp add: traffic_run_snoc)
  with port_total_step [OF t', of n port] tot show ?case by simp
qed

subsection \<open>The availability log as a compacted history\<close>

text \<open>Every state the sampler reported for a client, repetitions included.\<close>

fun reported :: "string \<Rightarrow> traffic_op \<Rightarrow> up_event list" where
  "reported n (OpState n' up now) = (if n' = n \<and> n \<noteq> [] then [\<lparr>ev_T = unix now, ev_U = up\<rparr>] else [])"
| "reported n x = []"

definition history :: "string \<Rightarrow> traffic_op list \<Rightarrow> up_event list" where
  "history n ops = concat (map (reported n) ops)"

lemma history_snoc: "history n (ops @ [x]) = history n ops @ reported n x"
  by (simp add: history_def)

lemma up_at_alt:
  "up_at ev s \<longleftrightarrow> filter (\<lambda>e. ev_T e \<le> s) ev \<noteq> [] \<and> ev_U (last (filter (\<lambda>e. ev_T e \<le> s) ev))"
  by (auto simp: up_at_def split: list.split)

lemma up_at_snoc: "up_at (ev @ [e]) s = (if ev_T e \<le> s then ev_U e else up_at ev s)"
  by (simp add: up_at_alt)

lemma up_at_past: "ev \<noteq> [] \<Longrightarrow> \<forall>e \<in> set ev. ev_T e \<le> s \<Longrightarrow> up_at ev s = ev_U (last ev)"
  by (simp add: up_at_alt)

lemma up_at_drop_past: "ev_T e \<le> s \<Longrightarrow> up_at (pre @ e # post) s = up_at (e # post) s"
  by (simp add: up_at_alt)

text \<open>How often the state changes in a history, the first report included.\<close>

definition changes :: "up_event list \<Rightarrow> nat" where
  "changes ev = length (remdups_adj (map ev_U ev))"

lemma remdups_adj_snoc:
  "remdups_adj (xs @ [x]) = (if xs = [] \<or> last xs \<noteq> x then remdups_adj xs @ [x] else remdups_adj xs)"
  by (induction xs rule: remdups_adj.induct) auto

lemma changes_snoc:
  "changes (ev @ [e]) = (if ev = [] \<or> ev_U (last ev) \<noteq> ev_U e then Suc (changes ev) else changes ev)"
  by (auto simp: changes_def remdups_adj_snoc last_map)

lemma changes_append_le: "changes ev \<le> changes (ev @ ev')"
proof (induction ev' rule: rev_induct)
  case (snoc e ev')
  then show ?case by (simp add: changes_snoc flip: append_assoc)
qed simp

text \<open>
  How the log \<open>lg\<close> stands for the history \<open>h\<close> from second \<open>c\<close> on.
\<close>

definition compacts :: "int \<Rightarrow> up_event list \<Rightarrow> up_event list \<Rightarrow> bool" where
  "compacts c lg h \<longleftrightarrow>
     set lg \<subseteq> set h \<and> chronological lg \<and> length lg \<le> changes h \<and> (lg = [] \<longleftrightarrow> h = []) \<and>
     (h \<noteq> [] \<longrightarrow> ev_U (last lg) = ev_U (last h) \<and>
        (ev_T (hd lg) = ev_T (hd h) \<or> ev_T (hd lg) < c \<and> ev_T (hd h) < c)) \<and>
     (\<forall>s \<ge> c. up_at lg s = up_at h s)"

lemma chronological_snoc:
  "chronological (ev @ [e]) \<longleftrightarrow> chronological ev \<and> (\<forall>x \<in> set ev. ev_T x \<le> ev_T e)"
  by (auto simp: chronological_def sorted_append)

lemma compacts_report:
  assumes "compacts c lg h" and "chronological (h @ [e])"
  shows "compacts c (if lg = [] \<or> ev_U (last lg) \<noteq> ev_U e then lg @ [e] else lg) (h @ [e])"
proof -
  have he: "\<forall>x \<in> set h. ev_T x \<le> ev_T e" using assms(2) by (simp add: chronological_snoc)
  then have le: "\<forall>x \<in> set lg. ev_T x \<le> ev_T e" using assms(1) by (auto simp: compacts_def)
  have "up_at lg s = ev_U (last lg)" if "lg \<noteq> []" "ev_T e \<le> s" for s
    using that le by (intro up_at_past) auto
  with assms le show ?thesis
    by (auto simp: compacts_def up_at_snoc chronological_snoc hd_append changes_snoc)
qed

lemma compacts_prune:
  assumes "compacts c lg h" and "chronological h" and "changes h \<le> 8000" and "k \<le> c"
  shows "compacts c (prune_up k lg) h"
proof -
  have "length lg \<le> 8000" using assms(1,3) by (simp add: compacts_def)
  then show ?thesis
  proof (cases rule: prune_up_split [where c = k])
    case 1
    with assms(1) show ?thesis by simp
  next
    case (2 pre e post)
    have lt: "ev_T e < c" using 2(2) assms(4) by auto
    have ne: "h \<noteq> []" using assms(1) 2(1) by (auto simp: compacts_def)
    have "hd lg \<in> set h" using assms(1) 2(1,4) by (cases pre) (auto simp: compacts_def)
    then have "ev_T (hd h) \<le> ev_T (hd lg)"
      using assms(2) ne by (cases h) (auto simp: chronological_def)
    moreover have "ev_T (hd lg) < c" using 2(1,2,4) assms(4) by (cases pre) auto
    ultimately have "ev_T (hd h) < c" by simp
    moreover have "up_at lg s = up_at (e # post) s" if "c \<le> s" for s
      using that lt 2(1) by (simp add: up_at_drop_past)
    moreover have "chronological (e # post)"
      using assms(1) 2(1) by (auto simp: compacts_def chronological_def sorted_append)
    ultimately have "compacts c (e # post) h"
      using assms(1) lt ne 2(1) by (auto simp: compacts_def)
    then show ?thesis by (simp only: 2(3))
  qed
qed

text \<open>A log without repeated states, as the store keeps it, stands for itself.\<close>

lemma changes_distinct: "distinct_adj (map ev_U lg) \<Longrightarrow> changes lg = length lg"
  by (simp add: changes_def distinct_adj_altdef)

lemma compacts_self: "chronological lg \<Longrightarrow> distinct_adj (map ev_U lg) \<Longrightarrow> compacts c lg lg"
  by (simp add: compacts_def changes_distinct)

lemma compacts_run:
  assumes "compacts c (Up (entry t0 n)) h0"
    and "chronological (h0 @ history n ops)" and "changes (h0 @ history n ops) \<le> 8000"
    and "\<forall>s. OpSave s \<in> set ops \<longrightarrow> cutoff s \<le> c" and "traffic_run t0 ops = Some t"
  shows "compacts c (Up (entry t n)) (h0 @ history n ops)"
  using assms
proof (induction ops arbitrary: t rule: rev_induct)
  case Nil
  then show ?case by (simp add: history_def)
next
  case (snoc x ops)
  let ?h = "h0 @ history n ops"
  from snoc.prems(5) obtain u where u: "traffic_run t0 ops = Some u"
    and t: "traffic_step u x = Some t" by (auto simp: traffic_run_snoc split: option.splits)
  have chron: "chronological ?h" and len: "changes ?h \<le> 8000"
    using snoc.prems(2,3) changes_append_le [of ?h "reported n x"]
    by (auto simp: history_snoc chronological_def sorted_append)
  have IH: "compacts c (Up (entry u n)) ?h"
    using snoc.prems(1,4) u by (intro snoc.IH chron len) auto
  show ?case
  proof (cases x)
    case (OpTouch m now)
    with t IH show ?thesis by (auto simp: history_snoc entry_Touch)
  next
    case (OpState m up now)
    with t IH compacts_report [OF IH, of "\<lparr>ev_T = unix now, ev_U = up\<rparr>"] snoc.prems(2)
    show ?thesis by (auto simp: history_snoc entry_RecordState split: if_splits)
  next
    case (OpAdd m port tx rx day)
    with t have "Add u m port tx rx day = Some t" by simp
    then have "Up (entry t n) = Up (entry u n)" by (rule entry_Add_Up)
    with OpAdd IH show ?thesis by (simp add: history_snoc)
  next
    case (OpSave now)
    then have "cutoff now \<le> c" using snoc.prems(4) by simp
    with OpSave t IH entry_save(3) [of u now n] compacts_prune [OF IH chron len, of "cutoff now"]
    show ?thesis by (auto simp: history_snoc)
  qed
qed

text \<open>
  The uptime percentage reflects what the sampler saw. Take any sequence of operations on a store with
  any log of a client, saves with their pruning included, in which that log and then the reports of
  the client come in chronological order and change at most 8000 times, and a window that starts no
  earlier than any cutoff the saves used. Then \<open>uptimePct\<close> is the share of the seconds of the window
  (from the first report on) during which the latest report said up.
\<close>

lemma uptimePct_of_run:
  assumes "distinct_adj (map ev_U (Up (entry t0 n)))" and h: "h = Up (entry t0 n) @ history n ops"
    and "chronological h" and "changes h \<le> 8000" and "h \<noteq> []"
    and "\<forall>s. OpSave s \<in> set ops \<longrightarrow> cutoff s \<le> unix now - windowSec"
    and "traffic_run t0 ops = Some t"
    and "from = max (unix now - windowSec) (ev_T (hd h))"
  shows "uptimePct t n windowSec now =
    (if unix now \<le> from then -1
     else of_nat (card {s \<in> {from..<unix now}. up_at h s}) / of_int (unix now - from) * 100)"
proof -
  let ?lg = "Up (entry t n)" and ?c = "unix now - windowSec"
  have "chronological (Up (entry t0 n))"
    using assms(3) unfolding h by (simp add: chronological_def sorted_append)
  from compacts_run [OF compacts_self [OF this assms(1)]] have comp: "compacts ?c ?lg h"
    using assms(3,4,6,7) unfolding h by blast
  then have ne: "?lg \<noteq> []" and chron: "chronological ?lg"
    and hd: "max ?c (ev_T (hd ?lg)) = from"
    using assms(5,8) by (auto simp: compacts_def max_def)
  have "{s \<in> {from..<unix now}. up_at ?lg s} = {s \<in> {from..<unix now}. up_at h s}"
    using comp assms(8) by (auto simp: compacts_def)
  moreover have "uptimePct t n windowSec now = uptime_of ?lg windowSec (unix now)"
    using ne by (auto simp: uptimePct_def entry_def empty_ct_def split: option.splits)
  ultimately show ?thesis
    using uptime_counts_seconds [OF chron ne hd [symmetric]] by simp
qed

section \<open>Pruning the days\<close>

lemma get_delete_all: "get (fold AList.delete ks m) d = (if d \<in> set ks then None else get m d)"
  by (induction ks arbitrary: m) (auto simp: delete_conv')

text \<open>
  Pruning the days keeps exactly the newest sixty: their totals are unchanged and every
  older day is gone.
\<close>

lemma prune_days_keeps_newest:
  assumes "keys_ok m"
  shows "\<exists>m'. prune_days (Some m) = Some m' \<and>
    (\<forall>d. get m' d = (if d \<in> set (drop (length m - 60) (sort (map fst m))) then get m d else None))"
proof (cases "60 < length m")
  case True
  let ?ds = "sort (map fst m)"
  have dist: "distinct ?ds" using assms by simp
  have keys: "d \<in> set ?ds \<longleftrightarrow> get m d \<noteq> None" for d by (simp add: map_of_eq_None_iff)
  have un: "set ?ds = set (take (length m - 60) ?ds) \<union> set (drop (length m - 60) ?ds)"
    by (metis append_take_drop_id set_append)
  have disj: "set (take (length m - 60) ?ds) \<inter> set (drop (length m - 60) ?ds) = {}"
    using dist by (rule set_take_disj_set_drop_if_distinct) simp
  have "(if d \<in> set (take (length m - 60) ?ds) then None else get m d)
      = (if d \<in> set (drop (length m - 60) ?ds) then get m d else None)" for d
    using keys [of d] un disj by (auto simp del: set_sort)
  then show ?thesis
    using True by (simp add: prune_days_def Let_def get_delete_all del: set_sort)
next
  case False
  then show ?thesis
    by (auto simp: prune_days_def map_of_eq_None_iff)
qed

theorem prune_days_keeps_newest_witness:
  "keys_ok [(''2026-01-02'', 5 :: u64), (''2026-01-01'', 7)] \<and>
   (\<exists>m'. prune_days (Some [(''2026-01-02'', 5), (''2026-01-01'', 7)]) = Some m' \<and>
         get m' ''2026-01-01'' = Some 7)"
proof -
  have k: "keys_ok [(''2026-01-02'', 5 :: u64), (''2026-01-01'', 7)]" by simp
  from prune_days_keeps_newest [OF k] show ?thesis by fastforce
qed

section \<open>Entries the file left incomplete\<close>

text \<open>
  A client whose first traffic comes before the sampler has seen it, and which then
  disconnects, is known to the store with \<open>LastSeen = 0\<close>: nothing but \<open>Touch\<close> sets it, so
  \<open>Seen\<close> reports the year 1970 as the last time it was connected.
\<close>

lemma traffic_before_touch_is_seen_at_epoch:
  "\<exists>t. Add (fresh_store path) (c # cs) port tx rx day = Some t \<and> Seen t = [(c # cs, 0)]"
  by (simp add: Add_def fresh_store_def entry_def empty_ct_def nil_put_def nil_get_def Seen_def)

text \<open>
  An entry whose maps are absent from the file is not repaired on loading: the store
  opens, and the first byte that client moves is a write to a nil map, a panic.
\<close>

lemma loaded_nil_ports_panics:
  "\<exists>t. NewTrafficStore path [(c # cs, Some \<lparr>Ports = None, Days = days, LastSeen = seen, Up = up\<rparr>)] now = Some t \<and>
       Add t (c # cs) port tx rx day = None"
  by (simp add: NewTrafficStore_def Add_def entry_def nil_put_def Let_def)

end
