(* ===== verification/Speedtest.thy ===== *)
theory Speedtest
  imports Prelude
begin

text \<open>
  The throughput measurement, \<open>internal/speedtest/speedtest.go\<close>: the one-line request and
  its parser, what the responder does with it, the flows of both directions over the results
  of their reads and writes, and the aggregation of the parallel flows.
\<close>

section \<open>Requests\<close>

definition defaultDur :: duration where "defaultDur = 4 * second"
definition streams :: nat where "streams = 8"

definition newline :: char where "newline = CHR 0x0A"

definition parseCmd :: "string \<Rightarrow> (string \<times> int) option" where
  "parseCmd line =
     (let f = Fields (trim_space line) in
      if length f \<noteq> 2 then None
      else (case parse_int 64 (f ! 1) of
              None \<Rightarrow> None
            | Some ms \<Rightarrow> (if ms < 0 \<or> 60000 < ms then None else Some (to_upper (f ! 0), ms))))"

text \<open>What the responder does with the bytes of a connection.\<close>

datatype served = Hang_up | Send_zeros duration | Discard string

definition st_serve :: "string \<Rightarrow> served" where
  "st_serve input =
     (case index_byte newline input of
        None \<Rightarrow> Hang_up
      | Some i \<Rightarrow>
          (case parseCmd (take (Suc i) input) of
             None \<Rightarrow> Hang_up
           | Some (verb, ms) \<Rightarrow>
               (let dur = ms * millisecond in
                if verb = ''GET'' then Send_zeros dur
                else if verb = ''PUT'' then Discard (drop (Suc i) input) else Hang_up)))"

text \<open>
  \<open>RunResponder\<close>: whether the address could be bound, and what each connection sends. The
  result is what was served, and whether the responder has returned.
\<close>

definition RunResponder :: "bool \<Rightarrow> string option list \<Rightarrow> served list \<times> bool" where
  "RunResponder listen_ok conns = (if \<not> listen_ok then ([], True) else accept_loop st_serve conns)"

text \<open>\<open>fmt.Fprintf(conn, "GET %d", dur.Milliseconds())\<close> and a line break.\<close>

definition st_request :: "string \<Rightarrow> duration \<Rightarrow> string" where
  "st_request verb dur = verb @ '' '' @ itoa (milliseconds dur) @ [newline]"

section \<open>Flows\<close>

text \<open>
  The sending loop over its turns: the clock when the deadline is tested, and the bytes
  written and whether the write failed. \<open>None\<close> when the turns given do not end it.
\<close>

fun streamFor :: "gotime \<Rightarrow> (gotime \<times> int \<times> bool) list \<Rightarrow> int \<Rightarrow> int option" where
  "streamFor deadline [] sent = None"
| "streamFor deadline ((now, n, err) # turns) sent =
     (if \<not> now < deadline then Some sent
      else if err then Some (sent + n) else streamFor deadline turns (sent + n))"

text \<open>
  The receiving loop: each read gives the bytes, the clock when it returned and whether it
  reported an error (the end of the data included). The result is the bytes and the time of
  the first byte, the zero time if none came.
\<close>

fun read_flow :: "(int \<times> gotime \<times> bool) list \<Rightarrow> int \<Rightarrow> gotime \<Rightarrow> (int \<times> gotime) option" where
  "read_flow [] got t0 = None"
| "read_flow ((n, now, err) # reads) got t0 =
     (let t0 = (if 0 < n \<and> t0 = zero_time then now else t0);
          got = (if 0 < n then got + n else got)
      in if err then Some (got, t0) else read_flow reads got t0)"

record flow =
  fl_bytes :: int
  fl_dur :: duration
  fl_err :: "string option"

text \<open>\<open>dial\<close> and \<open>req\<close> are the errors of dialling and of sending the request.\<close>

definition streamClientUp ::
  "string option \<Rightarrow> string option \<Rightarrow> (int \<times> gotime \<times> bool) list \<Rightarrow> gotime \<Rightarrow> flow option" where
  "streamClientUp dial req reads end_t =
     (case dial of
        Some e \<Rightarrow> Some \<lparr>fl_bytes = 0, fl_dur = 0, fl_err = Some e\<rparr>
      | None \<Rightarrow>
          (case req of
             Some e \<Rightarrow> Some \<lparr>fl_bytes = 0, fl_dur = 0, fl_err = Some e\<rparr>
           | None \<Rightarrow>
               map_option (\<lambda>(got, t0). \<lparr>fl_bytes = got, fl_dur = time_sub end_t t0, fl_err = None\<rparr>)
                 (read_flow reads 0 zero_time)))"

definition streamClientDown ::
  "string option \<Rightarrow> string option \<Rightarrow> gotime \<Rightarrow> duration \<Rightarrow> (gotime \<times> int \<times> bool) list \<Rightarrow> gotime \<Rightarrow>
     flow option" where
  "streamClientDown dial req t0 dur turns end_t =
     (case dial of
        Some e \<Rightarrow> Some \<lparr>fl_bytes = 0, fl_dur = 0, fl_err = Some e\<rparr>
      | None \<Rightarrow>
          (case req of
             Some e \<Rightarrow> Some \<lparr>fl_bytes = 0, fl_dur = 0, fl_err = Some e\<rparr>
           | None \<Rightarrow>
               map_option (\<lambda>sent. \<lparr>fl_bytes = sent, fl_dur = time_sub end_t t0, fl_err = None\<rparr>)
                 (streamFor (t0 + dur) turns 0)))"

section \<open>Aggregation\<close>

definition mbps :: "int \<Rightarrow> duration \<Rightarrow> rat" where
  "mbps bytes d =
     (let secs = seconds d in if secs \<le> 0 then 0 else of_int bytes * 8 / 1000000 / secs)"

record agg =
  ag_total :: int
  ag_max :: duration
  ag_err :: "string option"
  ag_ok :: nat

definition agg_step :: "agg \<Rightarrow> flow \<Rightarrow> agg" where
  "agg_step a r =
     (case fl_err r of
        Some e \<Rightarrow> (if ag_err a = None then a\<lparr>ag_err := Some e\<rparr> else a)
      | None \<Rightarrow>
          a\<lparr>ag_total := ag_total a + fl_bytes r,
            ag_max := (if ag_max a < fl_dur r then fl_dur r else ag_max a),
            ag_ok := Suc (ag_ok a)\<rparr>)"

text \<open>
  The flows are started together, and each stores its result in its own slot when it ends: \<open>ends\<close> is
  the order in which they do, \<open>one i\<close> the result of the flow started as the \<open>i\<close>-th. The loop that
  adds them up runs when all have ended, over the slots.
\<close>

definition launch :: "(nat \<Rightarrow> flow) \<Rightarrow> nat list \<Rightarrow> flow list" where
  "launch one ends =
     fold (\<lambda>i out. out[i := one i]) ends (replicate streams \<lparr>fl_bytes = 0, fl_dur = 0, fl_err = None\<rparr>)"

lemma launch_in_any_order:
  assumes "set ends = {0..<streams}"
  shows "launch one ends = map one [0..<streams]"
proof -
  have len: "length (fold (\<lambda>i out. out[i := one i]) xs out) = length out" for xs and out :: "flow list"
    by (induction xs arbitrary: out) simp_all
  have nth: "j < length out \<Longrightarrow>
      fold (\<lambda>i out. out[i := one i]) xs out ! j = (if j \<in> set xs then one j else out ! j)"
    for xs j and out :: "flow list"
    by (induction xs arbitrary: out) (auto simp: nth_list_update)
  show ?thesis
    by (rule nth_equalityI) (use assms in \<open>auto simp: launch_def len nth\<close>)
qed

definition runParallel :: "flow list \<Rightarrow> string option + rat" where
  "runParallel out =
     (let a = foldl agg_step \<lparr>ag_total = 0, ag_max = 0, ag_err = None, ag_ok = 0\<rparr> out
      in if ag_ok a = 0 then Inl (ag_err a) else Inr (mbps (ag_total a) (ag_max a)))"

datatype measured = Down_failed "string option" | Up_failed rat "string option" | Measured rat rat

text \<open>
  \<open>downs d\<close> and \<open>ups d\<close> are the results of the flows when they run for \<open>d\<close>; the uploads
  are started only once the downloads have given a number.
\<close>

definition Measure :: "(duration \<Rightarrow> flow list) \<Rightarrow> (duration \<Rightarrow> flow list) \<Rightarrow> duration \<Rightarrow> measured" where
  "Measure downs ups dur =
     (let dur = (if dur \<le> 0 then defaultDur else dur) in
      case runParallel (downs dur) of
        Inl e \<Rightarrow> Down_failed e
      | Inr down \<Rightarrow>
          (case runParallel (ups dur) of Inl e \<Rightarrow> Up_failed down e | Inr up \<Rightarrow> Measured down up))"

section \<open>Lemmas\<close>

lemma index_newline: "newline \<notin> set s \<Longrightarrow> index_byte newline (s @ newline # t) = Some (length s)"
  by (rule index_byte_fresh)

lemma parse_request:
  assumes "verb \<noteq> []" and "\<forall>c \<in> set verb. \<not> is_space c" and "0 \<le> ms" and "ms \<le> 60000"
  shows "parseCmd (verb @ '' '' @ itoa ms @ [newline]) = Some (to_upper verb, ms)"
proof -
  let ?t = "verb @ '' '' @ itoa ms"
  have "hd (verb @ u) = hd verb" for u using assms(1) by simp
  then have hd: "\<not> is_space (hd (?t @ [newline]))" "\<not> is_space (hd ?t)"
    using assms(1,2) by (metis append_assoc hd_in_set)+
  have last: "\<not> is_space (last ?t)"
    using itoa_no_space [of "last (itoa ms)" ms] by simp
  have "trim_left is_space (?t @ [newline]) = ?t @ [newline]"
    unfolding trim_left_def using hd(1) by (intro dropWhile_all_not) simp
  then have "trim_space (?t @ [newline]) = trim_right is_space (?t @ [newline])"
    by (simp add: trim_space_def)
  also have "\<dots> = rev (dropWhile is_space (rev ?t))"
    by (simp add: trim_right_def newline_def is_space_def)
  also have "dropWhile is_space (rev ?t) = rev ?t"
    using last by (intro dropWhile_all_not) (simp add: hd_rev)
  finally have trim: "trim_space (verb @ '' '' @ itoa ms @ [newline]) = ?t" by simp
  have "Fields ?t = verb # Fields ('' '' @ itoa ms)"
    using assms(1,2) by (intro fields_cons) (auto simp: is_space_def)
  also have "Fields ('' '' @ itoa ms) = [itoa ms]"
    using itoa_no_space by (simp add: fields_space is_space_def fields_word)
  finally have "Fields ?t = [verb, itoa ms]" .
  moreover have "parse_int 64 (itoa ms) = Some ms"
    using assms(3,4) by (intro parse_int_itoa) auto
  ultimately show ?thesis using assms(3,4) trim by (simp add: parseCmd_def Let_def)
qed

lemma serve_request:
  assumes "verb \<noteq> []" and "\<forall>c \<in> set verb. \<not> is_space c" and "0 \<le> dur" and "dur \<le> 60 * second"
  shows "st_serve (st_request verb dur @ rest) =
    (if to_upper verb = ''GET'' then Send_zeros (dur div millisecond * millisecond)
     else if to_upper verb = ''PUT'' then Discard rest else Hang_up)"
proof -
  let ?ms = "dur div millisecond"
  have ms: "milliseconds dur = ?ms" "0 \<le> ?ms" "?ms \<le> 60000"
    using assms(3,4) by (auto simp: milliseconds_def go_div_def go_simps sgn_if)
  let ?line = "verb @ '' '' @ itoa ?ms"
  have "newline \<notin> set ?line"
    using assms(2) itoa_no_space [of newline ?ms] by (auto simp: newline_def is_space_def)
  then have "index_byte newline (?line @ newline # rest) = Some (length ?line)"
    by (rule index_newline)
  moreover have "take (Suc (length ?line)) (?line @ newline # rest) = verb @ '' '' @ itoa ?ms @ [newline]"
    by simp
  ultimately show ?thesis
    using parse_request [OF assms(1,2) ms(2,3)] by (simp add: st_serve_def st_request_def ms(1))
qed

section \<open>Properties\<close>

text \<open>
  C40. The two ends speak the same protocol: what the initiator sends for any duration up to a
  minute, followed by anything, makes the responder send for that duration in whole
  milliseconds (\<open>GET\<close>), or take exactly the rest as payload (\<open>PUT\<close>).
\<close>

theorem responder_understands_initiator:
  assumes "0 \<le> dur" and "dur \<le> 60 * second"
  shows "st_serve (st_request ''GET'' dur @ rest) = Send_zeros (dur div millisecond * millisecond)
       \<and> st_serve (st_request ''PUT'' dur @ rest) = Discard rest"
  using serve_request [OF _ _ assms, of "''GET''" rest] serve_request [OF _ _ assms, of "''PUT''" rest]
  by (simp add: is_space_def to_upper_def to_upper_char_def)

theorem responder_understands_initiator_witness:
  "st_serve (st_request ''GET'' defaultDur) = Send_zeros (4 * second)"
  using responder_understands_initiator [of defaultDur "[]"] by (simp add: defaultDur_def go_simps)

lemma agg_run:
  "foldl agg_step a out =
     (let ok = filter (\<lambda>r. fl_err r = None) out; bad = List.map_filter fl_err out in
      a\<lparr>ag_total := ag_total a + sum_list (map fl_bytes ok),
        ag_max := foldl max (ag_max a) (map fl_dur ok),
        ag_err := (case ag_err a of Some e \<Rightarrow> Some e | None \<Rightarrow> (case bad of [] \<Rightarrow> None | e # _ \<Rightarrow> Some e)),
        ag_ok := ag_ok a + length ok\<rparr>)"
proof (induction out arbitrary: a)
  case Nil
  then show ?case by (simp add: List.map_filter_def split: option.split)
next
  case (Cons r out)
  show ?case
    by (simp only: foldl_Cons Cons.IH)
      (cases "fl_err r"; simp add: agg_step_def List.map_filter_def Let_def max_def split: option.split)
qed

lemma runParallel_agg:
  "runParallel out =
     (let ok = filter (\<lambda>r. fl_err r = None) out in
      if ok = [] then Inl (case out of [] \<Rightarrow> None | r # _ \<Rightarrow> fl_err r)
      else Inr (mbps (sum_list (map fl_bytes ok)) (foldl max 0 (map fl_dur ok))))"
proof (cases "filter (\<lambda>r. fl_err r = None) out = []")
  case True
  show ?thesis
  proof (cases out)
    case Nil
    then show ?thesis by (simp add: runParallel_def)
  next
    case (Cons r rs)
    then obtain e where e: "fl_err r = Some e" using True by (auto split: if_splits)
    have "List.map_filter fl_err out = e # List.map_filter fl_err rs"
      by (simp add: Cons e List.map_filter_def)
    then have "runParallel out = Inl (Some e)"
      by (simp add: runParallel_def agg_run True Let_def)
    then show ?thesis unfolding True by (simp add: Cons e)
  qed
next
  case False
  then show ?thesis by (simp add: runParallel_def agg_run Let_def)
qed

text \<open>
  The aggregate is what it says: flows that failed change nothing as long as one worked,
  the number is the sum of the bytes of those that worked over the longest of their
  durations, and when none worked the error is that of the first flow.
\<close>

lemma runParallel_is_aggregate:
  "runParallel out =
     (let ok = filter (\<lambda>r. fl_err r = None) out in
      if ok = [] then Inl (case out of [] \<Rightarrow> None | r # _ \<Rightarrow> fl_err r)
      else Inr (mbps (sum_list (map fl_bytes ok)) (foldl max 0 (map fl_dur ok))))"
  by (rule runParallel_agg)

text \<open>
  A flow that is accepted but receives nothing is no error: its duration is the time since
  the zero time, the longest a \<open>Duration\<close> can be, and it takes the aggregate of all the
  others below one Mbit/s, whatever they transferred.
\<close>

lemma stalled_flow_ruins_upload:
  assumes "streamClientUp None None [(0, t, True)] (of_unix s) = Some r" and "0 \<le> s"
    and "r \<in> set out" and "\<forall>q \<in> set out. fl_dur q \<le> max_duration"
    and "sum_list (map fl_bytes (filter (\<lambda>r. fl_err r = None) out)) < 10 ^ 15"
  shows "\<exists>rate < 1. runParallel out = Inr rate"
proof -
  have r: "fl_err r = None" "fl_dur r = max_duration"
    using assms(1,2) by (auto simp: streamClientUp_def time_sub_def of_unix_def go_simps)
  let ?ok = "filter (\<lambda>r. fl_err r = None) out"
  have rm: "r \<in> set ?ok" using assms(3) r by simp
  have "foldl max (0 :: int) ds = max_duration"
    if "max_duration \<in> set ds" "\<forall>d \<in> set ds. d \<le> max_duration" for ds
  proof -
    have "foldl max a ds = (if ds = [] then a else max a (Max (set ds)))" for a :: int
      by (induction ds arbitrary: a) (auto simp: max.assoc)
    moreover have "Max (set ds) = max_duration" using that by (intro Max_eqI) auto
    ultimately show ?thesis using that(1) by (auto simp: go_simps)
  qed
  moreover have "max_duration \<in> set (map fl_dur ?ok)"
    using rm r(2) by (metis image_eqI list.set_map)
  moreover have "\<forall>d \<in> set (map fl_dur ?ok). d \<le> max_duration" using assms(4) by auto
  ultimately have "foldl max 0 (map fl_dur ?ok) = max_duration" by blast
  moreover have "?ok \<noteq> []" using rm by (metis empty_iff list.set(1))
  ultimately have "runParallel out = Inr (mbps (sum_list (map fl_bytes ?ok)) max_duration)"
    using runParallel_agg [of out] by (simp add: Let_def)
  moreover have "mbps n max_duration < 1" if "n < 10 ^ 15" for n
  proof -
    have "(of_int n :: rat) < of_int (10 ^ 15)" using that by (simp only: of_int_less_iff)
    then show ?thesis by (simp add: mbps_def seconds_def go_simps)
  qed
  ultimately show ?thesis using assms(5) by blast
qed

end
