(* ===== verification/Panel.thy ===== *)
theory Panel
  imports Links Probe Traffic Speedtest
begin

text \<open>
  The panel, \<open>internal/monitor/monitor.go\<close>: the rows of \<open>/api/status\<close> for connected and
  disconnected clients, the handlers of the other endpoints, and the sampler that feeds the traffic
  store. A handler reads the clock once here (\<open>now\<close>, \<open>today\<close>); the metadata store is the one
  after the lookup's refresh; the JSON encoder is left out. Sentences are constructors with the
  values they are formatted from, as in \<open>Attempts\<close>.
\<close>

section \<open>Rows\<close>

record port_info =
  pi_Port :: u32
  pi_Name :: string
  pi_URL :: string

datatype udp_note = Udp_never | Udp_alive rat string | Udp_silent int string

record row =
  rw_Name :: string
  rw_Title :: string
  rw_PortInfo :: "port_info list"
  rw_Connected :: bool
  rw_IP :: string
  rw_Ports :: "u32 list"
  rw_Uptime :: rat
  rw_Reconnects :: int
  rw_Latency :: rat
  rw_Active :: int
  rw_BytesTx :: u64
  rw_BytesRx :: u64
  rw_LastError :: string
  rw_Hist :: "sample list"
  rw_Speedtest :: bool
  rw_LastDown :: rat
  rw_LastUp :: rat
  rw_SpeedHist :: "rat list"
  rw_TrafficToday :: u64
  rw_OfflineSeconds :: rat
  rw_Uptime24h :: rat
  rw_Links :: "link list"
  rw_LastIP :: string
  rw_LastAttemptAgo :: "rat option"
  rw_LastAttemptError :: string
  rw_FailedAttempts :: int
  rw_Diagnosis :: "(diagnosis \<times> udp_note) option"
  rw_UDPSecondsAgo :: "rat option"
  rw_UDPIP :: string

definition zero_row :: row where
  "zero_row =
     \<lparr>rw_Name = [], rw_Title = [], rw_PortInfo = [], rw_Connected = False, rw_IP = [], rw_Ports = [],
      rw_Uptime = 0, rw_Reconnects = 0, rw_Latency = 0, rw_Active = 0, rw_BytesTx = 0,
      rw_BytesRx = 0, rw_LastError = [], rw_Hist = [], rw_Speedtest = False, rw_LastDown = 0,
      rw_LastUp = 0, rw_SpeedHist = [], rw_TrafficToday = 0, rw_OfflineSeconds = 0,
      rw_Uptime24h = 0, rw_Links = [], rw_LastIP = [], rw_LastAttemptAgo = None,
      rw_LastAttemptError = [], rw_FailedAttempts = 0, rw_Diagnosis = None,
      rw_UDPSecondsAgo = None, rw_UDPIP = []\<rparr>"

definition client_row :: "client \<Rightarrow> gotime \<Rightarrow> row" where
  "client_row c now =
     zero_row\<lparr>
       rw_Name := cl_Name c, rw_Connected := True, rw_IP := cl_IP c, rw_Ports := cl_ports c,
       rw_Uptime := seconds (time_sub now (cl_Since c)), rw_Reconnects := cl_reconnects c,
       rw_Latency := (if cl_hist c = [] then 0 else Latency (last (cl_hist c))),
       rw_Active := sint (cl_active c), rw_BytesTx := cl_tx c, rw_BytesRx := cl_rx c,
       rw_LastError := cl_lastError c, rw_Hist := cl_hist c, rw_Speedtest := 0 < cl_speedPort c,
       rw_LastDown := cl_lastDown c, rw_LastUp := cl_lastUp c, rw_SpeedHist := cl_speedHist c\<rparr>"

text \<open>\<open>fmt.Sscanf(k, "%d", &n)\<close> into 32 bits.\<close>

definition scan_port :: "string \<Rightarrow> u32 option" where
  "scan_port k =
     (let ds = takeWhile (\<lambda>c. digit_val c \<noteq> None) (dropWhile is_space k)
      in if ds = [] then None
         else (case digits_val 0 ds of
                 None \<Rightarrow> None
               | Some n \<Rightarrow> if n < 2 ^ 32 then Some (word_of_nat n) else None))"

definition described_port :: "u32 list \<Rightarrow> string \<times> port_meta \<Rightarrow> port_info list" where
  "described_port seen kp =
     (case scan_port (fst kp) of
        None \<Rightarrow> []
      | Some n \<Rightarrow>
          (if n \<in> set seen then []
           else [\<lparr>pi_Port = n, pi_Name = pm_Name (snd kp), pi_URL = pm_URL (snd kp)\<rparr>]))"

definition describe :: "meta_store \<Rightarrow> row \<Rightarrow> row" where
  "describe meta r =
     (let m = meta_Get meta (rw_Name r);
          listed = map (\<lambda>p. let pm = meta_Port meta (rw_Name r) p
                            in \<lparr>pi_Port = p, pi_Name = pm_Name pm, pi_URL = pm_URL pm\<rparr>) (rw_Ports r);
          others = concat (map (described_port (rw_Ports r)) (cm_Ports m))
      in r\<lparr>rw_Title := cm_Title m,
           rw_PortInfo := sort_key pi_Port (rw_PortInfo r @ listed @ others)\<rparr>)"

definition udpDiagnosis :: "rat option \<Rightarrow> string \<Rightarrow> udp_note" where
  "udpDiagnosis ago ip =
     (case ago of
        None \<Rightarrow> Udp_never
      | Some a \<Rightarrow> if a < 35 then Udp_alive a ip else Udp_silent \<lfloor>a\<rfloor> ip)"

section \<open>The status of all clients\<close>

type_synonym beat_source = "(string \<Rightarrow> gotime \<times> string \<times> bool) option"

definition known_names :: "registry \<Rightarrow> traffic_store option \<Rightarrow> string list" where
  "known_names r store =
     sort (remdups (map (\<lambda>k. cl_Name (r_heap r ! k)) (reg_list r)
                    @ (case store of None \<Rightarrow> [] | Some t \<Rightarrow> map fst (Seen t))))"

definition online_row ::
  "registry \<Rightarrow> traffic_store option \<Rightarrow> link_config \<Rightarrow> meta_store \<Rightarrow> beat_source \<Rightarrow> gotime \<Rightarrow> string \<Rightarrow>
     cref \<Rightarrow> row" where
  "online_row r store lc meta hb now today k =
     (let c = r_heap r ! k;
          rw = (client_row c now)\<lparr>rw_Uptime24h := -1\<rparr>;
          rw = (case store of
                  None \<Rightarrow> rw
                | Some t \<Rightarrow>
                    rw\<lparr>rw_TrafficToday := todayTotal t (cl_Name c) today,
                       rw_Uptime24h := uptimePct t (cl_Name c) 86400 now\<rparr>);
          rw = rw\<lparr>rw_Links := linksFor lc (cl_Name c) (known_names r store)\<rparr>;
          rw = describe meta rw;
          (ago, ip) = reg_heartbeat hb (cl_Name c) now
      in rw\<lparr>rw_UDPSecondsAgo := ago, rw_UDPIP := ip\<rparr>)"

definition offline_row ::
  "registry \<Rightarrow> traffic_store \<Rightarrow> link_config \<Rightarrow> meta_store \<Rightarrow> beat_source \<Rightarrow> gotime \<Rightarrow> string \<Rightarrow>
     string \<times> int \<Rightarrow> row" where
  "offline_row r t lc meta hb now today seen =
     (let (name, lastSeen) = seen;
          off = unix now - lastSeen;
          off = (if off < 0 then 0 else off);
          ip = LastIP r name;
          (diag, ago, lerr, fails) = Diagnose (r_att r) now ip lastSeen;
          (udp, udpip) = reg_heartbeat hb name now
      in describe meta
           (zero_row\<lparr>
              rw_Name := name, rw_Connected := False, rw_TrafficToday := todayTotal t name today,
              rw_OfflineSeconds := of_int off, rw_Uptime24h := uptimePct t name 86400 now,
              rw_Links := linksFor lc name (known_names r (Some t)), rw_LastIP := ip,
              rw_LastAttemptError := lerr, rw_FailedAttempts := fails,
              rw_LastAttemptAgo := (if 0 \<le> ago then Some ago else None),
              rw_UDPSecondsAgo := udp, rw_UDPIP := udpip,
              rw_Diagnosis := Some (diag, udpDiagnosis udp udpip)\<rparr>))"

definition api_status ::
  "registry \<Rightarrow> traffic_store option \<Rightarrow> link_config \<Rightarrow> meta_store \<Rightarrow> beat_source \<Rightarrow> gotime \<Rightarrow> string \<Rightarrow>
     row list \<times> attempt list" where
  "api_status r store lc meta hb now today =
     (let rows = map (online_row r store lc meta hb now today) (reg_list r);
          conn = map (\<lambda>k. cl_Name (r_heap r ! k)) (reg_list r);
          rows = (case store of
                    None \<Rightarrow> rows
                  | Some t \<Rightarrow>
                      rows @ map (offline_row r t lc meta hb now today)
                               (filter (\<lambda>(name, lastSeen). name \<notin> set conn) (Seen t)))
      in (rows, Recent (r_att r) 20))"

section \<open>The other endpoints\<close>

definition api_traffic ::
  "traffic_store option \<Rightarrow> string \<Rightarrow> (portRow list \<times> dayRow list) option" where
  "api_traffic store name = (case store of None \<Rightarrow> None | Some t \<Rightarrow> Some (breakdown t name))"

definition api_uptime ::
  "traffic_store option \<Rightarrow> string \<Rightarrow> gotime \<Rightarrow> (string \<times> int \<times> up_event list) option" where
  "api_uptime store name now =
     (case store of None \<Rightarrow> None | Some t \<Rightarrow> Some (name, unix now, uptimeSeries t name))"

text \<open>\<open>/\<close>, which gets every path no other handler has: the page itself, or not found.\<close>

definition panel_index :: "string \<Rightarrow> string \<Rightarrow> string option" where
  "panel_index page path = (if path \<noteq> ''/'' then None else Some page)"

datatype api_error = Not_connected | Bad_port | Not_forwarded | Too_recent | No_speedtest
  | Speedtest_failed measured

definition probe_addr :: "int \<Rightarrow> string" where
  "probe_addr port = ''127.0.0.1:'' @ itoa port"

definition api_probe ::
  "url_parser \<Rightarrow> (string \<Rightarrow> http_outcome \<times> rat) \<Rightarrow> (string \<Rightarrow> tcp_outcome \<times> rat) \<Rightarrow>
     registry \<Rightarrow> meta_store \<Rightarrow> probe_gate \<Rightarrow> gotime \<Rightarrow> string \<Rightarrow> string \<Rightarrow>
     probe_gate \<times> (api_error + probe_result)" where
  "api_probe purl http tcp r meta gate now name portq =
     (case byName r name of
        None \<Rightarrow> (gate, Inl Not_connected)
      | Some k \<Rightarrow>
          (case atoi portq of
             None \<Rightarrow> (gate, Inl Bad_port)
           | Some port \<Rightarrow>
               (if \<not> list_ex (\<lambda>p. uint p = port) (cl_ports (r_heap r ! k))
                then (gate, Inl Not_forwarded)
                else
                  let (gate, ok) = allow gate (name @ '':'' @ itoa port) now in
                  if \<not> ok then (gate, Inl Too_recent)
                  else (gate, Inr (probe purl http tcp (probe_addr port)
                                     (pm_URL (meta_Port meta name (word_of_int port))))))))"

text \<open>\<open>meas\<close> is what \<open>speedtest.Measure\<close> returns for the responder at an address.\<close>

definition record_speed :: "rat \<times> rat \<Rightarrow> client \<Rightarrow> client" where
  "record_speed du c =
     c\<lparr>cl_lastDown := fst du, cl_lastUp := snd du,
       cl_speedHist := push_window 30 (cl_speedHist c) (fst du)\<rparr>"

definition api_speedtest ::
  "(string \<Rightarrow> duration \<Rightarrow> measured) \<Rightarrow> registry \<Rightarrow> string \<Rightarrow> registry \<times> (api_error + rat \<times> rat)" where
  "api_speedtest meas r name =
     (case byName r name of
        None \<Rightarrow> (r, Inl Not_connected)
      | Some k \<Rightarrow>
          (let port = cl_speedPort (r_heap r ! k) in
           if port = 0 then (r, Inl No_speedtest)
           else (case meas (probe_addr port) (4 * second) of
                   Measured down up \<Rightarrow> (upd_client k (record_speed (down, up)) r, Inr (down, up))
                 | failed \<Rightarrow> (r, Inl (Speedtest_failed failed)))))"

section \<open>The sampler\<close>

text \<open>
  What one tick does to the store after the clients were sampled; \<open>touchAt\<close> and \<open>markAt\<close> are the
  clock readings of the calls.
\<close>

definition touch_all :: "registry \<Rightarrow> (cref \<Rightarrow> gotime) \<Rightarrow> traffic_store \<Rightarrow> traffic_store" where
  "touch_all r touchAt t = fold (\<lambda>k t. Touch t (cl_Name (r_heap r ! k)) (touchAt k)) (reg_list r) t"

definition mark :: "string list \<Rightarrow> bool \<Rightarrow> (string \<Rightarrow> gotime) \<Rightarrow> string \<Rightarrow> traffic_store \<Rightarrow> traffic_store" where
  "mark conn grace markAt name t =
     (let up = name \<in> set conn
      in if \<not> up \<and> grace then t else RecordState t name up (markAt name))"

definition sampler_mark ::
  "registry \<Rightarrow> (cref \<Rightarrow> gotime) \<Rightarrow> (string \<Rightarrow> gotime) \<Rightarrow> gotime \<Rightarrow> gotime \<Rightarrow> traffic_store \<Rightarrow> traffic_store" where
  "sampler_mark r touchAt markAt startAt now t =
     (let t = touch_all r touchAt t;
          conn = map (\<lambda>k. cl_Name (r_heap r ! k)) (reg_list r);
          grace = time_sub now startAt < 30 * second
      in fold (mark conn grace markAt) (map fst (Seen t)) t)"

definition sampler_tick ::
  "(u32 \<Rightarrow> (string \<times> duration) option) \<Rightarrow> (string \<Rightarrow> metrics \<Rightarrow> metrics \<times> bool) \<Rightarrow> (cref \<Rightarrow> gotime) \<Rightarrow>
     (cref \<Rightarrow> gotime) \<Rightarrow> (string \<Rightarrow> gotime) \<Rightarrow> gotime \<Rightarrow> gotime \<Rightarrow> registry \<times> traffic_store option \<Rightarrow>
     registry \<times> traffic_store option" where
  "sampler_tick fetch unmarshal scrapedAt touchAt markAt startAt now st =
     (let r = reg_sample fetch unmarshal scrapedAt (fst st)
      in (r, map_option (sampler_mark r touchAt markAt startAt now) (snd st)))"

section \<open>Lemmas\<close>

lemma Connected_iff: "Connected r name \<longleftrightarrow> name \<in> (\<lambda>k. cl_Name (r_heap r ! k)) ` set (reg_list r)"
  by (auto simp: Connected_def byName_def find_None_iff)

lemma describe_sel [simp]: "rw_Name (describe meta rw) = rw_Name rw"
    "rw_Connected (describe meta rw) = rw_Connected rw"
  by (simp_all add: describe_def Let_def)

lemma online_row_sel [simp]: "rw_Name (online_row r store lc meta hb now today k) = cl_Name (r_heap r ! k)"
    "rw_Connected (online_row r store lc meta hb now today k)"
  by (simp_all add: online_row_def Let_def client_row_def split: prod.splits option.splits)

lemma offline_row_sel [simp]: "rw_Name (offline_row r t lc meta hb now today seen) = fst seen"
    "\<not> rw_Connected (offline_row r t lc meta hb now today seen)"
  by (simp_all add: offline_row_def Let_def zero_row_def split: prod.splits)

interpretation speed_log: bounded_log 30 "\<lambda>c du. record_speed du c" cl_speedHist "\<lambda>du. [fst du]"
  by unfold_locales (simp add: record_speed_def window_simps)

lemma known_names_set:
  "set (known_names r store) =
     {name. Connected r name} \<union> (case store of None \<Rightarrow> {} | Some t \<Rightarrow> fst ` set (ts_m t))"
  by (auto simp: known_names_def Connected_iff Seen_def rev_image_eqI split: option.splits)

subsection \<open>The sampler\<close>

lemma entry_touch_all:
  "Up (entry (touch_all r touchAt t) n) = Up (entry t n)"
proof -
  have "Up (entry (fold (\<lambda>k t. Touch t (cl_Name (r_heap r ! k)) (touchAt k)) ks t) n) = Up (entry t n)" for ks
    by (induction ks arbitrary: t) (simp_all add: entry_Touch)
  then show ?thesis by (simp add: touch_all_def)
qed

lemma keys_Touch: "fst ` set (ts_m (Touch t n now)) = (if n = [] then {} else {n}) \<union> fst ` set (ts_m t)"
  by (auto simp: Touch_def dom_update)

lemma keys_touch_all:
  "fst ` set (ts_m (touch_all r touchAt t)) = {n. n \<noteq> [] \<and> Connected r n} \<union> fst ` set (ts_m t)"
proof -
  have "fst ` set (ts_m (fold (\<lambda>k t. Touch t (cl_Name (r_heap r ! k)) (touchAt k)) ks t))
      = ((\<lambda>k. cl_Name (r_heap r ! k)) ` set ks - {[]}) \<union> fst ` set (ts_m t)" for ks
    by (induction ks arbitrary: t) (auto simp: keys_Touch)
  then show ?thesis by (auto simp: touch_all_def Connected_iff)
qed

text \<open>A report of a state, which is logged when it differs from the last one.\<close>

definition report_up :: "up_event list \<Rightarrow> bool \<Rightarrow> gotime \<Rightarrow> up_event list" where
  "report_up ev up when =
     (if ev \<noteq> [] \<and> ev_U (last ev) = up then ev else ev @ [\<lparr>ev_T = unix when, ev_U = up\<rparr>])"

lemma report_up_again [simp]: "report_up (report_up ev up a) up b = report_up ev up a"
  by (simp add: report_up_def)

lemma Up_mark:
  "Up (entry (mark conn grace markAt m t) n) =
     (if m = n \<and> n \<noteq> [] \<and> (n \<in> set conn \<or> \<not> grace)
      then report_up (Up (entry t n)) (n \<in> set conn) (markAt n) else Up (entry t n))"
  by (auto simp: mark_def Let_def entry_RecordState report_up_def)

lemma Up_marks:
  "Up (entry (fold (mark conn grace markAt) ms t) n) =
     (if n \<in> set ms \<and> n \<noteq> [] \<and> (n \<in> set conn \<or> \<not> grace)
      then report_up (Up (entry t n)) (n \<in> set conn) (markAt n) else Up (entry t n))"
  by (induction ms arbitrary: t) (auto simp: Up_mark)

section \<open>Properties\<close>

definition absent :: "registry \<Rightarrow> traffic_store option \<Rightarrow> (string \<times> int) list" where
  "absent r store =
     (case store of None \<Rightarrow> [] | Some t \<Rightarrow> filter (\<lambda>(name, lastSeen). \<not> Connected r name) (Seen t))"

lemma api_status_rows:
  "fst (api_status r store lc meta hb now today) =
     map (online_row r store lc meta hb now today) (reg_list r)
     @ (case store of None \<Rightarrow> [] | Some t \<Rightarrow> map (offline_row r t lc meta hb now today) (absent r store))"
  by (simp add: api_status_def absent_def Connected_iff split: option.split)

lemma status_connected:
  "filter rw_Connected (fst (api_status r store lc meta hb now today)) =
     map (online_row r store lc meta hb now today) (reg_list r)"
  by (simp add: api_status_rows filter_map comp_def split: option.split)

lemma status_absent:
  "map rw_Name (filter (\<lambda>rw. \<not> rw_Connected rw) (fst (api_status r store lc meta hb now today))) =
     map fst (absent r store)"
  by (simp add: api_status_rows filter_map comp_def absent_def split: option.split)

text \<open>
  C9. The status lists every client that is connected or was ever recorded, as connected exactly when
  it has a session in the registry: one row for each session, and one for every other recorded
  client.
\<close>

theorem status_lists_every_client:
  "(\<lambda>rw. (rw_Name rw, rw_Connected rw)) ` set (fst (api_status r store lc meta hb now today)) =
     {(name, True) | name. Connected r name}
     \<union> {(name, False) | name. \<not> Connected r name
          \<and> name \<in> (case store of None \<Rightarrow> {} | Some t \<Rightarrow> fst ` set (ts_m t))}
   \<and> length (filter rw_Connected (fst (api_status r store lc meta hb now today))) = length (r_m r)"
proof
  let ?on = "online_row r store lc meta hb now today"
  have on: "(\<lambda>rw. (rw_Name rw, rw_Connected rw)) ` ?on ` set (reg_list r)
      = {(name, True) | name. Connected r name}"
    by (auto simp: Connected_iff image_image)
  show "(\<lambda>rw. (rw_Name rw, rw_Connected rw)) ` set (fst (api_status r store lc meta hb now today)) =
     {(name, True) | name. Connected r name}
     \<union> {(name, False) | name. \<not> Connected r name
          \<and> name \<in> (case store of None \<Rightarrow> {} | Some t \<Rightarrow> fst ` set (ts_m t))}"
  proof (cases store)
    case None
    with on show ?thesis by (simp add: api_status_def)
  next
    case (Some t)
    let ?off = "offline_row r t lc meta hb now today"
    let ?gone = "filter (\<lambda>(name, lastSeen). name \<notin> (\<lambda>k. cl_Name (r_heap r ! k)) ` set (reg_list r)) (Seen t)"
    have "(\<lambda>rw. (rw_Name rw, rw_Connected rw)) ` ?off ` set ?gone = (\<lambda>x. (fst x, False)) ` set ?gone"
      by (simp add: image_image)
    also have "\<dots> = {(name, False) | name. \<not> Connected r name \<and> name \<in> fst ` set (ts_m t)}"
      by (force simp: Connected_iff Seen_def)
    finally show ?thesis using on Some by (simp add: api_status_def image_Un)
  qed
  show "length (filter rw_Connected (fst (api_status r store lc meta hb now today))) = length (r_m r)"
    by (simp add: status_connected reg_list_def)
qed

text \<open>
  C10. A tick of the sampler reports every connected client as up and every other client the store
  knows as down, except that in the first 30 seconds of the server nothing is reported down; a
  report is logged exactly when it differs from the last one of that client.
\<close>

theorem availability_log_follows_sessions:
  "Up (entry (sampler_mark r touchAt markAt startAt now t) name) =
     (let ev = Up (entry t name);
          known = (name \<in> fst ` set (ts_m t));
          late = (30 * second \<le> time_sub now startAt)
      in if name = [] then ev
         else if Connected r name
         then (if ev \<noteq> [] \<and> ev_U (last ev) then ev
               else ev @ [\<lparr>ev_T = unix (markAt name), ev_U = True\<rparr>])
         else if known \<and> late
         then (if ev \<noteq> [] \<and> \<not> ev_U (last ev) then ev
               else ev @ [\<lparr>ev_T = unix (markAt name), ev_U = False\<rparr>])
         else ev)"
proof -
  let ?conn = "map (\<lambda>k. cl_Name (r_heap r ! k)) (reg_list r)"
  have conn: "name \<in> set ?conn \<longleftrightarrow> Connected r name" by (simp add: Connected_iff)
  have known: "name \<in> fst ` set (Seen (touch_all r touchAt t))
      \<longleftrightarrow> (name \<noteq> [] \<and> Connected r name) \<or> name \<in> fst ` set (ts_m t)"
  proof -
    have "fst ` set (Seen u) = fst ` set (ts_m u)" for u by (force simp: Seen_def)
    then show ?thesis by (simp add: keys_touch_all)
  qed
  show ?thesis
    unfolding sampler_mark_def Let_def Up_marks entry_touch_all set_map [symmetric] report_up_def conn
    using known by (auto simp: set_map)
qed

text \<open>
  C24. A probe touches only ports listed for the connected client it names: whatever answers at any
  other address, the result is the same.
\<close>

theorem probe_dials_only_listed_ports:
  assumes "\<forall>k p. byName r name = Some k \<longrightarrow> p \<in> set (cl_ports (r_heap r ! k)) \<longrightarrow>
      http (probe_addr (uint p)) = http' (probe_addr (uint p))
      \<and> tcp (probe_addr (uint p)) = tcp' (probe_addr (uint p))"
  shows "api_probe purl http tcp r meta gate now name portq
       = api_probe purl http' tcp' r meta gate now name portq"
proof (cases "byName r name")
  case (Some k)
  show ?thesis
  proof (cases "atoi portq")
    case (Some port)
    show ?thesis
    proof (cases "list_ex (\<lambda>p. uint p = port) (cl_ports (r_heap r ! k))")
      case True
      then obtain p where "p \<in> set (cl_ports (r_heap r ! k))" "uint p = port" by (auto simp: list_ex_iff)
      with assms \<open>byName r name = Some k\<close>
      have "http (probe_addr port) = http' (probe_addr port)" "tcp (probe_addr port) = tcp' (probe_addr port)"
        by blast+
      then have "probe purl http tcp (probe_addr port) u = probe purl http' tcp' (probe_addr port) u" for u
        by (auto simp: probe_def split: option.splits)
      then show ?thesis by (simp add: api_probe_def Some \<open>byName r name = Some k\<close> split: prod.splits)
    qed (simp add: api_probe_def Some \<open>byName r name = Some k\<close>)
  qed (simp add: api_probe_def Some)
qed (simp add: api_probe_def)

theorem probe_dials_only_listed_ports_witness:
  "api_probe (\<lambda>u. None) (\<lambda>a. (Answered 200, 1))
     (\<lambda>a. if a = probe_addr 8080 then (Read_timeout, 1500) else (Read_byte, 1))
     (reg_run [EvAdd ''s1'' ''tk-a-web'' ''192.0.2.1'' 0, EvPort ''s1'' 8080])
     (NewMetaStore []) (newProbeGate second) 0 ''tk-a-web'' ''8080''
   = api_probe (\<lambda>u. None) (\<lambda>a. (Answered 200, 1)) (\<lambda>a. (Read_timeout, 1500))
     (reg_run [EvAdd ''s1'' ''tk-a-web'' ''192.0.2.1'' 0, EvPort ''s1'' 8080])
     (NewMetaStore []) (newProbeGate second) 0 ''tk-a-web'' ''8080''"
proof -
  let ?r = "reg_run [EvAdd ''s1'' ''tk-a-web'' ''192.0.2.1'' 0, EvPort ''s1'' 8080]"
  have "p = 8080" if "byName ?r ''tk-a-web'' = Some k" "p \<in> set (cl_ports (r_heap ?r ! k))" for k p
    using that by (auto simp: reg_run_def NewRegistry_def new_client_def reg_Add_def AddPort_def
        upd_client_def byName_def reg_list_def split: if_splits)
  then have u: "probe_addr (uint p) = probe_addr 8080"
    if "byName ?r ''tk-a-web'' = Some k" "p \<in> set (cl_ports (r_heap ?r ! k))" for k p
    using that by fastforce
  show ?thesis
    by (rule probe_dials_only_listed_ports) (use u in simp)
qed

end
