(* ===== verification/Page.thy ===== *)
theory Page
  imports Panel
begin

text \<open>
  The script of the dashboard, the constant of \<open>internal/monitor/page.go\<close>: how it escapes text for
  HTML and for the handlers of buttons, formats numbers, builds links, and computes from
  \<open>/api/uptime\<close> the availability the server computes in \<open>uptimePct\<close>. The numbers of JavaScript
  are rationals here (no rounding of doubles); strings are the bytes of the UTF-8 text, of which the
  script inspects only ASCII characters.
\<close>

section \<open>Escaping\<close>

definition esc_char :: "char \<Rightarrow> string" where
  "esc_char ch =
     (if ch = CHR ''&'' then ''&amp;''
      else if ch = CHR ''<'' then ''&lt;''
      else if ch = CHR ''>'' then ''&gt;''
      else if ch = CHR 0x22 then ''&quot;''
      else if ch = CHR 0x27 then ''&#39;''
      else [ch])"

definition esc :: "string \<Rightarrow> string" where
  "esc s = concat (map esc_char s)"

text \<open>\<open>JSON.stringify\<close> of a string.\<close>

definition hex_char :: "nat \<Rightarrow> char" where
  "hex_char d = (if d < 10 then digit_char d else char_of (87 + d))"

definition json_char :: "char \<Rightarrow> string" where
  "json_char ch =
     (let n = of_char ch :: nat in
      if ch = CHR 0x22 then [CHR 0x5C, CHR 0x22]
      else if ch = CHR 0x5C then [CHR 0x5C, CHR 0x5C]
      else if n = 8 then [CHR 0x5C, CHR ''b'']
      else if n = 9 then [CHR 0x5C, CHR ''t'']
      else if n = 10 then [CHR 0x5C, CHR ''n'']
      else if n = 12 then [CHR 0x5C, CHR ''f'']
      else if n = 13 then [CHR 0x5C, CHR ''r'']
      else if n < 32 then [CHR 0x5C, CHR ''u'', CHR ''0'', CHR ''0'', hex_char (n div 16), hex_char (n mod 16)]
      else [ch])"

definition json_string :: "string \<Rightarrow> string" where
  "json_string s = CHR 0x22 # concat (map json_char s) @ [CHR 0x22]"

definition A :: "string \<Rightarrow> string" where
  "A s = esc (json_string s)"

text \<open>
  The table of the rows last received, keyed by client name (\<open>__proto__\<close> is not a client name), and
  the title a client is shown under.
\<close>

type_synonym last_rows = "(string \<times> row) list"

definition set_LAST :: "row list \<Rightarrow> last_rows" where
  "set_LAST cs = fold (\<lambda>c. put (rw_Name c) c) cs []"

definition T :: "last_rows \<Rightarrow> string \<Rightarrow> string" where
  "T LAST name =
     esc (case get LAST name of
            Some c \<Rightarrow> if rw_Title c \<noteq> [] then rw_Title c else name
          | None \<Rightarrow> name)"

section \<open>Numbers\<close>

text \<open>\<open>Number.prototype.toFixed\<close>: the nearest multiple of \<open>10^-f\<close>, the larger of two.\<close>

definition fraction_digits :: "nat \<Rightarrow> nat \<Rightarrow> string" where
  "fraction_digits f n = (let ds = show_nat n in replicate (f - length ds) (CHR ''0'') @ ds)"

definition toFixed :: "nat \<Rightarrow> rat \<Rightarrow> string" where
  "toFixed f x =
     (let n = nat \<lfloor>\<bar>x\<bar> * 10 ^ f + 1 / 2\<rfloor>;
          s = (if f = 0 then show_nat n
               else show_nat (n div 10 ^ f) @ CHR ''.'' # fraction_digits f (n mod 10 ^ f))
      in if x < 0 then CHR ''-'' # s else s)"

text \<open>\<open>None\<close> is a number that is absent.\<close>

definition js_rem :: "int \<Rightarrow> int \<Rightarrow> int" where
  "js_rem a b = a - b * go_div a b"

definition fmtU :: "rat option \<Rightarrow> string" where
  "fmtU s =
     (case s of
        None \<Rightarrow> ''-''
      | Some s \<Rightarrow>
          (let s = \<lfloor>s\<rfloor>;
               d = s div 86400; s = js_rem s 86400;
               h = s div 3600; s = js_rem s 3600;
               m = s div 60
           in if d \<noteq> 0 then itoa d @ ''d '' @ itoa h @ ''h '' @ itoa m @ ''m''
              else if h \<noteq> 0 then itoa h @ ''h '' @ itoa m @ ''m''
              else itoa m @ ''m''))"

text \<open>The loop shared by \<open>fmtR\<close> and \<open>fmtB\<close>: the number and the index of its unit.\<close>

function unit_loop :: "rat \<Rightarrow> nat \<Rightarrow> rat \<Rightarrow> nat \<Rightarrow> rat \<times> nat" where
  "unit_loop base limit n i = (if base \<le> n \<and> i < limit then unit_loop base limit (n / base) (i + 1) else (n, i))"
  by auto
termination by (relation "measure (\<lambda>(base, limit, n, i). limit - i)") auto

declare unit_loop.simps [simp del]

definition fmtR :: "rat \<Rightarrow> string" where
  "fmtR n =
     (if n = 0 then ''0''
      else
        let (n, i) = unit_loop 1000 3 (n * 8) 0
        in toFixed (if i \<noteq> 0 then 1 else 0) n @ ['''', ''K'', ''M'', ''G''] ! i @ ''bps'')"

definition fmtB :: "rat \<Rightarrow> string" where
  "fmtB n =
     (if n = 0 then ''0 B''
      else
        let (n, i) = unit_loop 1024 4 n 0
        in toFixed (if i \<noteq> 0 then 1 else 0) n @ '' '' @ [''B'', ''KB'', ''MB'', ''GB'', ''TB''] ! i)"

section \<open>Links\<close>

text \<open>\<open>/^https?:\/\//i\<close>, and what \<open>replace\<close> leaves of a URL without it.\<close>

definition http_scheme :: "string \<Rightarrow> bool" where
  "http_scheme u \<longleftrightarrow> has_prefix (to_lower u) ''http://'' \<or> has_prefix (to_lower u) ''https://''"

definition safeHref :: "string \<Rightarrow> string" where
  "safeHref u = (if http_scheme u then u else [])"

definition strip_scheme :: "string \<Rightarrow> string" where
  "strip_scheme u =
     (if has_prefix (to_lower u) ''http://'' then drop 7 u
      else if has_prefix (to_lower u) ''https://'' then drop 8 u else u)"

text \<open>The page's own address: \<open>location.protocol\<close> and \<open>location.host\<close>.\<close>

record location =
  lo_protocol :: string
  lo_host :: string

definition linkUrl :: "location \<Rightarrow> string \<Rightarrow> string" where
  "linkUrl loc host =
     (let p = split_on (CHR ''.'') (lo_host loc) in
      if length p < 2 \<or> host = [] then []
      else lo_protocol loc @ ''//'' @ host @ ''.'' @ join ''.'' (tl p))"

definition mainUrl :: "location \<Rightarrow> row \<Rightarrow> string" where
  "mainUrl loc c =
     (case find (\<lambda>x. lk_Kind x = ''main'') (rw_Links c) of
        None \<Rightarrow> []
      | Some l \<Rightarrow> linkUrl loc (lk_Host l))"

section \<open>Availability\<close>

datatype seg_state = Seg_nd | Seg_up | Seg_down

record seg =
  sg_a :: rat
  sg_b :: rat
  sg_u :: seg_state

definition seg_of :: "bool \<Rightarrow> seg_state" where
  "seg_of u = (if u then Seg_up else Seg_down)"

text \<open>
  \<open>in_span\<close> is where a second lies in the window. The first loop of \<open>upCompute\<close> is the one of
  \<open>uptimePct\<close> (\<open>entry_state\<close>); the second also collects the segments.
\<close>

definition in_span :: "int \<Rightarrow> int \<Rightarrow> int \<Rightarrow> rat" where
  "in_span frm wd t = of_int (t - frm) / of_int wd"

fun seg_loop :: "int \<Rightarrow> int \<Rightarrow> int \<Rightarrow> up_event list \<Rightarrow> int \<Rightarrow> bool \<Rightarrow> int \<Rightarrow> seg list \<Rightarrow>
    int \<times> bool \<times> int \<times> seg list" where
  "seg_loop frm to ef [] cursor cur upDur segs = (cursor, cur, upDur, segs)"
| "seg_loop frm to ef (e # es) cursor cur upDur segs =
     (if ev_T e \<le> ef then seg_loop frm to ef es cursor cur upDur segs
      else if to \<le> ev_T e then (cursor, cur, upDur, segs)
      else seg_loop frm to ef es (ev_T e) (ev_U e)
             (if cur then upDur + (ev_T e - cursor) else upDur)
             (segs @ [\<lparr>sg_a = in_span frm (to - frm) cursor, sg_b = in_span frm (to - frm) (ev_T e),
                       sg_u = seg_of cur\<rparr>]))"

definition upCompute :: "up_event list \<Rightarrow> int \<Rightarrow> int \<Rightarrow> rat option \<times> seg list" where
  "upCompute events frm to =
     (if events = [] then (None, [\<lparr>sg_a = 0, sg_b = 1, sg_u = Seg_nd\<rparr>])
      else
        let wd = to - frm;
            ds = ev_T (hd events);
            ef = (if frm < ds then ds else frm);
            st = entry_state ef (ev_U (hd events)) events;
            segs = (if frm < ef then [\<lparr>sg_a = 0, sg_b = in_span frm wd ef, sg_u = Seg_nd\<rparr>] else []);
            (cursor, cur, upDur, segs) = seg_loop frm to ef events ef st 0 segs;
            segs = segs @ [\<lparr>sg_a = in_span frm wd cursor, sg_b = 1, sg_u = seg_of cur\<rparr>];
            upDur = (if cur then upDur + (to - cursor) else upDur);
            cov = to - ef
        in (if 0 < cov then Some (of_int upDur / of_int cov * 100) else None, segs))"

section \<open>The availability the page shows\<close>

lemma seg_loop_up_loop:
  "\<exists>segs'. seg_loop frm to ef es cursor cur upDur segs =
     (let (c, s, d) = up_loop ef to es cursor cur upDur in (c, s, d, segs'))"
  by (induction ef to es cursor cur upDur arbitrary: segs rule: up_loop.induct) auto

lemma upCompute_pct:
  "(case fst (upCompute ev (now - windowSec) now) of None \<Rightarrow> -1 | Some p \<Rightarrow> p) = uptime_of ev windowSec now"
proof (cases "ev = []")
  case False
  let ?frm = "now - windowSec"
  let ?ef = "if ?frm < ev_T (hd ev) then ev_T (hd ev) else ?frm"
  let ?segs = "if ?frm < ?ef then [\<lparr>sg_a = 0, sg_b = in_span ?frm (now - ?frm) ?ef, sg_u = Seg_nd\<rparr>] else []"
  obtain c s d where u: "up_loop ?ef now ev ?ef (entry_state ?ef (ev_U (hd ev)) ev) 0 = (c, s, d)"
    by (metis prod_cases3)
  obtain segs' where "seg_loop ?frm now ?ef ev ?ef (entry_state ?ef (ev_U (hd ev)) ev) 0 ?segs = (c, s, d, segs')"
    using seg_loop_up_loop [of ?frm now ?ef ev ?ef "entry_state ?ef (ev_U (hd ev)) ev" 0 ?segs] u by auto
  with u False show ?thesis
    unfolding upCompute_def uptime_of_def Let_def by (simp only: if_False prod.case fst_conv) simp
qed (simp add: upCompute_def uptime_of_def)

text \<open>
  C13. The availability the page computes in the browser from the answer of \<open>/api/uptime\<close> is
  the percentage the server computes at that second, for every window: absent where the
  server says -1.
\<close>

theorem page_availability_is_uptimePct:
  "case api_uptime (Some t) name now of
     None \<Rightarrow> False
   | Some (_, n, ev) \<Rightarrow>
       (case fst (upCompute ev (n - windowSec) n) of None \<Rightarrow> -1 | Some p \<Rightarrow> p)
       = uptimePct t name windowSec now"
  by (simp add: api_uptime_def uptimePct_def uptimeSeries_def upCompute_pct)
     (simp add: uptime_of_def split: option.split)

text \<open>Segments that follow each other from one point to another, and the share of them that is up.\<close>

fun tiles :: "rat \<Rightarrow> seg list \<Rightarrow> rat \<Rightarrow> bool" where
  "tiles a [] b \<longleftrightarrow> a = b"
| "tiles a (g # gs) b \<longleftrightarrow> sg_a g = a \<and> a \<le> sg_b g \<and> tiles (sg_b g) gs b"

definition up_width :: "seg list \<Rightarrow> rat" where
  "up_width gs = sum_list (map (\<lambda>g. if sg_u g = Seg_up then sg_b g - sg_a g else 0) gs)"

lemma tiles_snoc: "tiles a gs b \<Longrightarrow> b \<le> c \<Longrightarrow> tiles a (gs @ [\<lparr>sg_a = b, sg_b = c, sg_u = u\<rparr>]) c"
  by (induction a gs b rule: tiles.induct) auto

lemma up_width_snoc:
  "up_width (gs @ [\<lparr>sg_a = a, sg_b = b, sg_u = seg_of u\<rparr>]) = up_width gs + (if u then b - a else 0)"
  by (simp add: up_width_def seg_of_def)

lemma in_span_mono: "0 < wd \<Longrightarrow> s \<le> t \<Longrightarrow> in_span frm wd s \<le> in_span frm wd t"
  by (simp add: in_span_def divide_right_mono)

lemma in_span_diff: "in_span frm wd t - in_span frm wd s = of_int (t - s) / of_int wd"
  by (simp add: in_span_def diff_divide_distrib)

lemma seg_loop_tiles:
  assumes "chronological es" and "\<forall>e \<in> set es. ev_T e \<le> ef \<or> cursor \<le> ev_T e"
    and "cursor \<le> to" and "frm < to"
    and "tiles 0 segs (in_span frm (to - frm) cursor)"
    and "up_width segs = of_int upDur / of_int (to - frm)"
    and "seg_loop frm to ef es cursor cur upDur segs = (cursor', cur', upDur', segs')"
  shows "tiles 0 segs' (in_span frm (to - frm) cursor') \<and> cursor' \<le> to
       \<and> up_width segs' = of_int upDur' / of_int (to - frm)"
  using assms
proof (induction frm to ef es cursor cur upDur segs rule: seg_loop.induct)
  case (2 frm to ef e es cursor cur upDur segs)
  have chron: "chronological es" using "2.prems"(1) by (simp add: chronological_def)
  have later: "\<forall>x \<in> set es. ev_T e \<le> ev_T x" using "2.prems"(1) by (simp add: chronological_def)
  consider "ev_T e \<le> ef" | "ef < ev_T e" "to \<le> ev_T e" | "ef < ev_T e" "ev_T e < to" by linarith
  then show ?case
  proof cases
    case 1
    with "2.IH"(1) [OF 1 chron] "2.prems" show ?thesis by auto
  next
    case 2
    with "2.prems" show ?thesis by auto
  next
    case 3
    let ?segs = "segs @ [\<lparr>sg_a = in_span frm (to - frm) cursor, sg_b = in_span frm (to - frm) (ev_T e),
                       sg_u = seg_of cur\<rparr>]"
    have "in_span frm (to - frm) cursor \<le> in_span frm (to - frm) (ev_T e)"
      using "2.prems"(2,4) 3 by (intro in_span_mono) auto
    then have t: "tiles 0 ?segs (in_span frm (to - frm) (ev_T e))"
      using "2.prems"(5) by (rule tiles_snoc [rotated])
    have w: "up_width ?segs = of_int (if cur then upDur + (ev_T e - cursor) else upDur) / of_int (to - frm)"
      unfolding up_width_snoc in_span_diff using "2.prems"(6) by (simp add: add_divide_distrib)
    show ?thesis
      by (rule "2.IH"(2)) (use 3 chron later t w "2.prems"(4,7) in auto)
  qed
qed auto

text \<open>
  The segments cover the whole window, from left to right without gap or overlap, and the share of them
  that is up is the percentage of the part for which there is data.
\<close>

lemma segments_exact:
  assumes "chronological ev" and "frm < to" and "ev = [] \<or> ev_T (hd ev) < to"
  shows "tiles 0 (snd (upCompute ev frm to)) 1 \<and>
    up_width (snd (upCompute ev frm to)) =
      (case fst (upCompute ev frm to) of
         None \<Rightarrow> 0
       | Some p \<Rightarrow> p / 100 * of_int (to - max frm (ev_T (hd ev))) / of_int (to - frm))"
proof (cases "ev = []")
  case True
  then show ?thesis by (simp add: upCompute_def up_width_def)
next
  case False
  let ?wd = "to - frm" and ?ef = "if frm < ev_T (hd ev) then ev_T (hd ev) else frm"
  let ?st = "entry_state ?ef (ev_U (hd ev)) ev"
  let ?segs = "if frm < ?ef then [\<lparr>sg_a = 0, sg_b = in_span frm ?wd ?ef, sg_u = Seg_nd\<rparr>] else []"
  obtain c s d gs where run: "seg_loop frm to ?ef ev ?ef ?st 0 ?segs = (c, s, d, gs)" by (metis prod_cases4)
  have le: "?ef < to" using assms False by auto
  have wd: "0 < ?wd" using assms by simp
  have start: "tiles 0 ?segs (in_span frm ?wd ?ef)" "up_width ?segs = of_int 0 / of_int ?wd"
    using wd by (auto simp: in_span_def up_width_def)
  have inv: "tiles 0 gs (in_span frm ?wd c) \<and> c \<le> to \<and> up_width gs = of_int d / of_int ?wd"
    by (rule seg_loop_tiles [OF assms(1) _ _ assms(2) start run]) (use le in auto)
  have one: "in_span frm ?wd to = 1" using wd by (simp add: in_span_def)
  then have "in_span frm ?wd c \<le> 1" using inv in_span_mono [OF wd, of c to frm] by simp
  moreover have "1 - in_span frm ?wd c = of_int (to - c) / of_int ?wd"
    using in_span_diff [of frm ?wd to c] one by simp
  moreover have "upCompute ev frm to =
      (Some (of_int (if s then d + (to - c) else d) / of_int (to - ?ef) * 100),
       gs @ [\<lparr>sg_a = in_span frm ?wd c, sg_b = 1, sg_u = seg_of s\<rparr>])"
    unfolding upCompute_def Let_def run using False le by simp
  moreover have "max frm (ev_T (hd ev)) = ?ef" by simp
  ultimately show ?thesis
    using inv le by (simp add: tiles_snoc up_width_snoc add_divide_distrib [symmetric] del: of_int_add of_int_diff)
qed

section \<open>What a browser reads back\<close>

text \<open>The references \<open>esc\<close> writes, as an HTML parser reads them.\<close>

definition entity :: "string \<Rightarrow> (char \<times> nat) option" where
  "entity s =
     (if has_prefix s ''amp;'' then Some (CHR ''&'', 4)
      else if has_prefix s ''lt;'' then Some (CHR ''<'', 3)
      else if has_prefix s ''gt;'' then Some (CHR ''>'', 3)
      else if has_prefix s ''quot;'' then Some (CHR 0x22, 5)
      else if has_prefix s ''#39;'' then Some (CHR 0x27, 4)
      else None)"

function html_text :: "string \<Rightarrow> string" where
  "html_text [] = []"
| "html_text (ch # s) =
     (if ch = CHR ''&''
      then (case entity s of None \<Rightarrow> ch # html_text s | Some (d, k) \<Rightarrow> d # html_text (drop k s))
      else ch # html_text s)"
  by pat_completeness auto
termination by (relation "measure length") auto

text \<open>A JavaScript string literal in double quotes; \<open>None\<close> is a syntax error.\<close>

definition hex_val :: "char \<Rightarrow> nat option" where
  "hex_val c =
     (let n = of_char c :: nat in
      if 48 \<le> n \<and> n \<le> 57 then Some (n - 48)
      else if 97 \<le> n \<and> n \<le> 102 then Some (n - 87)
      else if 65 \<le> n \<and> n \<le> 70 then Some (n - 55) else None)"

fun literal_rest :: "string \<Rightarrow> string option" where
  "literal_rest [] = None"
| "literal_rest (c # s) =
     (if c = CHR 0x22 then (if s = [] then Some [] else None)
      else if c = CHR 0x5C then
        (case s of
           [] \<Rightarrow> None
         | e # r \<Rightarrow>
             (if e = CHR ''u'' then
                (case r of
                   a # b # x # y # r' \<Rightarrow>
                     (case (hex_val x, hex_val y) of
                        (Some i, Some j) \<Rightarrow>
                          (if a = CHR ''0'' \<and> b = CHR ''0''
                           then map_option ((#) (char_of (16 * i + j))) (literal_rest r') else None)
                      | _ \<Rightarrow> None)
                 | _ \<Rightarrow> None)
              else map_option ((#) (if e = CHR ''b'' then char_of (8 :: nat)
                                    else if e = CHR ''t'' then char_of (9 :: nat)
                                    else if e = CHR ''n'' then char_of (10 :: nat)
                                    else if e = CHR ''f'' then char_of (12 :: nat)
                                    else if e = CHR ''r'' then char_of (13 :: nat) else e))
                     (literal_rest r)))
      else if of_char c \<in> {10, 13 :: nat} then None
      else map_option ((#) c) (literal_rest s))"

fun js_literal :: "string \<Rightarrow> string option" where
  "js_literal (c # s) = (if c = CHR 0x22 then literal_rest s else None)"
| "js_literal [] = None"

lemma html_text_esc_char: "html_text (esc_char c @ s) = c # html_text s"
  by (simp add: esc_char_def entity_def has_prefix_def)

lemma html_text_esc: "html_text (esc s) = s"
proof -
  have "html_text (concat (map esc_char s) @ []) = s @ []"
    by (induction s) (simp_all only: list.map concat.simps append.simps append_assoc html_text_esc_char html_text.simps)
  then show ?thesis by (simp add: esc_def)
qed

lemma hex_val_hex_char: "d < 16 \<Longrightarrow> hex_val (hex_char d) = Some d"
  by (auto simp: hex_val_def hex_char_def digit_char_def Let_def)

lemma char_is: "of_char c = (n :: nat) \<Longrightarrow> c = char_of n"
  by auto

lemma literal_rest_json_char: "literal_rest (json_char c @ s) = map_option ((#) c) (literal_rest s)"
proof -
  let ?n = "of_char c :: nat"
  consider "c = CHR 0x22" | "c = CHR 0x5C" | "?n = 8" | "?n = 9" | "?n = 10" | "?n = 12" | "?n = 13"
    | "c \<noteq> CHR 0x22" "c \<noteq> CHR 0x5C" "?n \<notin> {8, 9, 10, 12, 13}" "?n < 32"
    | "c \<noteq> CHR 0x22" "c \<noteq> CHR 0x5C" "32 \<le> ?n" by (cases "?n < 32") auto
  then show ?thesis
  proof cases
    case 8
    then have "json_char c =
        [CHR 0x5C, CHR ''u'', CHR ''0'', CHR ''0'', hex_char (?n div 16), hex_char (?n mod 16)]"
      by (simp add: json_char_def Let_def)
    moreover have "hex_val (hex_char (?n div 16)) = Some (?n div 16)"
      "hex_val (hex_char (?n mod 16)) = Some (?n mod 16)" using 8 by (simp_all add: hex_val_hex_char)
    moreover have "char_of (16 * (?n div 16) + ?n mod 16) = c"
      unfolding mult_div_mod_eq by simp
    ultimately show ?thesis by simp
  qed (auto simp: json_char_def Let_def dest!: char_is)
qed

lemma literal_rest_json: "literal_rest (concat (map json_char s) @ [CHR 0x22]) = Some s"
  by (induction s) (simp_all add: literal_rest_json_char)

definition markup_chars :: "char set" where
  "markup_chars = {CHR ''<'', CHR ''>'', CHR 0x22, CHR 0x27}"

lemma esc_char_plain: "set (esc_char c) \<inter> markup_chars = {}"
  by (simp add: esc_char_def markup_chars_def)

lemma esc_plain: "set (esc s) \<inter> markup_chars = {}"
  using esc_char_plain by (fastforce simp: esc_def)

text \<open>
  C15. Whatever a client is called, its name is passed to the handlers of its buttons exactly: what
  \<open>A\<close> writes cannot end the attribute or open a tag, and the browser, which decodes the
  attribute and then parses it as JavaScript, reads a string literal with that name.
\<close>

theorem handler_argument_roundtrip:
  "js_literal (html_text (A s)) = Some s \<and> set (A s) \<inter> {CHR ''<'', CHR ''>'', CHR 0x22, CHR 0x27} = {}"
  using esc_plain [of "json_string s"]
  by (simp add: A_def html_text_esc json_string_def literal_rest_json markup_chars_def)

section \<open>Lemmas on numbers and links\<close>

lemma fmtU_parts:
  assumes "0 \<le> d" "0 \<le> h" "h < 24" "0 \<le> m" "m < 60" "0 \<le> r" "r < 60"
  shows "fmtU (Some (of_int (86400 * d + 3600 * h + 60 * m + r))) =
     (if d \<noteq> 0 then itoa d @ ''d '' @ itoa h @ ''h '' @ itoa m @ ''m''
      else if h \<noteq> 0 then itoa h @ ''h '' @ itoa m @ ''m''
      else itoa m @ ''m'')"
proof -
  let ?s = "86400 * d + 3600 * h + 60 * m + r"
  have rem: "js_rem a b = a mod b" if "0 \<le> a" "0 < b" for a b
    using that by (cases "a = 0") (simp_all add: js_rem_def go_div_def minus_mult_div_eq_mod)
  have split: "(b * q + k) div b = q" "(b * q + k) mod b = k" if "0 \<le> k" "k < b" for b q k :: int
    using that by simp_all
  have d: "?s div 86400 = d" "?s mod 86400 = 3600 * h + 60 * m + r"
    using split [of "3600 * h + 60 * m + r" 86400 d] assms by (simp_all add: add.assoc)
  have h: "(3600 * h + 60 * m + r) div 3600 = h" "(3600 * h + 60 * m + r) mod 3600 = 60 * m + r"
    using split [of "60 * m + r" 3600 h] assms by (simp_all add: add.assoc)
  have m: "(60 * m + r) div 60 = m" using split [of r 60 m] assms by simp
  have "0 \<le> ?s" using assms by simp
  then show ?thesis
    using assms unfolding fmtU_def option.case floor_of_int Let_def
    by (simp add: rem d h m)
qed

text \<open>The unit chosen: the number is scaled exactly, and the last unit is not left too early.\<close>

lemma unit_loop_scales:
  "0 < base \<Longrightarrow> unit_loop base limit n i = (m, j) \<Longrightarrow> i \<le> limit \<Longrightarrow>
     i \<le> j \<and> j \<le> limit \<and> n = m * base ^ (j - i) \<and> (i < j \<longrightarrow> 1 \<le> m) \<and> (j < limit \<longrightarrow> m < base)"
proof (induction base limit n i rule: unit_loop.induct)
  case (1 base limit n i)
  show ?case
  proof (cases "base \<le> n \<and> i < limit")
    case True
    then have run: "unit_loop base limit (n / base) (i + 1) = (m, j)"
      using "1.prems"(2) by (simp add: unit_loop.simps [of base limit n])
    have IH: "i + 1 \<le> j \<and> j \<le> limit \<and> n / base = m * base ^ (j - (i + 1))
        \<and> (i + 1 < j \<longrightarrow> 1 \<le> m) \<and> (j < limit \<longrightarrow> m < base)"
      by (rule "1.IH" [OF True "1.prems"(1) run]) (use True in simp)
    then have "n = m * base ^ Suc (j - (i + 1))" using "1.prems"(1) by (simp add: field_simps)
    moreover have "Suc (j - (i + 1)) = j - i" using IH by arith
    ultimately have n: "n = m * base ^ (j - i)" by (simp only:)
    have "1 \<le> m" if "j = i + 1"
      using IH True that "1.prems"(1) by (simp add: field_simps)
    with n IH show ?thesis by (cases "j = i + 1") simp_all
  next
    case False
    with "1.prems" show ?thesis by (auto simp: unit_loop.simps [of base limit n])
  qed
qed

lemma fmtB_scales:
  assumes "0 < n"
  obtains m i where "fmtB n = toFixed (if i \<noteq> 0 then 1 else 0) m @ '' '' @ [''B'', ''KB'', ''MB'', ''GB'', ''TB''] ! i"
    and "i \<le> 4" "n = m * 1024 ^ i" "0 < i \<longrightarrow> 1 \<le> m" "i < 4 \<longrightarrow> m < 1024"
proof -
  obtain m i where u: "unit_loop 1024 4 n 0 = (m, i)" by (cases "unit_loop 1024 4 n 0")
  from unit_loop_scales [OF _ u] have "i \<le> 4" "n = m * 1024 ^ i" "0 < i \<longrightarrow> 1 \<le> m" "i < 4 \<longrightarrow> m < 1024"
    by simp_all
  moreover have "fmtB n = toFixed (if i \<noteq> 0 then 1 else 0) m @ '' '' @ [''B'', ''KB'', ''MB'', ''GB'', ''TB''] ! i"
    using u assms by (simp add: fmtB_def)
  ultimately show ?thesis by (rule that [rotated])
qed

text \<open>A link the page offers is for the web: no other scheme gets into an \<open>href\<close>.\<close>

lemma safeHref_scheme:
  "safeHref u = [] \<or> takeWhile (\<lambda>c. c \<noteq> CHR '':'') (to_lower (safeHref u)) \<in> {''http'', ''https''}"
proof (cases "http_scheme u")
  case True
  have "takeWhile (\<lambda>c. c \<noteq> CHR '':'') s = p" if "has_prefix s (p @ '':'' @ q)" "CHR '':'' \<notin> set p" for s p q
  proof -
    have "take (length (p @ '':'' @ q)) s = p @ '':'' @ q" using that(1) by (simp only: has_prefix_def)
    then have s: "s = p @ CHR '':'' # q @ drop (length (p @ '':'' @ q)) s"
      by (metis append_take_drop_id append_assoc append_Cons append_Nil)
    show ?thesis by (subst s, rule takeWhile_upto) (use that(2) in auto)
  qed
  from this [of "to_lower u" "''http''" "''//''"] this [of "to_lower u" "''https''" "''//''"] True
  show ?thesis by (auto simp: http_scheme_def safeHref_def)
qed (simp add: safeHref_def)

text \<open>The links lead to the sibling labels of the page's own host name.\<close>

lemma linkUrl_sibling:
  assumes "CHR ''.'' \<notin> set own" and "host \<noteq> []"
  shows "linkUrl \<lparr>lo_protocol = proto, lo_host = own @ CHR ''.'' # parent\<rparr> host
       = proto @ ''//'' @ host @ ''.'' @ parent"
proof -
  have "split_on (CHR ''.'') (own @ CHR ''.'' # parent) = own # split_on (CHR ''.'') parent"
    using assms(1) by (rule split_on_append_sep)
  moreover have "1 \<le> length (split_on (CHR ''.'') parent)" by (simp add: Suc_le_eq)
  ultimately show ?thesis using assms(2) by (simp add: linkUrl_def join_split_on)
qed

text \<open>Opened by its IP address, the panel takes the tail of the address for the parent domain.\<close>

lemma linkUrl_on_an_address:
  "linkUrl \<lparr>lo_protocol = ''http:'', lo_host = ''192.168.1.5:8080''\<rparr> ''web'' = ''http://web.168.1.5:8080''"
  by (simp add: linkUrl_def)

end
