(* ===== verification/Page_View.thy ===== *)
theory Page_View
  imports Page "HOL-Library.Multiset"
begin

text \<open>
  The HTML the dashboard's script builds (\<open>internal/monitor/page.go\<close>): the small graphics, the
  dialogs, and the rows of the table, from the rows \<open>/api/status\<close> returned. A dialog is the string
  given to \<open>innerHTML\<close>; \<open>clock\<close> prints a time of day in the browser's locale. The
  fetches, the disabling of buttons and the opening of dialogs are left out. \<open>visible\<close> is the text a
  browser shows of the HTML.
\<close>

section \<open>Text outside ASCII\<close>

definition em_dash :: string where "em_dash = [CHR 0xE2, CHR 0x80, CHR 0x94]"
definition mid_dot :: string where "mid_dot = [CHR 0xC2, CHR 0xB7]"
definition arrow_down :: string where "arrow_down = [CHR 0xE2, CHR 0x86, CHR 0x93]"
definition arrow_up :: string where "arrow_up = [CHR 0xE2, CHR 0x86, CHR 0x91]"
definition warning_sign :: string where "warning_sign = [CHR 0xE2, CHR 0x9A, CHR 0xA0]"

section \<open>Graphics\<close>

definition svg_size :: "int \<Rightarrow> int \<Rightarrow> string" where
  \<open>svg_size w h = ''<svg width="'' @ itoa w @ ''" height="'' @ itoa h @ ''"''\<close>

text \<open>The points of the line, as pairs of coordinates.\<close>

definition spark_points :: "rat list \<Rightarrow> int \<Rightarrow> int \<Rightarrow> (rat \<times> rat) list" where
  "spark_points vals w h =
     (let mx = fold max vals 1;
          dx = of_int w / of_nat (max 1 (length vals - 1))
      in map (\<lambda>(i, v). (of_nat i * dx, of_int h - (v / mx) * (of_int h - 2) - 1)) (enumerate 0 vals))"

definition spark :: "rat list \<Rightarrow> int \<Rightarrow> int \<Rightarrow> string \<Rightarrow> string" where
  \<open>spark vals w h color =
     (if vals = [] then svg_size w h @ ''></svg>''
      else svg_size w h @ ''><polyline fill="none" stroke="'' @ color @ ''" stroke-width="1.5" points="''
           @ join '' '' (map (\<lambda>(x, y). toFixed 1 x @ '','' @ toFixed 1 y) (spark_points vals w h))
           @ ''"/></svg>'')\<close>

text \<open>Bars for the reconnections \<open>(t, d)\<close> of each interval.\<close>

definition rec_rect :: "int \<Rightarrow> rat \<Rightarrow> rat \<Rightarrow> nat \<times> int \<times> int \<Rightarrow> string" where
  \<open>rec_rect h mx bw p =
     (let (i, t, d) = p;
          bh = (if 0 < d then max 2 ((of_int d / mx) * (of_int h - 16)) else 0)
      in ''<rect x="'' @ toFixed 1 (of_nat i * bw) @ ''" y="'' @ toFixed 1 (of_int h - 14 - bh)
         @ ''" width="'' @ toFixed 1 (max 1 (bw - 1)) @ ''" height="'' @ toFixed 1 bh @ ''" fill="''
         @ (if 0 < d then ''var(--warn)'' else ''transparent'') @ ''"/>'')\<close>

definition recBars :: "(int \<times> int) list \<Rightarrow> int \<Rightarrow> int \<Rightarrow> string" where
  \<open>recBars pts w h =
     (if pts = [] then svg_size w h @ ''></svg>''
      else
        let mx = of_int (fold max (map snd pts) 1);
            bw = of_int w / of_nat (length pts);
            s = concat (map (rec_rect h mx bw) (enumerate 0 pts));
            s = s @ ''<line x1="0" y1="'' @ itoa (h - 14) @ ''" x2="'' @ itoa w @ ''" y2="'' @ itoa (h - 14)
                  @ ''" stroke="var(--border)"/>''
        in svg_size w h @ '' style="max-width:100%">'' @ s @ ''</svg>'')\<close>

definition seg_color :: "seg_state \<Rightarrow> string" where
  "seg_color u =
     (if u = Seg_up then ''var(--up)'' else if u = Seg_down then ''var(--down)'' else ''var(--border)'')"

text \<open>One segment on a bar of width \<open>w\<close>: where its rectangle starts, how wide it is, and its colour.\<close>

definition bar_rect :: "int \<Rightarrow> seg \<Rightarrow> rat \<times> rat \<times> string" where
  "bar_rect w g = (sg_a g * of_int w, max (1 / 2) ((sg_b g - sg_a g) * of_int w), seg_color (sg_u g))"

definition upBarSvg :: "seg list \<Rightarrow> int \<Rightarrow> int \<Rightarrow> string" where
  \<open>upBarSvg segs w h =
     svg_size w h @ '' style="border-radius:3px;max-width:100%">''
     @ concat (map (\<lambda>g.
         let (x, ww, col) = bar_rect w g
         in ''<rect x="'' @ toFixed 1 x @ ''" y="0" width="'' @ toFixed 1 ww @ ''" height="'' @ itoa h
            @ ''" fill="'' @ col @ ''"/>'') segs)
     @ ''</svg>''\<close>

section \<open>Dialogs\<close>

definition openTraffic :: "last_rows \<Rightarrow> string \<Rightarrow> portRow list \<Rightarrow> dayRow list \<Rightarrow> string" where
  \<open>openTraffic LAST name ports days =
     ''<h3>'' @ T LAST name @ '' '' @ em_dash @ '' traffic by port</h3><table><tr><th>Port</th><th>''
     @ arrow_down @ '' received</th><th>'' @ arrow_up @ '' sent</th></tr>''
     @ concat (map (\<lambda>p.
         ''<tr><td class=mono>'' @ show_nat (unat (pw_Port p)) @ ''</td><td class=mono>'' @ fmtB (of_nat (unat (pw_Rx p)))
         @ ''</td><td class=mono>'' @ fmtB (of_nat (unat (pw_Tx p))) @ ''</td></tr>'') ports)
     @ (if ports = [] then ''<tr><td colspan=3 class=muted>no data</td></tr>'' else [])
     @ ''</table><h3>Traffic by day</h3><table><tr><th>Date</th><th>Total</th></tr>''
     @ concat (map (\<lambda>x.
         ''<tr><td class=mono>'' @ dw_Date x @ ''</td><td class=mono>'' @ fmtB (of_nat (unat (dw_Bytes x)))
         @ ''</td></tr>'') days)
     @ (if days = [] then ''<tr><td colspan=2 class=muted>no data</td></tr>'' else [])
     @ ''</table>''\<close>

text \<open>The loop of \<open>openRec\<close> over neighbouring samples: the bars, their sum, and the time of the last.\<close>

fun rec_loop :: "sample \<Rightarrow> sample list \<Rightarrow> (int \<times> int) list \<Rightarrow> int \<Rightarrow> int \<Rightarrow> (int \<times> int) list \<times> int \<times> int" where
  "rec_loop prev [] pts win lastTs = (pts, win, lastTs)"
| "rec_loop prev (x # xs) pts win lastTs =
     (let d = Rec x - Rec prev;
          d = (if d < 0 then 0 else d)
      in if 0 < d then rec_loop x xs (pts @ [(Ts x, d)]) (win + d) (Ts x)
         else rec_loop x xs (pts @ [(Ts x, d)]) win lastTs)"

definition rec_window :: "sample list \<Rightarrow> (int \<times> int) list \<times> int \<times> int" where
  "rec_window h = (case h of [] \<Rightarrow> ([], 0, 0) | x # xs \<Rightarrow> rec_loop x xs [] 0 0)"

definition openRec :: "(int \<Rightarrow> string) \<Rightarrow> last_rows \<Rightarrow> string \<Rightarrow> string option" where
  \<open>openRec clock LAST name =
     (case get LAST name of
        None \<Rightarrow> None
      | Some c \<Rightarrow>
          (let h = rw_Hist c;
               (pts, win, lastTs) = rec_window h;
               spanS = (if 1 < length h then Ts (last h) - Ts (hd h) else 0);
               perHour = (if 0 < spanS then of_int (win * 3600) / of_int spanS else 0)
           in Some
             (''<h3>'' @ T LAST name @ '' '' @ em_dash @ '' reconnections</h3>''
              @ ''<div class="mono" style="margin:.3rem 0 .6rem">all-time total: <b>'' @ itoa (rw_Reconnects c)
              @ ''</b> '' @ mid_dot @ '' in window ('' @ fmtU (Some (of_int spanS)) @ ''): <b>'' @ itoa win
              @ ''</b> '' @ mid_dot @ '' ~'' @ toFixed 1 perHour @ ''/h''
              @ (if lastTs \<noteq> 0 then '' '' @ mid_dot @ '' last drop: '' @ clock lastTs
                 else '' '' @ mid_dot @ '' no drops in window'')
              @ ''</div>'' @ recBars pts 520 90
              @ ''<div class="muted" style="font-size:.75rem;margin-top:.3rem">each bar = reconnections in that interval (~5s); window ~10 min</div>'')))\<close>

definition shown_port :: "port_info \<Rightarrow> string" where
  "shown_port p = (if pi_Name p \<noteq> [] then esc (pi_Name p) @ '' '' else []) @ '':'' @ show_nat (unat (pi_Port p))"

definition portsLine :: "row \<Rightarrow> string" where
  \<open>portsLine c =
     (let parts = (if rw_PortInfo c \<noteq> [] then map shown_port (rw_PortInfo c)
                   else map (\<lambda>p. '':'' @ show_nat (unat p)) (rw_Ports c))
      in (if rw_Title c \<noteq> [] then esc (rw_Name c) @ ''<br>'' else []) @ join ('' '' @ mid_dot @ '' '') parts)\<close>

text \<open>What the check of a port shows, and in which colour: the text of an error, or a result.\<close>

definition probePort :: "string + probe_result \<Rightarrow> string \<times> string" where
  "probePort r =
     (case r of
        Inl body \<Rightarrow> (''var(--warn)'', trim_space body)
      | Inr d \<Rightarrow>
          (if pr_Level d = ''ok'' then ''var(--up)''
           else if pr_Level d = ''warn'' then ''var(--warn)'' else ''var(--down)'',
           pr_Message d @ (if pr_LatencyMS d \<noteq> 0
                           then '' '' @ mid_dot @ '' '' @ toFixed 0 (pr_LatencyMS d) @ '' ms'' else [])))"

definition link_to :: "string \<Rightarrow> string \<Rightarrow> string" where
  \<open>link_to href shown =
     ''<a class="svc" href="'' @ esc href @ ''" target="_blank" rel="noopener">'' @ esc shown @ ''</a>''\<close>

definition port_row :: "row \<Rightarrow> string \<Rightarrow> port_info \<Rightarrow> string" where
  \<open>port_row c name p =
     (let n = show_nat (unat (pi_Port p));
          fwd = pi_Port p \<in> set (rw_Ports c);
          href = safeHref (pi_URL p);
          url = (if pi_URL p = [] then ''<span class="muted">-</span>''
                 else if href \<noteq> [] then link_to href (strip_scheme (pi_URL p))
                 else ''<span class="mono">'' @ esc (pi_URL p) @ ''</span>'');
          chk = (if fwd
                 then ''<button onclick="probePort('' @ A name @ '','' @ n
                      @ '',this)">Test</button> <span id="pr'' @ n @ ''" class="mono"></span>''
                 else ''<span class="muted">not forwarded now</span>'')
      in ''<tr><td class="mono">'' @ n @ ''</td><td>''
         @ (if pi_Name p \<noteq> [] then esc (pi_Name p) else ''<span class="muted">-</span>'')
         @ ''</td><td>'' @ url @ ''</td><td style="white-space:normal">'' @ chk @ ''</td></tr>'')\<close>

text \<open>\<open>/^https?:\/\//\<close>, without the \<open>i\<close>: the protocol of a location is in lower case.\<close>

definition strip_lower_scheme :: "string \<Rightarrow> string" where
  "strip_lower_scheme u =
     (if has_prefix u ''http://'' then drop 7 u else if has_prefix u ''https://'' then drop 8 u else u)"

definition link_row :: "string \<times> string \<times> string \<Rightarrow> string" where
  \<open>link_row x =
     (let (kind, label, url) = x
      in ''<tr><td>'' @ esc kind @ ''</td><td class="mono">'' @ esc label @ ''</td><td>''
         @ link_to url (strip_lower_scheme url) @ ''</td></tr>'')\<close>

definition openLinks :: "location \<Rightarrow> last_rows \<Rightarrow> string \<Rightarrow> string" where
  \<open>openLinks loc LAST name =
     (let c = (case get LAST name of None \<Rightarrow> zero_row | Some c \<Rightarrow> c);
          pis = rw_PortInfo c;
          rows = filter (\<lambda>(kind, label, url). url \<noteq> [])
                   (map (\<lambda>l. (lk_Kind l, lk_Label l, linkUrl loc (lk_Host l))) (rw_Links c))
      in ''<h3>'' @ T LAST name @ '' '' @ em_dash @ '' tunnel</h3>''
         @ (if rw_Title c \<noteq> []
            then ''<div class="mono muted" style="margin:-.2rem 0 .5rem">'' @ esc name @ ''</div>'' else [])
         @ (if pis \<noteq> []
            then ''<table><tr><th>Port</th><th>Service</th><th>Expected URL</th><th>Check</th></tr>''
                 @ concat (map (port_row c name) pis) @ ''</table>''
            else [])
         @ (if rows \<noteq> []
            then ''<h3>Web links</h3><table><tr><th></th><th>target</th><th>link</th></tr>''
                 @ concat (map link_row rows) @ ''</table>''
            else [])
         @ (if pis = [] \<and> rows = []
            then ''<div class="muted">nothing to show: no forwarded ports and no web links (see clients.json and TK_SERVER_LINKS)</div>''
            else []))\<close>

definition upColor :: "rat \<Rightarrow> string" where
  "upColor p =
     (if 995 / 10 \<le> p then ''var(--up)'' else if 95 \<le> p then ''var(--warn)'' else ''var(--down)'')"

definition upCell :: "row \<Rightarrow> string" where
  \<open>upCell c =
     (let p = rw_Uptime24h c in
      if p < 0 then ''<span class="muted">'' @ em_dash @ ''</span>''
      else
        let txt = (if 9995 / 100 \<le> p then toFixed 0 p else toFixed 1 p) @ ''%''
        in ''<button class="link mono" style="color:'' @ upColor p @ ''" onclick="openUptime('' @ A (rw_Name c)
           @ '')" title="availability 24h/7d">'' @ txt @ ''</button>'')\<close>

text \<open>\<open>now\<close> is the server's time in the answer (the browser's own only if that is zero).\<close>

definition uptime_block :: "up_event list \<Rightarrow> int \<Rightarrow> string \<Rightarrow> int \<Rightarrow> string" where
  \<open>uptime_block ev now label win =
     (let (p, segs) = upCompute ev (now - win) now;
          pct = (case p of None \<Rightarrow> ''no data'' | Some p \<Rightarrow> toFixed 2 p @ ''%'')
      in ''<div style="margin:.2rem 0 .7rem"><div class="mono" style="margin-bottom:.25rem">'' @ label
         @ '' '' @ mid_dot @ '' availability <b style="color:''
         @ (case p of None \<Rightarrow> ''var(--muted)'' | Some p \<Rightarrow> upColor p) @ ''">'' @ pct @ ''</b></div>''
         @ upBarSvg segs 560 22 @ ''</div>'')\<close>

definition openUptime :: "last_rows \<Rightarrow> string \<Rightarrow> up_event list \<Rightarrow> int \<Rightarrow> string" where
  \<open>openUptime LAST name ev now =
     ''<h3 style="margin-bottom:.4rem">'' @ T LAST name @ '' '' @ em_dash @ '' availability</h3>''
     @ uptime_block ev now ''Last 24 h'' 86400 @ uptime_block ev now ''Last 7 days'' (7 * 86400)
     @ ''<div class="muted" style="font-size:.72rem">green = connected '' @ mid_dot @ '' red = down '' @ mid_dot
     @ '' grey = no data</div>''\<close>

definition speed_text :: "rat \<Rightarrow> rat \<Rightarrow> string" where
  "speed_text down up = toFixed 1 down @ arrow_down @ '' '' @ toFixed 1 up @ arrow_up"

section \<open>The table\<close>

definition or_name :: "row \<Rightarrow> string" where
  "or_name c = (if rw_Title c \<noteq> [] then rw_Title c else rw_Name c)"

definition pill :: "string \<Rightarrow> string" where
  \<open>pill s = ''<span class="pill">'' @ s @ ''</span>''\<close>

definition pills :: "row list \<Rightarrow> row list \<Rightarrow> row list \<Rightarrow> string" where
  "pills cs on off =
     pill (show_nat (length on) @ '' connected'')
     @ (if off \<noteq> [] then pill (show_nat (length off) @ '' offline'') else [])
     @ pill (itoa (sum_list (map rw_Active on)) @ '' active connections'')
     @ pill (fmtB (sum_list (map (\<lambda>c. of_nat (unat (rw_TrafficToday c))) cs)) @ '' today'')
     @ pill (itoa (sum_list (map rw_Reconnects on)) @ '' reconnections'')"

definition off_html :: "row \<Rightarrow> string" where
  \<open>off_html c =
     ''<tr class="offline"><td><b>'' @ esc (or_name c) @ ''</b>''
     @ (if rw_Title c \<noteq> []
        then ''<br><span class="mono muted" style="font-size:.75rem">'' @ esc (rw_Name c) @ ''</span>'' else [])
     @ ''</td><td><span class="badge down"><span class="dot"></span>OFF</span></td><td class="mono">-</td>''
     @ ''<td class="mono" title="time disconnected">offline '' @ fmtU (Some (rw_OfflineSeconds c))
     @ ''</td><td class="mono">-</td><td class="mono">-</td><td class="mono">-</td><td class="mono">''
     @ fmtB (of_nat (unat (rw_TrafficToday c))) @ ''</td><td class="mono">-</td><td>'' @ upCell c
     @ ''</td></tr>''\<close>

definition speed_cell :: "row \<Rightarrow> string" where
  \<open>speed_cell c =
     (if rw_Speedtest c
      then ''<div class="spark"><button onclick="speed('' @ A (rw_Name c)
           @ '',this)">Measure</button><span class="res mono muted">''
           @ (if rw_LastDown c \<noteq> 0 then speed_text (rw_LastDown c) (rw_LastUp c) else [])
           @ ''</span>'' @ spark (rw_SpeedHist c) 50 20 ''var(--accent)'' @ ''</div>''
      else ''<span class="muted">'' @ em_dash @ ''</span>'')\<close>

definition traffic_cell :: "row \<Rightarrow> string" where
  \<open>traffic_cell c =
     ''<div class="spark"><div>'' @ spark (map RxRate (rw_Hist c)) 60 20 ''var(--rx)''
     @ spark (map TxRate (rw_Hist c)) 60 10 ''var(--tx)''
     @ ''</div><button class="link mono" onclick="openTraffic('' @ A (rw_Name c)
     @ '')" title="view by port/day">'' @ fmtB (of_nat (unat (rw_TrafficToday c))) @ ''</button></div>''\<close>

definition rec_cell :: "row \<Rightarrow> string" where
  \<open>rec_cell c =
     ''<button class="link mono'' @ (if 5 \<le> rw_Reconnects c then '' hi'' else []) @ ''" onclick="openRec(''
     @ A (rw_Name c) @ '')" title="drops over time">'' @ itoa (rw_Reconnects c)
     @ (if 5 \<le> rw_Reconnects c then '' '' @ warning_sign else []) @ ''</button>''\<close>

definition name_cell :: "location \<Rightarrow> row \<Rightarrow> string" where
  \<open>name_cell loc c =
     (let u = mainUrl loc c; t = esc (or_name c)
      in if u \<noteq> []
         then ''<a class="svc" href="'' @ esc u
              @ ''" target="_blank" rel="noopener" title="open main web">'' @ t @ ''</a>''
         else ''<b>'' @ t @ ''</b>'')\<close>

definition on_html :: "location \<Rightarrow> row \<Rightarrow> string" where
  \<open>on_html loc c =
     ''<tr><td>'' @ name_cell loc c @ ''<br><span class="mono muted" style="font-size:.75rem">'' @ portsLine c
     @ ''</span></td><td><button class="badge up linkbadge" onclick="openLinks('' @ A (rw_Name c)
     @ '')" title="tunnel links (main + backup)"><span class="dot"></span>ON</button></td><td class="mono">''
     @ (if rw_IP c \<noteq> [] then rw_IP c else ''-'') @ ''</td><td class="mono">'' @ fmtU (Some (rw_Uptime c))
     @ ''</td><td class="mono">'' @ itoa (rw_Active c) @ ''</td><td>'' @ rec_cell c
     @ ''</td><td class="mono muted">''
     @ (if rw_Latency c \<noteq> 0 then toFixed 0 (rw_Latency c) @ '' ms'' else ''-'')
     @ ''</td><td>'' @ traffic_cell c @ ''</td><td>'' @ speed_cell c @ ''</td><td>'' @ upCell c
     @ ''</td></tr>''\<close>

text \<open>
  What a tick sets from the time (\<open>gen\<close>) and the rows of the answer: the table of last rows, the time, the pills, and
  the rows of the page.
\<close>

record view =
  vw_LAST :: last_rows
  vw_on :: "row list"
  vw_off :: "row list"
  vw_gen :: string
  vw_sum :: string
  vw_rows :: string

definition tick :: "(int \<Rightarrow> string) \<Rightarrow> int \<Rightarrow> location \<Rightarrow> row list \<Rightarrow> view" where
  \<open>tick clock gen loc cs =
     (let on = filter rw_Connected cs;
          off = sort_key (\<lambda>c. - rw_OfflineSeconds c) (filter (\<lambda>c. \<not> rw_Connected c) cs);
          html = concat (map (on_html loc) on) @ concat (map off_html off)
      in \<lparr>vw_LAST = set_LAST cs, vw_on = on, vw_off = off,
          vw_gen = (if gen \<noteq> 0 then ''updated '' @ clock gen else []), vw_sum = pills cs on off,
          vw_rows = (if html \<noteq> [] then html
                     else ''<tr><td colspan="10" class="muted">no clients</td></tr>'')\<rparr>)\<close>

section \<open>The texts of the operator do not reach the markup\<close>

definition markup :: "string \<Rightarrow> string" where
  "markup s = filter (\<lambda>c. c \<in> markup_chars) s"

lemma markup_Nil: "markup [] = []"
  and markup_append: "markup (s @ t) = markup s @ markup t"
  and markup_if: "markup (if b then s else t) = (if b then markup s else markup t)"
  by (simp_all add: markup_def)

lemma markup_concat: "markup (concat ss) = concat (map markup ss)"
  by (induction ss) (simp_all add: markup_Nil markup_append)

lemma markup_esc: "markup (esc s) = []"
  using esc_plain [of s] by (auto simp: markup_def filter_empty_conv)

lemma markup_A: "markup (A s) = []"
  by (simp add: A_def markup_esc)

lemmas markup_simps = markup_Nil markup_append markup_if markup_concat markup_esc markup_A append_Nil

lemma markup_join: "map markup xs = map markup ys \<Longrightarrow> markup (join sep xs) = markup (join sep ys)"
proof (induction sep xs arbitrary: ys rule: join.induct)
  case (3 sep x y xs)
  then obtain x' y' ys' where ys: "ys = x' # y' # ys'" by (auto simp: Cons_eq_map_conv)
  with 3 show ?case by (simp add: markup_append)
qed (auto simp: Cons_eq_map_conv)

text \<open>
  Every text an operator or a client chooses, replaced by \<open>x\<close>: only whether it is empty, and whether a
  URL is for the web, is kept. The IP address and the kinds of links come from the server's code.
\<close>

definition mask :: "string \<Rightarrow> string" where
  "mask s = (if s = [] then [] else ''x'')"

definition mask_url :: "string \<Rightarrow> string" where
  "mask_url u = (if http_scheme u then ''http://x'' else mask u)"

definition mask_port :: "port_info \<Rightarrow> port_info" where
  "mask_port p = p\<lparr>pi_Name := mask (pi_Name p), pi_URL := mask_url (pi_URL p)\<rparr>"

definition mask_link :: "link \<Rightarrow> link" where
  "mask_link l = l\<lparr>lk_Label := mask (lk_Label l), lk_Host := mask (lk_Host l)\<rparr>"

definition mask_row :: "row \<Rightarrow> row" where
  "mask_row c = c\<lparr>rw_Name := mask (rw_Name c), rw_Title := mask (rw_Title c),
     rw_PortInfo := map mask_port (rw_PortInfo c), rw_Links := map mask_link (rw_Links c)\<rparr>"

lemma mask_Nil: "mask s = [] \<longleftrightarrow> s = []"
  by (simp add: mask_def)

lemma http_scheme_Nil: "\<not> http_scheme []"
  by (simp add: http_scheme_def has_prefix_def to_lower_def)

lemma http_scheme_mask: "http_scheme (mask_url u) = http_scheme u"
proof -
  have "http_scheme ''http://x''" "\<not> http_scheme ''x''"
    by (simp_all add: http_scheme_def has_prefix_def to_lower_def to_lower_char_def)
  then show ?thesis by (simp add: mask_url_def mask_def http_scheme_Nil)
qed

lemma mask_url_Nil: "mask_url u = [] \<longleftrightarrow> u = []"
  by (auto simp: mask_url_def mask_def http_scheme_Nil)

lemma safeHref_Nil: "safeHref u = [] \<longleftrightarrow> \<not> http_scheme u"
  by (auto simp: safeHref_def http_scheme_Nil)

lemma linkUrl_mask: "linkUrl loc (mask h) = [] \<longleftrightarrow> linkUrl loc h = []"
  by (simp add: linkUrl_def Let_def mask_Nil)

lemma find_map_inv: "(\<And>x. P (f x) = P x) \<Longrightarrow> find P (map f xs) = map_option f (find P xs)"
  by (induction xs) auto

lemma mainUrl_mask: "mainUrl loc (mask_row c) = [] \<longleftrightarrow> mainUrl loc c = []"
proof -
  have "find (\<lambda>x. lk_Kind x = ''main'') (map mask_link (rw_Links c))
      = map_option mask_link (find (\<lambda>x. lk_Kind x = ''main'') (rw_Links c))"
    by (rule find_map_inv) (simp add: mask_link_def)
  then show ?thesis by (simp add: mainUrl_def mask_row_def mask_link_def linkUrl_mask split: option.split)
qed

lemma mask_port_sel: "pi_Port (mask_port p) = pi_Port p" "pi_Name (mask_port p) = mask (pi_Name p)"
    "pi_URL (mask_port p) = mask_url (pi_URL p)"
  by (simp_all add: mask_port_def)

lemma mask_row_sel: "rw_Title (mask_row c) = mask (rw_Title c)" "rw_PortInfo (mask_row c) = map mask_port (rw_PortInfo c)"
    "rw_Links (mask_row c) = map mask_link (rw_Links c)"
    "rw_Ports (mask_row c) = rw_Ports c" "rw_Uptime24h (mask_row c) = rw_Uptime24h c"
    "rw_OfflineSeconds (mask_row c) = rw_OfflineSeconds c" "rw_TrafficToday (mask_row c) = rw_TrafficToday c"
    "rw_Speedtest (mask_row c) = rw_Speedtest c" "rw_LastDown (mask_row c) = rw_LastDown c"
    "rw_LastUp (mask_row c) = rw_LastUp c" "rw_SpeedHist (mask_row c) = rw_SpeedHist c"
    "rw_Hist (mask_row c) = rw_Hist c" "rw_Reconnects (mask_row c) = rw_Reconnects c"
    "rw_IP (mask_row c) = rw_IP c" "rw_Uptime (mask_row c) = rw_Uptime c"
    "rw_Active (mask_row c) = rw_Active c" "rw_Latency (mask_row c) = rw_Latency c"
    "rw_Connected (mask_row c) = rw_Connected c"
  by (simp_all add: mask_row_def)

lemmas mask_simps = mask_port_sel mask_row_sel mask_Nil mask_url_Nil safeHref_Nil http_scheme_mask
  mainUrl_mask list.map_disc_iff

lemma markup_port_row: "markup (port_row (mask_row c) name' (mask_port p)) = markup (port_row c name p)"
  unfolding port_row_def link_to_def Let_def by (simp only: markup_simps mask_simps)

lemma markup_portsLine: "markup (portsLine (mask_row c)) = markup (portsLine c)"
proof -
  have "markup (shown_port (mask_port p)) = markup (shown_port p)" for p
    unfolding shown_port_def by (simp only: markup_simps mask_simps)
  then have "markup (join sep (map shown_port (map mask_port ps))) = markup (join sep (map shown_port ps))" for sep ps
    by (intro markup_join) simp
  then show ?thesis unfolding portsLine_def Let_def by (simp only: markup_simps mask_simps if_distrib [of "join _"])
qed

lemma markup_upCell: "markup (upCell (mask_row c)) = markup (upCell c)"
  unfolding upCell_def Let_def by (simp only: markup_simps mask_simps)

lemma markup_off_html: "markup (off_html (mask_row c)) = markup (off_html c)"
  unfolding off_html_def by (simp only: markup_simps mask_simps markup_upCell)

lemma markup_on_html: "markup (on_html loc (mask_row c)) = markup (on_html loc c)"
  unfolding on_html_def name_cell_def rec_cell_def traffic_cell_def speed_cell_def Let_def
  by (simp only: markup_simps mask_simps markup_upCell markup_portsLine)

lemma link_row_mask:
  "markup (link_row (kind', label', url')) = markup (link_row (kind, label, url))"
  unfolding link_row_def link_to_def by (simp only: prod.case Let_def markup_simps)

definition shown_links :: "location \<Rightarrow> link list \<Rightarrow> (string \<times> string \<times> string) list" where
  "shown_links loc ls = filter (\<lambda>(kind, label, url). url \<noteq> []) (map (\<lambda>l. (lk_Kind l, lk_Label l, linkUrl loc (lk_Host l))) ls)"

lemma shown_links_mask:
  "map (\<lambda>x. markup (link_row x)) (shown_links loc (map mask_link ls)) = map (\<lambda>x. markup (link_row x)) (shown_links loc ls)
   \<and> (shown_links loc (map mask_link ls) = [] \<longleftrightarrow> shown_links loc ls = [])"
  by (induction ls)
     (auto simp: shown_links_def mask_link_def linkUrl_mask intro: link_row_mask)

lemma markup_openLinks:
  "markup (openLinks loc [(name', mask_row c)] name') =
   markup (openLinks loc [(name, c)] name)"
proof -
  have p: "map markup (map (port_row (mask_row c) name') (map mask_port ps)) = map markup (map (port_row c name) ps)" for ps
    by (simp add: markup_port_row)
  have l: "map markup (map link_row (shown_links loc (map mask_link ls))) = map markup (map link_row (shown_links loc ls))"
    and e: "(shown_links loc (map mask_link ls) = []) = (shown_links loc ls = [])" for ls
    using shown_links_mask [of loc ls] by (simp_all add: comp_def)
  have g: "get [(n, x)] n = Some x" for n :: string and x :: row by simp
  show ?thesis
    unfolding openLinks_def Let_def shown_links_def [symmetric] T_def g option.case
    by (simp only: markup_simps mask_simps p l e)
qed

lemma sort_key_map_inv:
  assumes "\<And>x. k (f x) = k x"
  shows "sort_key k (map f xs) = map f (sort_key k xs)"
proof -
  have "insort_key k (f x) (map f ys) = map f (insort_key k x ys)" for x ys
    by (induction ys) (simp_all add: assms)
  then show ?thesis by (induction xs) simp_all
qed

lemma filter_map_inv: "(\<And>x. P (f x) = P x) \<Longrightarrow> filter P (map f xs) = map f (filter P xs)"
  by (induction xs) simp_all

lemma html_rows_nonempty: "on_html loc c \<noteq> []" "off_html c \<noteq> []"
  by (simp_all add: on_html_def off_html_def)

definition table_html :: "location \<Rightarrow> row list \<Rightarrow> row list \<Rightarrow> string" where
  "table_html loc on off = concat (map (on_html loc) on) @ concat (map off_html off)"

lemma table_html_mask:
  "markup (table_html loc (map mask_row on) (map mask_row off)) = markup (table_html loc on off)"
  "table_html loc (map mask_row on) (map mask_row off) = [] \<longleftrightarrow> table_html loc on off = []"
proof -
  have m: "map markup (map (on_html loc) (map mask_row on)) = map markup (map (on_html loc) on)"
    "map markup (map off_html (map mask_row off)) = map markup (map off_html off)"
    by (simp_all add: markup_on_html markup_off_html)
  show "markup (table_html loc (map mask_row on) (map mask_row off)) = markup (table_html loc on off)"
    unfolding table_html_def by (simp only: markup_append markup_concat m)
  show "table_html loc (map mask_row on) (map mask_row off) = [] \<longleftrightarrow> table_html loc on off = []"
    by (cases on; cases off) (simp_all add: table_html_def html_rows_nonempty)
qed

lemma tick_mask: "vw_on (tick clock gen loc (map mask_row cs)) = map mask_row (vw_on (tick clock gen loc cs))"
    "vw_off (tick clock gen loc (map mask_row cs)) = map mask_row (vw_off (tick clock gen loc cs))"
  by (simp_all add: tick_def Let_def mask_row_sel filter_map_inv sort_key_map_inv)

lemma vw_rows_table:
  \<open>vw_rows (tick clock gen loc cs) =
     (let html = table_html loc (vw_on (tick clock gen loc cs)) (vw_off (tick clock gen loc cs))
      in if html \<noteq> [] then html else ''<tr><td colspan="10" class="muted">no clients</td></tr>'')\<close>
  by (simp only: tick_def table_html_def Let_def view.simps)

text \<open>
  C12. No text of an operator or a client can change the page: the markup of the table, and that of
  the dialog of a client's links, are the same when every name, title, service name, URL, label and host is
  replaced by \<open>x\<close>, except for whether it is empty and whether a URL is for the web.
\<close>

theorem texts_do_not_reach_the_markup:
  "markup (vw_rows (tick clock gen loc cs)) = markup (vw_rows (tick clock gen loc (map mask_row cs)))
   \<and> markup (openLinks loc LAST name) =
       (case get LAST name of
          None \<Rightarrow> markup (openLinks loc [] ''x'')
        | Some c \<Rightarrow> markup (openLinks loc [(''x'', mask_row c)] ''x''))"
proof
  show "markup (vw_rows (tick clock gen loc cs)) = markup (vw_rows (tick clock gen loc (map mask_row cs)))"
    unfolding vw_rows_table Let_def tick_mask table_html_mask markup_if ..
  show "markup (openLinks loc LAST name) =
       (case get LAST name of
          None \<Rightarrow> markup (openLinks loc [] ''x'')
        | Some c \<Rightarrow> markup (openLinks loc [(''x'', mask_row c)] ''x''))"
  proof (cases "get LAST name")
    case None
    moreover have "get [] n = (None :: row option)" "rw_Title zero_row = []" "rw_PortInfo zero_row = []" for n :: string
      by (simp_all add: zero_row_def)
    ultimately show ?thesis
      unfolding openLinks_def T_def Let_def by (simp only: option.case markup_simps list.map concat.simps)
  next
    case (Some c)
    have "openLinks loc LAST name = openLinks loc [(name, c)] name"
      using Some by (simp add: openLinks_def T_def)
    then show ?thesis using Some markup_openLinks [of loc "''x''" c name] by simp
  qed
qed

section \<open>What a browser shows\<close>

text \<open>
  The text of a table as a browser shows it, or copies it: tags are dropped, a cell ends with a tab, a
  row and a line break with a new line, and references are decoded. A tag ends at the first \<open>>\<close>,
  because \<open>esc\<close> writes that character as a reference in the attributes.
\<close>

datatype reading = In_text | In_tag string | In_attrs string | In_ref string

definition tab :: string where "tab = [CHR 0x09]"

definition newline :: string where "newline = [CHR 0x0A]"

definition tag_text :: "string \<Rightarrow> string" where
  "tag_text n = (if n = ''/td'' then tab else if n = ''/tr'' \<or> n = ''br'' then newline else [])"

definition ref_text :: "string \<Rightarrow> string" where
  "ref_text r =
     (if r = ''amp'' then ''&'' else if r = ''lt'' then ''<'' else if r = ''gt'' then ''>''
      else if r = ''quot'' then [CHR 0x22] else if r = ''#39'' then [CHR 0x27]
      else CHR ''&'' # r @ '';'')"

fun shown :: "reading \<Rightarrow> string \<Rightarrow> string" where
  "shown st [] = []"
| "shown In_text (c # s) =
     (if c = CHR ''<'' then shown (In_tag []) s
      else if c = CHR ''&'' then shown (In_ref []) s else c # shown In_text s)"
| "shown (In_tag n) (c # s) =
     (if c = CHR ''>'' then tag_text n @ shown In_text s
      else if c = CHR '' '' then shown (In_attrs n) s else shown (In_tag (n @ [c])) s)"
| "shown (In_attrs n) (c # s) =
     (if c = CHR ''>'' then tag_text n @ shown In_text s else shown (In_attrs n) s)"
| "shown (In_ref r) (c # s) =
     (if c = CHR '';'' then ref_text r @ shown In_text s else shown (In_ref (r @ [c])) s)"

definition visible :: "string \<Rightarrow> string" where
  "visible html = shown In_text html"

text \<open>What the cells of a row say.\<close>

definition up_text :: "row \<Rightarrow> string" where
  "up_text c =
     (let p = rw_Uptime24h c in
      if p < 0 then em_dash else (if 9995 / 100 \<le> p then toFixed 0 p else toFixed 1 p) @ ''%'')"

definition port_text :: "port_info \<Rightarrow> string" where
  "port_text p = (if pi_Name p \<noteq> [] then pi_Name p @ '' '' else []) @ '':'' @ show_nat (unat (pi_Port p))"

definition ports_text :: "row \<Rightarrow> string" where
  "ports_text c =
     (if rw_Title c \<noteq> [] then rw_Name c @ newline else [])
     @ join ('' '' @ mid_dot @ '' '')
         (if rw_PortInfo c \<noteq> [] then map port_text (rw_PortInfo c)
          else map (\<lambda>p. '':'' @ show_nat (unat p)) (rw_Ports c))"

definition row_text :: "string list \<Rightarrow> string" where
  "row_text cells = concat (map (\<lambda>x. x @ tab) cells) @ newline"

definition on_cells :: "row \<Rightarrow> string list" where
  "on_cells c =
     [or_name c @ newline @ ports_text c, ''ON'', if rw_IP c \<noteq> [] then rw_IP c else ''-'',
      fmtU (Some (rw_Uptime c)), itoa (rw_Active c),
      itoa (rw_Reconnects c) @ (if 5 \<le> rw_Reconnects c then '' '' @ warning_sign else []),
      if rw_Latency c \<noteq> 0 then toFixed 0 (rw_Latency c) @ '' ms'' else ''-'',
      fmtB (of_nat (unat (rw_TrafficToday c))),
      if rw_Speedtest c
      then ''Measure'' @ (if rw_LastDown c \<noteq> 0 then speed_text (rw_LastDown c) (rw_LastUp c) else [])
      else em_dash,
      up_text c]"

definition off_cells :: "row \<Rightarrow> string list" where
  "off_cells c =
     [or_name c @ (if rw_Title c \<noteq> [] then newline @ rw_Name c else []), ''OFF'', ''-'',
      ''offline '' @ fmtU (Some (rw_OfflineSeconds c)), ''-'', ''-'', ''-'',
      fmtB (of_nat (unat (rw_TrafficToday c))), ''-'', up_text c]"

subsection \<open>Text that has no markup\<close>

definition plain :: "string \<Rightarrow> bool" where
  "plain s \<longleftrightarrow> set s \<inter> {CHR ''<'', CHR ''>'', CHR ''&''} = {}"

lemma plain_simps [simp]:
  "plain []" "plain (c # s) \<longleftrightarrow> c \<notin> {CHR ''<'', CHR ''>'', CHR ''&''} \<and> plain s"
  "plain (s @ t) \<longleftrightarrow> plain s \<and> plain t"
  by (auto simp: plain_def)

lemma digit_char_no_markup: "d < 10 \<Longrightarrow> digit_char d \<notin> {CHR ''<'', CHR ''>'', CHR ''&''}"
  using digit_val_digit_char [of d] by (auto simp: digit_val_def)

lemma plain_show_nat [simp]: "plain (show_nat n)"
  using digit_char_no_markup by (fastforce simp: plain_def dest: show_nat_digits)

lemma plain_itoa [simp]: "plain (itoa i)"
  by (simp add: itoa_def)

lemma plain_toFixed [simp]: "plain (toFixed f x)"
proof -
  have "plain (replicate k (CHR ''0''))" for k by (induction k) simp_all
  then show ?thesis by (simp add: toFixed_def fraction_digits_def Let_def)
qed

lemma plain_fmtU [simp]: "plain (fmtU s)"
  by (simp add: fmtU_def Let_def split: option.split)

lemma plain_fmtB [simp]: "plain (fmtB n)"
proof (cases "n = 0")
  case False
  obtain m i where u: "unit_loop 1024 4 n 0 = (m, i)" by (cases "unit_loop 1024 4 n 0")
  then have "i \<le> 4" using unit_loop_scales [OF _ u] by simp
  then have "i \<in> {0, 1, 2, 3, 4}" by auto
  then have "plain ([''B'', ''KB'', ''MB'', ''GB'', ''TB''] ! i)" by auto
  with u False show ?thesis by (simp add: fmtB_def)
qed (simp add: fmtB_def)

lemma plain_signs [simp]:
  "plain em_dash" "plain mid_dot" "plain arrow_down" "plain arrow_up" "plain warning_sign"
  by (simp_all add: em_dash_def mid_dot_def arrow_down_def arrow_up_def warning_sign_def)

lemma plain_speed_text [simp]: "plain (speed_text d u)"
  by (simp add: speed_text_def)

lemma plain_colors [simp]: "plain (upColor p)"
  by (simp add: upColor_def)

lemma plain_join: "plain sep \<Longrightarrow> list_all plain xs \<Longrightarrow> plain (join sep xs)"
  by (induction sep xs rule: join.induct) simp_all

lemma shown_plain [simp]: "plain s \<Longrightarrow> shown In_text (s @ t) = s @ shown In_text t"
  by (induction s) simp_all

lemma shown_attr: "CHR ''>'' \<notin> set s \<Longrightarrow> shown (In_attrs n) (s @ t) = shown (In_attrs n) t"
  by (induction s) auto

lemma shown_attr_plain [simp]: "plain s \<Longrightarrow> shown (In_attrs n) (s @ t) = shown (In_attrs n) t"
  by (rule shown_attr) (simp add: plain_def)

lemma shown_attr_esc [simp]: "shown (In_attrs n) (esc s @ t) = shown (In_attrs n) t"
    "shown (In_attrs n) (A s @ t) = shown (In_attrs n) t"
  using esc_plain by (auto intro!: shown_attr simp: A_def markup_chars_def)

lemma shown_esc [simp]: "shown In_text (esc s @ t) = s @ shown In_text t"
proof -
  have "shown In_text (esc_char c @ u) = c # shown In_text u" for c u
    by (simp add: esc_char_def ref_text_def)
  then have "shown In_text (concat (map esc_char s) @ t) = s @ shown In_text t" by (induction s) simp_all
  then show ?thesis by (simp add: esc_def)
qed

lemma shown_join:
  assumes "plain sep" and "\<And>x t. x \<in> set xs \<Longrightarrow> shown In_text (f x @ t) = g x @ shown In_text t"
  shows "shown In_text (join sep (map f xs) @ t) = join sep (map g xs) @ shown In_text t"
  using assms(2) by (induction xs rule: induct_list012) (simp_all add: assms(1))

subsection \<open>The cells\<close>

lemma shown_spark [simp]:
  "plain col \<Longrightarrow> shown In_text (spark vals w h col @ t) = shown In_text t"
proof -
  have "list_all plain (map (\<lambda>(x, y). toFixed 1 x @ '','' @ toFixed 1 y) ps)" for ps
    by (auto simp: list_all_iff)
  then show "plain col \<Longrightarrow> shown In_text (spark vals w h col @ t) = shown In_text t"
    by (simp add: spark_def svg_size_def plain_join tag_text_def)
qed

lemma shown_upCell [simp]: "shown In_text (upCell c @ t) = up_text c @ shown In_text t"
  by (simp add: upCell_def up_text_def Let_def tag_text_def)

lemma shown_ports [simp]: "shown In_text (portsLine c @ t) = ports_text c @ shown In_text t"
proof -
  have j: "shown In_text (join ('' '' @ mid_dot @ '' '') (map shown_port ps) @ t)
      = join ('' '' @ mid_dot @ '' '') (map port_text ps) @ shown In_text t" for ps t
    by (rule shown_join) (simp_all add: shown_port_def port_text_def)
  have k: "shown In_text (join ('' '' @ mid_dot @ '' '') (map (\<lambda>p. '':'' @ show_nat (unat p)) ps) @ t)
      = join ('' '' @ mid_dot @ '' '') (map (\<lambda>p. '':'' @ show_nat (unat p)) ps) @ shown In_text t"
    for ps :: "u32 list" and t
    by (rule shown_join) simp_all
  show ?thesis
    using j k by (simp add: portsLine_def ports_text_def tag_text_def)
qed

lemma shown_cells [simp]:
  "shown In_text (name_cell loc c @ t) = or_name c @ shown In_text t"
  "shown In_text (rec_cell c @ t) =
     itoa (rw_Reconnects c) @ (if 5 \<le> rw_Reconnects c then '' '' @ warning_sign else []) @ shown In_text t"
  "shown In_text (traffic_cell c @ t) = fmtB (of_nat (unat (rw_TrafficToday c))) @ shown In_text t"
  by (simp_all add: name_cell_def rec_cell_def traffic_cell_def Let_def tag_text_def)

lemma shown_speed [simp]:
  "shown In_text (speed_cell c @ t) =
     (if rw_Speedtest c
      then ''Measure'' @ (if rw_LastDown c \<noteq> 0 then speed_text (rw_LastDown c) (rw_LastUp c) else [])
      else em_dash) @ shown In_text t"
  by (simp add: speed_cell_def tag_text_def)

lemma shown_off: "shown In_text (off_html c @ t) = row_text (off_cells c) @ shown In_text t"
  by (simp add: off_html_def row_text_def off_cells_def tag_text_def)

lemma shown_on: "plain (rw_IP c) \<Longrightarrow> shown In_text (on_html loc c @ t) = row_text (on_cells c) @ shown In_text t"
  by (simp add: on_html_def row_text_def on_cells_def tag_text_def)

lemma shown_rows:
  "(\<And>c t. c \<in> set cs \<Longrightarrow> shown In_text (f c @ t) = g c @ shown In_text t) \<Longrightarrow>
     shown In_text (concat (map f cs) @ t) = concat (map g cs) @ shown In_text t"
  by (induction cs) simp_all

lemma visible_rows:
  assumes "\<forall>c \<in> set cs. rw_Connected c \<longrightarrow> plain (rw_IP c)"
  shows "visible (vw_rows (tick clock gen loc cs)) =
     (if cs = [] then row_text [''no clients'']
      else concat (map (\<lambda>c. row_text (on_cells c)) (vw_on (tick clock gen loc cs)))
           @ concat (map (\<lambda>c. row_text (off_cells c)) (vw_off (tick clock gen loc cs))))"
proof -
  let ?on = "filter rw_Connected cs"
  let ?off = "sort_key (\<lambda>c. - rw_OfflineSeconds c) (filter (\<lambda>c. \<not> rw_Connected c) cs)"
  have on: "shown In_text (concat (map (on_html loc) ?on) @ u)
      = concat (map (\<lambda>c. row_text (on_cells c)) ?on) @ shown In_text u" for u
    by (rule shown_rows) (use assms in \<open>simp add: shown_on\<close>)
  have off: "shown In_text (concat (map off_html ?off) @ u)
      = concat (map (\<lambda>c. row_text (off_cells c)) ?off) @ shown In_text u" for u
    by (rule shown_rows) (simp add: shown_off)
  have t: "shown In_text (concat (map (on_html loc) ?on) @ concat (map off_html ?off)) =
      concat (map (\<lambda>c. row_text (on_cells c)) ?on) @ concat (map (\<lambda>c. row_text (off_cells c)) ?off)"
    using on [of "concat (map off_html ?off)"] off [of "[]"] by simp
  have e: "(concat (map (on_html loc) ?on) @ concat (map off_html ?off) = []) = (cs = [])"
    using html_rows_nonempty by (auto simp: filter_empty_conv)
  show ?thesis
  proof (cases "cs = []")
    case True
    then show ?thesis by (simp add: visible_def tick_def row_text_def tag_text_def)
  next
    case False
    then show ?thesis using t e by (simp add: visible_def tick_def Let_def)
  qed
qed

section \<open>What the page shows\<close>

text \<open>
  C14. The page shows the status it was sent. The text of its table is one row for each session of the
  registry, in its order, and one for each other recorded client, the longest gone first, or says that
  there are no clients. The row of a session says \<open>ON\<close>, with the title or name, ports, address, times
  and counts of its row of the status, and that of another client \<open>OFF\<close> with the time it has been gone;
  the pills count them. The addresses of the sessions are assumed to have no \<open><\<close>, \<open>>\<close> or \<open>&\<close>, as those
  the server reads from its sockets: the page writes them unescaped.
\<close>

theorem page_shows_the_status:
  assumes "\<forall>k \<in> set (reg_list r). set (cl_IP (r_heap r ! k)) \<inter> {CHR ''<'', CHR ''>'', CHR ''&''} = {}"
  shows
  "let cs = fst (api_status r store lc meta hb now today);
       v = tick clock gen loc cs
   in visible (vw_rows v) =
        (if cs = [] then row_text [''no clients'']
         else concat (map (\<lambda>c. row_text (on_cells c)) (vw_on v))
              @ concat (map (\<lambda>c. row_text (off_cells c)) (vw_off v)))
      \<and> vw_on v = map (online_row r store lc meta hb now today) (reg_list r)
      \<and> map rw_Name (vw_on v) = map (\<lambda>k. cl_Name (r_heap r ! k)) (reg_list r)
      \<and> mset (vw_off v) = mset (filter (\<lambda>c. \<not> rw_Connected c) cs)
      \<and> mset (map rw_Name (vw_off v)) = mset (map fst (absent r store))
      \<and> sorted_wrt (\<lambda>a b. rw_OfflineSeconds b \<le> rw_OfflineSeconds a) (vw_off v)
      \<and> vw_sum v = pill (show_nat (length (reg_list r)) @ '' connected'')
          @ (if absent r store = [] then []
             else pill (show_nat (length (absent r store)) @ '' offline''))
          @ pill (itoa (\<Sum>k \<leftarrow> reg_list r. sint (cl_active (r_heap r ! k))) @ '' active connections'')
          @ pill (fmtB (\<Sum>c \<leftarrow> cs. of_nat (unat (rw_TrafficToday c))) @ '' today'')
          @ pill (itoa (\<Sum>k \<leftarrow> reg_list r. cl_reconnects (r_heap r ! k)) @ '' reconnections'')"
proof -
  let ?cs = "fst (api_status r store lc meta hb now today)"
  let ?off = "filter (\<lambda>c. \<not> rw_Connected c) ?cs"
  have on: "vw_on (tick clock gen loc ?cs) = map (online_row r store lc meta hb now today) (reg_list r)"
    and off: "vw_off (tick clock gen loc ?cs) = sort_key (\<lambda>c. - rw_OfflineSeconds c) ?off"
    and sum: "vw_sum (tick clock gen loc ?cs) = pills ?cs (vw_on (tick clock gen loc ?cs)) (vw_off (tick clock gen loc ?cs))"
    by (simp_all add: tick_def Let_def status_connected)
  have len: "length ?off = length (absent r store)"
    using arg_cong [OF status_absent, of length] by simp
  have "sorted (map (\<lambda>c. - rw_OfflineSeconds c) (sort_key (\<lambda>c. - rw_OfflineSeconds c) ?off))" by simp
  then have s: "sorted_wrt (\<lambda>a b. rw_OfflineSeconds b \<le> rw_OfflineSeconds a) (vw_off (tick clock gen loc ?cs))"
    by (simp add: off sorted_map)
  have m: "mset (map rw_Name (vw_off (tick clock gen loc ?cs))) = mset (map fst (absent r store))"
    unfolding off status_absent [where lc = lc and meta = meta and hb = hb and now = now and today = today, symmetric] by simp
  have e: "vw_off (tick clock gen loc ?cs) = [] \<longleftrightarrow> absent r store = []"
    using m by (metis list.map_disc_iff mset_zero_iff)
  have a: "rw_Active (online_row r store lc meta hb now today k) = sint (cl_active (r_heap r ! k))"
    "rw_Reconnects (online_row r store lc meta hb now today k) = cl_reconnects (r_heap r ! k)"
    "rw_IP (online_row r store lc meta hb now today k) = cl_IP (r_heap r ! k)" for k
    by (simp_all add: online_row_def Let_def client_row_def describe_def split: prod.splits option.splits)
  have "plain (rw_IP c)" if "c \<in> set ?cs" "rw_Connected c" for c
  proof -
    have "c \<in> set (filter rw_Connected ?cs)" using that by simp
    then show ?thesis using assms unfolding status_connected by (auto simp: a plain_def)
  qed
  then have v: "visible (vw_rows (tick clock gen loc ?cs)) =
        (if ?cs = [] then row_text [''no clients'']
         else concat (map (\<lambda>c. row_text (on_cells c)) (vw_on (tick clock gen loc ?cs)))
              @ concat (map (\<lambda>c. row_text (off_cells c)) (vw_off (tick clock gen loc ?cs))))"
    by (intro visible_rows) blast
  have pl: "vw_sum (tick clock gen loc ?cs) = pill (show_nat (length (reg_list r)) @ '' connected'')
          @ (if absent r store = [] then []
             else pill (show_nat (length (absent r store)) @ '' offline''))
          @ pill (itoa (\<Sum>k \<leftarrow> reg_list r. sint (cl_active (r_heap r ! k))) @ '' active connections'')
          @ pill (fmtB (\<Sum>c \<leftarrow> ?cs. of_nat (unat (rw_TrafficToday c))) @ '' today'')
          @ pill (itoa (\<Sum>k \<leftarrow> reg_list r. cl_reconnects (r_heap r ! k)) @ '' reconnections'')"
    unfolding sum pills_def using e by (simp add: on off len a comp_def)
  show ?thesis
    unfolding Let_def v using m s pl by (simp add: on off)
qed

text \<open>One session, seen by a browser: its row, and the pills.\<close>

theorem page_shows_the_status_witness:
  "visible (vw_rows (tick (\<lambda>_. []) 0 \<lparr>lo_protocol = ''http:'', lo_host = ''panel''\<rparr>
      (fst (api_status (reg_run [EvAdd ''s1'' ''tk<a>'' ''192.0.2.1'' 0]) None
         \<lparr>Templates = [], BackupSuffix = []\<rparr> (NewMetaStore []) None (60 * second) ''d''))))
   = row_text [''tk<a>'' @ newline, ''ON'', ''192.0.2.1'', ''1m'', ''0'', ''0'', ''-'', ''0 B'', em_dash, em_dash]"
proof -
  let ?r = "reg_run [EvAdd ''s1'' ''tk<a>'' ''192.0.2.1'' 0]" and ?lc = "\<lparr>Templates = [], BackupSuffix = []\<rparr>"
  let ?row = "online_row ?r None ?lc (NewMetaStore []) None (60 * second) ''d''"
  have list: "reg_list ?r = [0]" and heap: "r_heap ?r ! 0 = new_client ''tk<a>'' ''192.0.2.1'' 0"
    by (simp_all add: reg_run_def reg_Add_def NewRegistry_def reg_list_def new_client_def)
  have cs: "fst (api_status ?r None ?lc (NewMetaStore []) None (60 * second) ''d'') = [?row 0]"
    by (simp add: api_status_def list)
  have ip: "\<forall>k \<in> set (reg_list ?r). set (cl_IP (r_heap ?r ! k)) \<inter> {CHR ''<'', CHR ''>'', CHR ''&''} = {}"
    by (simp add: list heap new_client_def)
  have up: "fmtU (Some (seconds (time_sub (60 * second) 0))) = ''1m''"
    by (simp add: fmtU_def seconds_def time_sub_def go_simps js_rem_def go_div_def itoa_def show_nat.simps
        digit_char_def char_of_def bit_0)
  have zero: "itoa 0 = ''0''"
    by (simp add: itoa_def show_nat.simps digit_char_def char_of_def bit_0)
  have "on_cells (?row 0) =
      [''tk<a>'' @ newline, ''ON'', ''192.0.2.1'', ''1m'', ''0'', ''0'', ''-'', ''0 B'', em_dash, em_dash]"
    using up by (simp add: on_cells_def online_row_def client_row_def describe_def heap new_client_def zero_row_def
        Let_def reg_heartbeat_def meta_Get_def meta_Port_def NewMetaStore_def zero_meta_def or_name_def ports_text_def
        up_text_def fmtB_def zero linksFor_def mainHost_def)
  with page_shows_the_status [OF ip, where clock = "\<lambda>_. []" and gen = 0 and store = None and lc = ?lc
      and loc = "\<lparr>lo_protocol = ''http:'', lo_host = ''panel''\<rparr>" and meta = "NewMetaStore []" and hb = None
      and now = "60 * second" and today = "''d''"]
  show ?thesis unfolding Let_def cs by (simp add: list absent_def)
qed

text \<open>
  C16. The bar under the percentage is exact, for a window that is not empty and a chronological log whose
  first event is before the end of the window. Its segments cover the whole window, from left to right
  without gap or overlap, and the share of them that is up is the percentage, taken of the part of the
  window for which there is data. On the bar of 560 pixels, each segment is drawn in the colour of its
  state, from the pixel where it starts to where it ends or, when it is shorter than half a pixel, half
  a pixel wide (before the rounding to tenths of a pixel).
\<close>

theorem availability_bar_is_exact:
  assumes "chronological ev" and "frm < to" and "ev = [] \<or> ev_T (hd ev) < to"
  shows "tiles 0 (snd (upCompute ev frm to)) 1 \<and>
    up_width (snd (upCompute ev frm to)) =
      (case fst (upCompute ev frm to) of
         None \<Rightarrow> 0
       | Some p \<Rightarrow> p / 100 * of_int (to - max frm (ev_T (hd ev))) / of_int (to - frm)) \<and>
    (\<forall>g \<in> set (snd (upCompute ev frm to)).
       case bar_rect 560 g of (x, width, col) \<Rightarrow>
         x = sg_a g * 560 \<and> x + width = max (sg_b g * 560) (sg_a g * 560 + 1 / 2)
         \<and> sg_b g * 560 \<le> x + width \<and> x + width \<le> sg_b g * 560 + 1 / 2
         \<and> col = (case sg_u g of Seg_up \<Rightarrow> ''var(--up)'' | Seg_down \<Rightarrow> ''var(--down)''
                    | Seg_nd \<Rightarrow> ''var(--border)''))"
proof -
  have le: "sg_a g \<le> sg_b g" if "tiles a gs b" "g \<in> set gs" for a b g gs
    using that by (induction a gs b rule: tiles.induct) auto
  note seg = segments_exact [OF assms]
  have drawn: "case bar_rect 560 g of (x, width, col) \<Rightarrow>
         x = sg_a g * 560 \<and> x + width = max (sg_b g * 560) (sg_a g * 560 + 1 / 2)
         \<and> sg_b g * 560 \<le> x + width \<and> x + width \<le> sg_b g * 560 + 1 / 2
         \<and> col = (case sg_u g of Seg_up \<Rightarrow> ''var(--up)'' | Seg_down \<Rightarrow> ''var(--down)''
                    | Seg_nd \<Rightarrow> ''var(--border)'')"
    if "sg_a g \<le> sg_b g" for g
  proof -
    have w: "(sg_b g - sg_a g) * 560 = sg_b g * 560 - sg_a g * 560" by (simp add: left_diff_distrib)
    have m: "x + max (1 / 2) (y - x) = max y (x + 1 / 2)" for x y :: rat by (simp add: max_def)
    have "sg_a g * 560 \<le> sg_b g * 560" using that by simp
    then have u: "max (sg_b g * 560) (sg_a g * 560 + 1 / 2) \<le> sg_b g * 560 + 1 / 2" by simp
    have c: "seg_color (sg_u g) = (case sg_u g of Seg_up \<Rightarrow> ''var(--up)'' | Seg_down \<Rightarrow> ''var(--down)''
                    | Seg_nd \<Rightarrow> ''var(--border)'')" by (simp add: seg_color_def split: seg_state.split)
    show ?thesis
      unfolding bar_rect_def prod.case of_int_numeral w m by (intro conjI refl max.cobounded1 u c)
  qed
  have "sg_a g \<le> sg_b g" if "g \<in> set (snd (upCompute ev frm to))" for g
    by (rule le [OF conjunct1 [OF seg] that])
  then show ?thesis by (intro conjI ballI drawn conjunct1 [OF seg] conjunct2 [OF seg])
qed

theorem availability_bar_is_exact_witness:
  "tiles 0 (snd (upCompute [\<lparr>ev_T = 20, ev_U = True\<rparr>, \<lparr>ev_T = 60, ev_U = False\<rparr>] 0 100)) 1 \<and>
   up_width (snd (upCompute [\<lparr>ev_T = 20, ev_U = True\<rparr>, \<lparr>ev_T = 60, ev_U = False\<rparr>] 0 100)) = 2 / 5"
proof -
  have c: "chronological [\<lparr>ev_T = 20, ev_U = True\<rparr>, \<lparr>ev_T = 60, ev_U = False\<rparr>]"
    by (simp add: chronological_def)
  have "fst (upCompute [\<lparr>ev_T = 20, ev_U = True\<rparr>, \<lparr>ev_T = 60, ev_U = False\<rparr>] 0 100) = Some 50"
    by (simp add: upCompute_def in_span_def)
  with availability_bar_is_exact [OF c, of 0 100] show ?thesis by simp
qed

text \<open>
  The window of the reconnections dialog: the bars add up to the number shown, and when the
  client's counter was not reset in between that is the difference of its ends.
\<close>

lemma rec_loop_Cons:
  "rec_loop x (y # ys) pts win lastTs =
     rec_loop y ys (pts @ [(Ts y, max 0 (Rec y - Rec x))]) (win + max 0 (Rec y - Rec x))
       (if Rec x < Rec y then Ts y else lastTs)"
  by (simp add: Let_def max_def)

lemma rec_loop_sum:
  "rec_loop x xs pts win lastTs = (pts', win', lastTs') \<Longrightarrow>
     win' + sum_list (map snd pts) = win + sum_list (map snd pts') \<and> length pts' = length pts + length xs"
proof (induction xs arbitrary: x pts win lastTs)
  case (Cons y ys)
  from Cons.IH [OF Cons.prems [unfolded rec_loop_Cons]] show ?case by simp
qed simp

lemma rec_loop_monotone:
  "rec_loop x xs pts win lastTs = (pts', win', lastTs') \<Longrightarrow> sorted (map Rec (x # xs)) \<Longrightarrow>
     win' = win + (Rec (last (x # xs)) - Rec x)"
proof (induction xs arbitrary: x pts win lastTs)
  case (Cons y ys)
  have "sorted (map Rec (y # ys))" "Rec x \<le> Rec y" using Cons.prems(2) by simp_all
  with Cons.IH [OF Cons.prems(1) [unfolded rec_loop_Cons]] show ?case by (simp add: max_def)
qed simp

lemma rec_window_exact:
  assumes "rec_window h = (pts, win, lastTs)"
  shows "win = sum_list (map snd pts) \<and> length pts = length h - 1
       \<and> (h \<noteq> [] \<and> sorted (map Rec h) \<longrightarrow> win = Rec (last h) - Rec (hd h))"
proof (cases h)
  case (Cons x xs)
  with assms have "rec_loop x xs [] 0 0 = (pts, win, lastTs)" by (simp add: rec_window_def)
  note run = this
  have "win = sum_list (map snd pts)" "length pts = length xs" using rec_loop_sum [OF run] by simp_all
  moreover have "win = Rec (last h) - Rec (hd h)" if "sorted (map Rec h)"
    using rec_loop_monotone [OF run] that Cons by (simp del: last.simps)
  ultimately show ?thesis using Cons by (simp del: last.simps sorted_wrt.simps)
qed (use assms in \<open>simp add: rec_window_def\<close>)

text \<open>The line of a sparkline stays inside its box.\<close>

lemma fold_max_ge: "x \<in> set xs \<Longrightarrow> x \<le> fold max xs (m :: rat)" "m \<le> fold max xs (m :: rat)"
  unfolding Max.set_eq_fold [symmetric] by simp_all

lemma spark_in_box:
  assumes "list_all (\<lambda>v. 0 \<le> v) vals" and "0 \<le> w" "2 \<le> h" and "(x, y) \<in> set (spark_points vals w h)"
  shows "0 \<le> x \<and> x \<le> of_int w \<and> 1 \<le> y \<and> y \<le> of_int h - 1"
proof -
  let ?mx = "fold max vals 1" and ?n = "max 1 (length vals - 1)"
  obtain i where i: "i < length vals" and x: "x = of_nat i * (of_int w / of_nat ?n)"
    and y: "y = of_int h - (vals ! i / ?mx) * (of_int h - 2) - 1"
    using assms(4) by (auto simp: spark_points_def Let_def in_set_enumerate_eq)
  have v: "0 \<le> vals ! i" using assms(1) i by (simp add: list_all_length)
  have mx: "1 \<le> ?mx" "vals ! i \<le> ?mx" using fold_max_ge i by simp_all
  then have q: "0 \<le> vals ! i / ?mx" "vals ! i / ?mx \<le> 1" using v by simp_all
  have h: "(0 :: rat) \<le> of_int h - 2" using assms(3) by simp
  have "0 \<le> (vals ! i / ?mx) * (of_int h - 2)" using q(1) h by (rule mult_nonneg_nonneg)
  moreover have "(vals ! i / ?mx) * (of_int h - 2) \<le> 1 * (of_int h - 2)" using q(2) h by (rule mult_right_mono)
  moreover have "i \<le> ?n" using i by arith
  then have "of_nat i / of_nat ?n \<le> (1 :: rat)" by simp
  then have "of_nat i / of_nat ?n * of_int w \<le> (1 :: rat) * of_int w" using assms(2) by (intro mult_right_mono) simp_all
  moreover have "0 \<le> x" using assms(2) by (simp add: x)
  ultimately show ?thesis by (simp add: x y)
qed

end
