(* ===== verification/Sampler.thy ===== *)
theory Sampler
  imports Panel
begin

text \<open>
  The sampler of \<open>Serve\<close> (\<open>internal/monitor/monitor.go\<close>) over the life of a server: the ticks, with
  the registry each of them finds, between the bytes the sessions pipe and the saves of the
  traffic store. A tick is a sequence of the store's operations, so what holds for every
  run of the store holds for the availability the panel shows. \<open>noted\<close> is what the ticks write down of
  a client, which in the server's first 30 seconds leaves out that it is absent.
\<close>

section \<open>The life of a server\<close>

text \<open>
  A tick finds the clients of \<open>r\<close> and reads the clock for each call; \<open>now\<close> is its reading for the
  grace period.
\<close>

datatype sys_event =
  Tick registry "cref \<Rightarrow> gotime" "string \<Rightarrow> gotime" gotime
| Piped string u32 u64 u64 string
| Saved gotime

fun sys_step :: "gotime \<Rightarrow> traffic_store \<Rightarrow> sys_event \<Rightarrow> traffic_store option" where
  "sys_step startAt t (Tick r touchAt markAt now) = Some (sampler_mark r touchAt markAt startAt now t)"
| "sys_step startAt t (Piped name port tx rx day) = Add t name port tx rx day"
| "sys_step startAt t (Saved now) = Some (fst (save_tick t now))"

fun sys_run :: "gotime \<Rightarrow> traffic_store \<Rightarrow> sys_event list \<Rightarrow> traffic_store option" where
  "sys_run startAt t [] = Some t"
| "sys_run startAt t (e # es) = (case sys_step startAt t e of None \<Rightarrow> None | Some u \<Rightarrow> sys_run startAt u es)"

text \<open>
  What the ticks take note of for one client: that they find it connected, or, once the server has a
  record of it (\<open>known\<close>) and is past its first 30 seconds, that they do not. A tick of the first 30
  seconds that does not find the client notes nothing, so that a restart of the server is no outage.
\<close>

fun noted :: "string \<Rightarrow> gotime \<Rightarrow> bool \<Rightarrow> sys_event list \<Rightarrow> up_event list" where
  "noted name startAt known [] = []"
| "noted name startAt known (Tick r touchAt markAt now # es) =
     (if Connected r name
      then \<lparr>ev_T = unix (markAt name), ev_U = True\<rparr> # noted name startAt True es
      else if known \<and> 30 * second \<le> time_sub now startAt
      then \<lparr>ev_T = unix (markAt name), ev_U = False\<rparr> # noted name startAt known es
      else noted name startAt known es)"
| "noted name startAt known (Piped name' port tx rx day # es) =
     noted name startAt (known \<or> name' = name) es"
| "noted name startAt known (Saved now # es) = noted name startAt known es"

section \<open>A tick as operations of the store\<close>

abbreviation names :: "traffic_store \<Rightarrow> string set" where
  "names t \<equiv> fst ` set (ts_m t)"

definition touch_ops :: "registry \<Rightarrow> (cref \<Rightarrow> gotime) \<Rightarrow> traffic_op list" where
  "touch_ops r touchAt = map (\<lambda>k. OpTouch (cl_Name (r_heap r ! k)) (touchAt k)) (reg_list r)"

definition mark_ops :: "string list \<Rightarrow> bool \<Rightarrow> (string \<Rightarrow> gotime) \<Rightarrow> string list \<Rightarrow> traffic_op list" where
  "mark_ops conn grace markAt ns =
     concat (map (\<lambda>n. if n \<notin> set conn \<and> grace then [] else [OpState n (n \<in> set conn) (markAt n)]) ns)"

lemma traffic_run_append:
  "traffic_run t (xs @ ys) = (case traffic_run t xs of None \<Rightarrow> None | Some u \<Rightarrow> traffic_run u ys)"
  by (induction xs arbitrary: t) (auto split: option.splits)

lemma run_touch_ops: "traffic_run t (touch_ops r touchAt) = Some (touch_all r touchAt t)"
proof -
  have "traffic_run t (map (\<lambda>k. OpTouch (cl_Name (r_heap r ! k)) (touchAt k)) ks)
      = Some (fold (\<lambda>k t. Touch t (cl_Name (r_heap r ! k)) (touchAt k)) ks t)" for ks
    by (induction ks arbitrary: t) simp_all
  then show ?thesis by (simp add: touch_ops_def touch_all_def)
qed

lemma run_mark_ops: "traffic_run t (mark_ops conn grace markAt ns) = Some (fold (mark conn grace markAt) ns t)"
  by (induction ns arbitrary: t) (auto simp: mark_ops_def mark_def)

lemma history_append: "history n (xs @ ys) = history n xs @ history n ys"
  by (simp add: history_def)

lemma history_touch_ops: "history n (touch_ops r touchAt) = []"
  by (simp add: history_def touch_ops_def comp_def)

lemma history_mark_ops:
  "distinct ns \<Longrightarrow> n \<noteq> [] \<Longrightarrow>
     history n (mark_ops conn grace markAt ns) =
       (if n \<in> set ns \<and> (n \<in> set conn \<or> \<not> grace)
        then [\<lparr>ev_T = unix (markAt n), ev_U = (n \<in> set conn)\<rparr>] else [])"
  by (induction ns) (auto simp: mark_ops_def history_def)

lemma saves_of_tick:
  "OpSave s \<notin> set (touch_ops r touchAt)" "OpSave s \<notin> set (mark_ops conn grace markAt ns)"
  by (auto simp: touch_ops_def mark_ops_def split: if_splits)

lemma put_store_Add:
  "Add t n port tx rx day = Some u \<Longrightarrow> (n = [] \<and> u = t) \<or> (\<exists>c. n \<noteq> [] \<and> ts_m u = put n c (ts_m t))"
  by (drule entry_Add) auto

lemma keys_ok_step: "keys_ok (ts_m t) \<Longrightarrow> traffic_step t x = Some u \<Longrightarrow> keys_ok (ts_m u)"
  by (cases x)
     (auto simp: Touch_def RecordState_def Let_def save_tick_def comp_def case_prod_unfold intro: keys_ok_put
       dest!: put_store_Add)

lemma keys_ok_run: "keys_ok (ts_m t) \<Longrightarrow> traffic_run t xs = Some u \<Longrightarrow> keys_ok (ts_m u)"
  by (induction xs arbitrary: t) (auto split: option.splits dest: keys_ok_step)

lemma names_put: "fst ` set (put k v m) = insert k (fst ` set m)"
  by (auto simp: dom_update)

lemma names_RecordState: "n \<in> names t \<Longrightarrow> names (RecordState t n up now) = names t"
  by (simp add: RecordState_def Let_def names_put insert_absorb)

lemma names_marks: "set ns \<subseteq> names t \<Longrightarrow> names (fold (mark conn grace markAt) ns t) = names t"
  by (induction ns arbitrary: t) (simp_all add: mark_def Let_def names_RecordState)

lemma names_Add: "Add t n port tx rx day = Some u \<Longrightarrow> names u = (if n = [] then {} else {n}) \<union> names t"
  by (drule put_store_Add) (elim disjE exE conjE, simp_all add: names_put)

lemma names_save: "names (fst (save_tick t now)) = names t"
  by (force simp: save_tick_def Let_def)

lemma names_Seen: "set (map fst (Seen t)) = names t" and distinct_Seen: "keys_ok (ts_m t) \<Longrightarrow> distinct (map fst (Seen t))"
  by (force simp: Seen_def) (simp add: Seen_def comp_def case_prod_unfold)

text \<open>A tick, as a run of the store.\<close>

lemma tick_run:
  assumes "keys_ok (ts_m t)"
  obtains ops where "traffic_run t ops = Some (sampler_mark r touchAt markAt startAt now t)"
    and "\<And>s. OpSave s \<notin> set ops"
    and "\<And>n. n \<noteq> [] \<Longrightarrow> history n ops =
        (if Connected r n then [\<lparr>ev_T = unix (markAt n), ev_U = True\<rparr>]
         else if n \<in> names t \<and> 30 * second \<le> time_sub now startAt
         then [\<lparr>ev_T = unix (markAt n), ev_U = False\<rparr>] else [])"
    and "\<And>n. n \<noteq> [] \<Longrightarrow> n \<in> names (sampler_mark r touchAt markAt startAt now t) \<longleftrightarrow> n \<in> names t \<or> Connected r n"
proof -
  let ?u = "touch_all r touchAt t" and ?conn = "map (\<lambda>k. cl_Name (r_heap r ! k)) (reg_list r)"
  let ?grace = "time_sub now startAt < 30 * second"
  let ?ops = "touch_ops r touchAt @ mark_ops ?conn ?grace markAt (map fst (Seen ?u))"
  have conn: "n \<in> set ?conn \<longleftrightarrow> Connected r n" for n by (simp add: Connected_iff)
  have run: "traffic_run t ?ops = Some (sampler_mark r touchAt markAt startAt now t)"
    by (simp add: traffic_run_append run_touch_ops run_mark_ops sampler_mark_def Let_def)
  have ok: "keys_ok (ts_m ?u)" using keys_ok_run [OF assms run_touch_ops] .
  have names: "names (sampler_mark r touchAt markAt startAt now t) = names ?u"
    by (simp add: sampler_mark_def Let_def names_marks names_Seen [simplified])
  have "history n ?ops =
        (if Connected r n then [\<lparr>ev_T = unix (markAt n), ev_U = True\<rparr>]
         else if n \<in> names t \<and> 30 * second \<le> time_sub now startAt
         then [\<lparr>ev_T = unix (markAt n), ev_U = False\<rparr>] else [])" if "n \<noteq> []" for n
    unfolding history_append history_touch_ops history_mark_ops [OF distinct_Seen [OF ok] that]
      names_Seen conn keys_touch_all
    using that by auto
  from that [OF run _ this] saves_of_tick show ?thesis by (auto simp: names keys_touch_all)
qed

text \<open>
  A run of the server is a run of the store, whose history of one client is what the ticks saw.
\<close>

lemma sys_run_history:
  assumes "n \<noteq> []"
  shows "keys_ok (ts_m t) \<Longrightarrow> sys_run startAt t es = Some t' \<Longrightarrow>
    \<exists>ops. traffic_run t ops = Some t' \<and> history n ops = noted n startAt (n \<in> names t) es
        \<and> (\<forall>s. OpSave s \<in> set ops \<longrightarrow> Saved s \<in> set es)"
proof (induction es arbitrary: t)
  case Nil
  then show ?case by (intro exI [of _ "[]"]) (simp add: history_def)
next
  case (Cons e es)
  then obtain u where u: "sys_step startAt t e = Some u" and run: "sys_run startAt u es = Some t'"
    by (auto split: option.splits)
  have one: ?case if "traffic_run t ops = Some u"
      "noted n startAt (n \<in> names t) (e # es) = history n ops @ noted n startAt (n \<in> names u) es"
      "\<forall>s. OpSave s \<in> set ops \<longrightarrow> e = Saved s" for ops
  proof -
    have "keys_ok (ts_m u)" using Cons.prems(1) that(1) by (rule keys_ok_run)
    from Cons.IH [OF this run] obtain ops' where "traffic_run u ops' = Some t'"
      "history n ops' = noted n startAt (n \<in> names u) es" "\<forall>s. OpSave s \<in> set ops' \<longrightarrow> Saved s \<in> set es"
      by blast
    with that show ?thesis
      by (intro exI [of _ "ops @ ops'"]) (auto simp: traffic_run_append history_append)
  qed
  show ?case
  proof (cases e)
    case (Tick r touchAt markAt now)
    obtain ops where o: "traffic_run t ops = Some (sampler_mark r touchAt markAt startAt now t)"
      "\<And>s. OpSave s \<notin> set ops"
      "history n ops = (if Connected r n then [\<lparr>ev_T = unix (markAt n), ev_U = True\<rparr>]
         else if n \<in> names t \<and> 30 * second \<le> time_sub now startAt
         then [\<lparr>ev_T = unix (markAt n), ev_U = False\<rparr>] else [])"
      "n \<in> names (sampler_mark r touchAt markAt startAt now t) \<longleftrightarrow> n \<in> names t \<or> Connected r n"
      using tick_run [OF Cons.prems(1), of r touchAt markAt startAt now] assms by metis
    have "u = sampler_mark r touchAt markAt startAt now t" using u Tick by simp
    then show ?thesis by (intro one [of ops]) (use o Tick in simp_all)
  next
    case (Piped m port tx rx day)
    then have "Add t m port tx rx day = Some u" using u by simp
    moreover from this have "n \<in> names u \<longleftrightarrow> n \<in> names t \<or> m = n"
      using assms by (auto simp: names_Add simp del: image_iff)
    ultimately show ?thesis
      using Piped by (intro one [of "[OpAdd m port tx rx day]"]) (simp_all add: history_def)
  next
    case (Saved now)
    then show ?thesis
      using u names_save [of t now] by (intro one [of "[OpSave now]"]) (auto simp: history_def)
  qed
qed

section \<open>Properties\<close>

text \<open>
  C11. The uptime the panel shows is what its sampler noted. Over any life of a server, from any store
  its file was loaded into, with ticks, traffic and saves interleaved in any way, \<open>uptimePct\<close> is the
  share of the seconds of the window, from the first entry on, during which the latest entry of the
  client's log, continued by what the ticks noted, says connected. A tick notes what it finds, except
  that in the server's first 30 seconds it does not note an absence, so that such a second counts as
  the state before it. Conditions: the loaded log and the clock do not run backwards, the log does not
  repeat a state (the store never writes one that does), there are at most 8000 changes of state, and
  the window starts no earlier than 31 days before any save.
\<close>

theorem uptime_is_what_the_sampler_saw:
  assumes "name \<noteq> []" and "keys_ok (ts_m t0)" and "distinct_adj (map ev_U (Up (entry t0 name)))"
    and "h = Up (entry t0 name) @ noted name startAt (get (ts_m t0) name \<noteq> None) es"
    and "sys_run startAt t0 es = Some t"
    and "chronological h" and "changes h \<le> 8000" and "h \<noteq> []"
    and "\<forall>s. Saved s \<in> set es \<longrightarrow> cutoff s \<le> unix now - windowSec"
    and "start = max (unix now - windowSec) (ev_T (hd h))"
  shows "uptimePct t name windowSec now =
    (if unix now \<le> start then -1
     else of_nat (card {s \<in> {start..<unix now}. up_at h s}) / of_int (unix now - start) * 100)"
proof -
  have known: "(name \<in> names t0) = (get (ts_m t0) name \<noteq> None)" by (simp add: map_of_eq_None_iff)
  obtain ops where ops: "traffic_run t0 ops = Some t" "h = Up (entry t0 name) @ history name ops"
    "\<forall>s. OpSave s \<in> set ops \<longrightarrow> Saved s \<in> set es"
    using sys_run_history [OF assms(1,2,5), unfolded known] assms(4) by auto
  then have "\<forall>s. OpSave s \<in> set ops \<longrightarrow> cutoff s \<le> unix now - windowSec" using assms(9) by blast
  from uptimePct_of_run [OF assms(3) ops(2) assms(6-8) this ops(1) assms(10)] show ?thesis .
qed

text \<open>
  A server restarted at second 90 with a log that says up since second 80: it does not find the client
  at 100, which it does not note, finds it at 110, and does not find it at 160.
\<close>

theorem uptime_is_what_the_sampler_saw_witness:
  "\<exists>t. sys_run (of_unix 90)
         \<lparr>ts_path = ''f'', ts_m = [(''tk-a-web'', empty_ct\<lparr>Up := [\<lparr>ev_T = 80, ev_U = True\<rparr>]\<rparr>)], ts_dirty = False\<rparr>
         [Tick NewRegistry (\<lambda>_. of_unix 100) (\<lambda>_. of_unix 100) (of_unix 100),
          Tick (reg_run [EvAdd ''s1'' ''tk-a-web'' ''192.0.2.1'' 0]) (\<lambda>_. of_unix 110) (\<lambda>_. of_unix 110) (of_unix 110),
          Saved (of_unix 120),
          Tick NewRegistry (\<lambda>_. of_unix 160) (\<lambda>_. of_unix 160) (of_unix 160)] = Some t
       \<and> uptimePct t ''tk-a-web'' 110 (of_unix 200) =
           of_nat (card {s \<in> {90..<200}. up_at [\<lparr>ev_T = 80, ev_U = True\<rparr>, \<lparr>ev_T = 110, ev_U = True\<rparr>,
             \<lparr>ev_T = 160, ev_U = False\<rparr>] s}) / 110 * 100"
proof -
  let ?r = "reg_run [EvAdd ''s1'' ''tk-a-web'' ''192.0.2.1'' 0]"
  let ?t0 = "\<lparr>ts_path = ''f'', ts_m = [(''tk-a-web'', empty_ct\<lparr>Up := [\<lparr>ev_T = 80, ev_U = True\<rparr>]\<rparr>)], ts_dirty = False\<rparr>"
  let ?es = "[Tick NewRegistry (\<lambda>_. of_unix 100) (\<lambda>_. of_unix 100) (of_unix 100),
          Tick ?r (\<lambda>_. of_unix 110) (\<lambda>_. of_unix 110) (of_unix 110), Saved (of_unix 120),
          Tick NewRegistry (\<lambda>_. of_unix 160) (\<lambda>_. of_unix 160) (of_unix 160)]"
  let ?h = "[\<lparr>ev_T = 80, ev_U = True\<rparr>, \<lparr>ev_T = 110, ev_U = True\<rparr>, \<lparr>ev_T = 160, ev_U = False\<rparr>]"
  have conn: "Connected ?r ''tk-a-web''" "\<not> Connected NewRegistry ''tk-a-web''"
    by (simp_all add: reg_run_def reg_Add_def NewRegistry_def Connected_def byName_def reg_list_def new_client_def)
  have grace: "\<not> 30 * second \<le> time_sub (of_unix 100) (of_unix 90)"
    "30 * second \<le> time_sub (of_unix 160) (of_unix 90)"
    by (simp_all add: time_sub_def of_unix_def second_def max_duration_def min_duration_def)
  have h: "?h = Up (entry ?t0 ''tk-a-web'') @ noted ''tk-a-web'' (of_unix 90) (get (ts_m ?t0) ''tk-a-web'' \<noteq> None) ?es"
    using conn grace by (simp add: entry_def)
  obtain t where t: "sys_run (of_unix 90) ?t0 ?es = Some t" by simp
  have ok: "keys_ok (ts_m ?t0)" "distinct_adj (map ev_U (Up (entry ?t0 ''tk-a-web'')))"
    by (simp_all add: entry_def)
  have ev: "chronological ?h" "changes ?h \<le> 8000" "?h \<noteq> []" by (simp_all add: chronological_def changes_def)
  have saves: "\<forall>s. Saved s \<in> set ?es \<longrightarrow> cutoff s \<le> unix (of_unix 200) - 110"
    by (simp add: cutoff_def) (simp add: unix_def of_unix_def second_def)
  have win: "90 = max (unix (of_unix 200) - 110) (ev_T (hd ?h))" by simp
  have "uptimePct t ''tk-a-web'' 110 (of_unix 200) =
      of_nat (card {s \<in> {90..<200}. up_at ?h s}) / of_int (200 - 90) * 100"
    using uptime_is_what_the_sampler_saw [OF _ ok h t ev saves win] unfolding unix_of_unix by simp
  then show ?thesis using t by auto
qed

end
