(* ===== verification/Pipe.thy ===== *)
theory Pipe
  imports Registry Traffic
begin

text \<open>
  The piping of forwarded connections, \<open>session.pipe\<close> of \<open>internal/tunnelserver/server.go\<close>, over the
  shared registry and traffic store: any number of pipes run at once, and what happens is a sequence
  of their opens, writes and closes. The copying loops of \<open>io.Copy\<close> give the writes; the clients are
  counted through the pointer obtained when the pipe started, in the registry or not.
\<close>

section \<open>The operations\<close>

text \<open>\<open>countW.Write\<close> over the outcome of the inner write: what it returns, and what it adds.\<close>

definition countW_Write :: "int \<times> bool \<Rightarrow> (int \<times> bool) \<times> int" where
  "countW_Write inner = (inner, fst inner)"

record pipe =
  pp_cl :: "cref option"
  pp_name :: string
  pp_port :: u32

definition pipe_start :: "registry \<Rightarrow> string \<Rightarrow> string \<Rightarrow> u32 \<Rightarrow> pipe" where
  "pipe_start r i name port = \<lparr>pp_cl = reg_Get r i, pp_name = name, pp_port = port\<rparr>"

text \<open>The payload of the channel: the bound address and port, and where the connection comes from.\<close>

definition pipe_payload :: "string \<Rightarrow> u32 \<Rightarrow> string \<Rightarrow> string \<times> u32 \<times> string \<times> u32" where
  "pipe_payload bindAddr bindPort remote =
     (let (oh, op) = (case split_host_port remote of None \<Rightarrow> ([], []) | Some hp \<Rightarrow> hp);
          opn = (case atoi op of None \<Rightarrow> 0 | Some n \<Rightarrow> n)
      in (bindAddr, bindPort, oh, word_of_int opn))"

definition upd_pipe_client :: "pipe \<Rightarrow> (client \<Rightarrow> client) \<Rightarrow> registry \<Rightarrow> registry" where
  "upd_pipe_client p f r = (case pp_cl p of None \<Rightarrow> r | Some k \<Rightarrow> upd_client k f r)"

type_synonym accounts = "registry \<times> traffic_store option"

definition store_add :: "pipe \<Rightarrow> int \<Rightarrow> int \<Rightarrow> string \<Rightarrow> traffic_store option \<Rightarrow> traffic_store option option" where
  "store_add p tx rx day store =
     (case store of
        None \<Rightarrow> Some None
      | Some t \<Rightarrow>
          map_option Some (Add t (pp_name p) (pp_port p) (word_of_int tx) (word_of_int rx) day))"

definition addRx :: "pipe \<Rightarrow> int \<Rightarrow> string \<Rightarrow> accounts \<Rightarrow> accounts option" where
  "addRx p n day st =
     map_option (\<lambda>store. (upd_pipe_client p (AddRx n) (fst st), store)) (store_add p 0 n day (snd st))"

definition addTx :: "pipe \<Rightarrow> int \<Rightarrow> string \<Rightarrow> accounts \<Rightarrow> accounts option" where
  "addTx p n day st =
     map_option (\<lambda>store. (upd_pipe_client p (AddTx n) (fst st), store)) (store_add p n 0 day (snd st))"

datatype pipe_event =
  Opened pipe
| Rx_write pipe "int \<times> bool" string
| Tx_write pipe "int \<times> bool" string
| Closed pipe

fun pipe_step :: "accounts \<Rightarrow> pipe_event \<Rightarrow> accounts option" where
  "pipe_step st (Opened p) = Some (upd_pipe_client p ConnOpen (fst st), snd st)"
| "pipe_step st (Rx_write p inner day) = addRx p (snd (countW_Write inner)) day st"
| "pipe_step st (Tx_write p inner day) = addTx p (snd (countW_Write inner)) day st"
| "pipe_step st (Closed p) = Some (upd_pipe_client p ConnClose (fst st), snd st)"

fun pipe_run :: "accounts \<Rightarrow> pipe_event list \<Rightarrow> accounts option" where
  "pipe_run st [] = Some st"
| "pipe_run st (e # es) = (case pipe_step st e of None \<Rightarrow> None | Some st' \<Rightarrow> pipe_run st' es)"

section \<open>What was moved\<close>

text \<open>The bytes of one event for a client, and for a name and port.\<close>

fun client_moved :: "cref \<Rightarrow> pipe_event \<Rightarrow> u64 \<times> u64" where
  "client_moved k (Rx_write p inner day) = (0, if pp_cl p = Some k then word_of_int (fst inner) else 0)"
| "client_moved k (Tx_write p inner day) = (if pp_cl p = Some k then word_of_int (fst inner) else 0, 0)"
| "client_moved k _ = (0, 0)"

fun port_moved :: "string \<Rightarrow> u32 \<Rightarrow> pipe_event \<Rightarrow> u64 \<times> u64" where
  "port_moved n port (Rx_write p inner day) =
     (0, if pp_name p = n \<and> n \<noteq> [] \<and> pp_port p = port then word_of_int (fst inner) else 0)"
| "port_moved n port (Tx_write p inner day) =
     (if pp_name p = n \<and> n \<noteq> [] \<and> pp_port p = port then word_of_int (fst inner) else 0, 0)"
| "port_moved n port _ = (0, 0)"

fun opened :: "cref \<Rightarrow> pipe_event \<Rightarrow> 64 word" where
  "opened k (Opened p) = (if pp_cl p = Some k then 1 else 0)"
| "opened k (Closed p) = (if pp_cl p = Some k then - 1 else 0)"
| "opened k _ = 0"

lemma upd_pipe_client_sel:
  "length (r_heap (upd_pipe_client p f r)) = length (r_heap r)"
  "k < length (r_heap r) \<Longrightarrow>
     r_heap (upd_pipe_client p f r) ! k = (if pp_cl p = Some k then f (r_heap r ! k) else r_heap r ! k)"
proof -
  show "length (r_heap (upd_pipe_client p f r)) = length (r_heap r)"
    by (simp add: upd_pipe_client_def split: option.split)
  assume k: "k < length (r_heap r)"
  show "r_heap (upd_pipe_client p f r) ! k = (if pp_cl p = Some k then f (r_heap r ! k) else r_heap r ! k)"
  proof (cases "pp_cl p")
    case (Some j)
    with k show ?thesis by (auto simp: upd_pipe_client_def upd_client_def nth_list_update)
  qed (simp add: upd_pipe_client_def)
qed

lemma counters_upd [simp]:
  "cl_tx (AddTx n c) = cl_tx c + word_of_int n" "cl_rx (AddTx n c) = cl_rx c" "cl_active (AddTx n c) = cl_active c"
  "cl_rx (AddRx n c) = cl_rx c + word_of_int n" "cl_tx (AddRx n c) = cl_tx c" "cl_active (AddRx n c) = cl_active c"
  "cl_active (ConnOpen c) = cl_active c + 1" "cl_tx (ConnOpen c) = cl_tx c" "cl_rx (ConnOpen c) = cl_rx c"
  "cl_active (ConnClose c) = cl_active c - 1" "cl_tx (ConnClose c) = cl_tx c" "cl_rx (ConnClose c) = cl_rx c"
  by (simp_all add: AddTx_def AddRx_def ConnOpen_def ConnClose_def)

text \<open>One event succeeds on a good store and is accounted on both sides.\<close>

definition accounted :: "cref \<Rightarrow> string \<Rightarrow> u32 \<Rightarrow> accounts \<Rightarrow> pipe_event \<Rightarrow> accounts \<Rightarrow> bool" where
  "accounted k n port st e st' \<longleftrightarrow>
     length (r_heap (fst st')) = length (r_heap (fst st))
     \<and> cl_tx (r_heap (fst st') ! k) = cl_tx (r_heap (fst st) ! k) + fst (client_moved k e)
     \<and> cl_rx (r_heap (fst st') ! k) = cl_rx (r_heap (fst st) ! k) + snd (client_moved k e)
     \<and> cl_active (r_heap (fst st') ! k) = cl_active (r_heap (fst st) ! k) + opened k e
     \<and> (\<exists>t t'. snd st = Some t \<and> snd st' = Some t' \<and> store_ok t'
          \<and> port_total t' n port = (fst (port_total t n port) + fst (port_moved n port e),
                                    snd (port_total t n port) + snd (port_moved n port e)))"

lemma store_add_ok:
  assumes "store_ok t"
  shows "\<exists>t'. store_add p tx rx day (Some t) = Some (Some t') \<and> store_ok t'
      \<and> port_total t' n port =
         (if pp_name p = n \<and> n \<noteq> [] \<and> pp_port p = port
          then (fst (port_total t n port) + word_of_int tx, snd (port_total t n port) + word_of_int rx)
          else port_total t n port)"
proof -
  obtain t' where t': "Add t (pp_name p) (pp_port p) (word_of_int tx) (word_of_int rx) day = Some t'"
    and ok: "store_ok t'"
    using store_ok_step [OF assms, of "OpAdd (pp_name p) (pp_port p) (word_of_int tx) (word_of_int rx) day"]
    by auto
  with port_total_Add [OF t', of n port] show ?thesis by (auto simp: store_add_def)
qed

lemma pipe_step_accounted:
  assumes "store_ok t" and "k < length (r_heap r)"
  shows "\<exists>st'. pipe_step (r, Some t) e = Some st' \<and> accounted k n port (r, Some t) e st'"
proof (cases e)
  case (Opened p)
  then show ?thesis using assms by (simp add: accounted_def upd_pipe_client_sel)
next
  case (Closed p)
  then show ?thesis using assms by (simp add: accounted_def upd_pipe_client_sel)
next
  case (Rx_write p inner day)
  from store_add_ok [OF assms(1), of p 0 "fst inner" day n port] Rx_write assms(2)
  show ?thesis by (auto simp: accounted_def upd_pipe_client_sel addRx_def countW_Write_def)
next
  case (Tx_write p inner day)
  from store_add_ok [OF assms(1), of p "fst inner" 0 day n port] Tx_write assms(2)
  show ?thesis by (auto simp: accounted_def upd_pipe_client_sel addTx_def countW_Write_def)
qed

lemma pipe_run_accounted:
  assumes "store_ok t" and "k < length (r_heap r)"
  shows "\<exists>r' t'. pipe_run (r, Some t) es = Some (r', Some t')
     \<and> cl_tx (r_heap r' ! k) = cl_tx (r_heap r ! k) + sum_list (map (\<lambda>e. fst (client_moved k e)) es)
     \<and> cl_rx (r_heap r' ! k) = cl_rx (r_heap r ! k) + sum_list (map (\<lambda>e. snd (client_moved k e)) es)
     \<and> cl_active (r_heap r' ! k) = cl_active (r_heap r ! k) + sum_list (map (opened k) es)
     \<and> port_total t' n port =
         (fst (port_total t n port) + sum_list (map (\<lambda>e. fst (port_moved n port e)) es),
          snd (port_total t n port) + sum_list (map (\<lambda>e. snd (port_moved n port e)) es))"
  using assms
proof (induction es arbitrary: r t)
  case (Cons e es)
  obtain r1 s1 where step: "pipe_step (r, Some t) e = Some (r1, s1)"
    and a: "accounted k n port (r, Some t) e (r1, s1)"
    using pipe_step_accounted [OF Cons.prems] by force
  then obtain t1 where t1: "s1 = Some t1" "store_ok t1" by (auto simp: accounted_def)
  moreover have "k < length (r_heap r1)" using a Cons.prems(2) by (simp add: accounted_def)
  ultimately have "\<exists>r' t'. pipe_run (r1, Some t1) es = Some (r', Some t')
     \<and> cl_tx (r_heap r' ! k) = cl_tx (r_heap r1 ! k) + sum_list (map (\<lambda>e. fst (client_moved k e)) es)
     \<and> cl_rx (r_heap r' ! k) = cl_rx (r_heap r1 ! k) + sum_list (map (\<lambda>e. snd (client_moved k e)) es)
     \<and> cl_active (r_heap r' ! k) = cl_active (r_heap r1 ! k) + sum_list (map (opened k) es)
     \<and> port_total t' n port =
         (fst (port_total t1 n port) + sum_list (map (\<lambda>e. fst (port_moved n port e)) es),
          snd (port_total t1 n port) + sum_list (map (\<lambda>e. snd (port_moved n port e)) es))"
    by (intro Cons.IH)
  then obtain r' t' where run: "pipe_run (r1, Some t1) es = Some (r', Some t')"
    and sums: "cl_tx (r_heap r' ! k) = cl_tx (r_heap r1 ! k) + sum_list (map (\<lambda>e. fst (client_moved k e)) es)"
      "cl_rx (r_heap r' ! k) = cl_rx (r_heap r1 ! k) + sum_list (map (\<lambda>e. snd (client_moved k e)) es)"
      "cl_active (r_heap r' ! k) = cl_active (r_heap r1 ! k) + sum_list (map (opened k) es)"
      "port_total t' n port =
         (fst (port_total t1 n port) + sum_list (map (\<lambda>e. fst (port_moved n port e)) es),
          snd (port_total t1 n port) + sum_list (map (\<lambda>e. snd (port_moved n port e)) es))" by blast
  have "pipe_run (r, Some t) (e # es) = Some (r', Some t')" using step run t1(1) by simp
  then show ?case
    using a sums t1(1) by (intro exI [of _ r'] exI [of _ t']) (auto simp: accounted_def add.assoc)
qed simp

text \<open>
  C6. Every byte piped is counted once for the session and once in the store: from a fresh store, any
  interleaving of pipes runs to its end without a panic; a client's counters then grew by exactly
  what its pipes wrote in either direction, whatever became of its registry entry, its active
  connections by those opened and not closed, and the totals of every named client's port in the
  store are what the pipes of that name and port wrote (all on 64 bits, with wrap-around).
\<close>

theorem piped_bytes_are_counted:
  assumes "k < length (r_heap r)"
  shows "\<exists>r' t'. pipe_run (r, Some (fresh_store path)) es = Some (r', Some t')
     \<and> cl_tx (r_heap r' ! k) = cl_tx (r_heap r ! k) + sum_list (map (\<lambda>e. fst (client_moved k e)) es)
     \<and> cl_rx (r_heap r' ! k) = cl_rx (r_heap r ! k) + sum_list (map (\<lambda>e. snd (client_moved k e)) es)
     \<and> cl_active (r_heap r' ! k) = cl_active (r_heap r ! k) + sum_list (map (opened k) es)
     \<and> port_total t' n port =
         (sum_list (map (\<lambda>e. fst (port_moved n port e)) es), sum_list (map (\<lambda>e. snd (port_moved n port e)) es))"
proof -
  have "port_total (fresh_store path) n port = (0, 0)"
    by (simp add: port_total_def entry_def fresh_store_def empty_ct_def nil_get_def)
  with pipe_run_accounted [OF store_ok_fresh assms, of path es n port] show ?thesis by simp
qed

theorem piped_bytes_are_counted_witness:
  "\<exists>r' t'. pipe_run (reg_run [EvAdd ''s1'' ''c1'' ''192.0.2.1'' 0], Some (fresh_store ''f''))
       [Opened \<lparr>pp_cl = Some 0, pp_name = ''c1'', pp_port = 80\<rparr>,
        Rx_write \<lparr>pp_cl = Some 0, pp_name = ''c1'', pp_port = 80\<rparr> (100, True) ''d'',
        Tx_write \<lparr>pp_cl = Some 0, pp_name = ''c1'', pp_port = 80\<rparr> (7, False) ''d'',
        Closed \<lparr>pp_cl = Some 0, pp_name = ''c1'', pp_port = 80\<rparr>] = Some (r', Some t')
     \<and> cl_active (r_heap r' ! 0) = 0 \<and> port_total t' ''c1'' 80 = (7, 100)"
proof -
  let ?r = "reg_run [EvAdd ''s1'' ''c1'' ''192.0.2.1'' 0]"
  have "0 < length (r_heap ?r)" and "cl_active (r_heap ?r ! 0) = 0"
    by (simp_all add: reg_run_def NewRegistry_def new_client_def)
  with piped_bytes_are_counted [OF this(1), of "''f''"
      "[Opened \<lparr>pp_cl = Some 0, pp_name = ''c1'', pp_port = 80\<rparr>,
        Rx_write \<lparr>pp_cl = Some 0, pp_name = ''c1'', pp_port = 80\<rparr> (100, True) ''d'',
        Tx_write \<lparr>pp_cl = Some 0, pp_name = ''c1'', pp_port = 80\<rparr> (7, False) ''d'',
        Closed \<lparr>pp_cl = Some 0, pp_name = ''c1'', pp_port = 80\<rparr>]" "''c1''" 80]
  show ?thesis by (auto simp del: pipe_run.simps)
qed

end
