(* ===== verification/Auth.thy ===== *)
theory Auth
  imports Prelude
begin

text \<open>
  Who may connect and which ports they may open: the \<open>authStore\<close> of
  \<open>internal/tunnelserver/server.go\<close>, which reloads \<open>authorized_keys\<close> when its modification
  time changes, the reading of \<open>permitlisten\<close> options, and \<open>parsePorts\<close>. The SSH library's
  \<open>ParseAuthorizedKey\<close> and \<open>FingerprintSHA256\<close> are the parameters \<open>parse\<close> and \<open>fp\<close>; the
  file is seen through what \<open>os.Stat\<close> and \<open>os.ReadFile\<close> return (\<open>None\<close> is an error).
\<close>

section \<open>State\<close>

record key_info =
  ki_Ports :: string
  ki_Name :: string

type_synonym key_map = "(string \<times> key_info) list"

record auth_store =
  ak_mtime :: gotime
  ak_keys :: "key_map option"

datatype auth_error = Stat_error | Read_error

definition NewAuth :: auth_store where
  "NewAuth = \<lparr>ak_mtime = zero_time, ak_keys = None\<rparr>"

section \<open>Options of a key\<close>

definition quote_char :: char where
  "quote_char = CHR 0x22"

text \<open>\<open>strings.Trim(s, "\<open>quote\<close>")\<close>.\<close>

definition trim_quotes :: "string \<Rightarrow> string" where
  "trim_quotes s = trim_right (\<lambda>c. c = quote_char) (trim_left (\<lambda>c. c = quote_char) s)"

text \<open>The value an option adds to the list of ports, if any.\<close>

definition option_port :: "string \<Rightarrow> string option" where
  "option_port opt =
     (if has_prefix opt ''permitlisten='' then
        let v = trim_quotes (trim_prefix opt ''permitlisten='');
            v = (case split_host_port v of Some (_, ps) \<Rightarrow> ps | None \<Rightarrow> v)
        in (if atoi v \<noteq> None then Some v else None)
      else None)"

definition info_of :: "string list \<Rightarrow> string \<Rightarrow> key_info" where
  "info_of options comment =
     \<lparr>ki_Ports = join '','' (List.map_filter option_port options), ki_Name = comment\<rparr>"

text \<open>\<open>uint32(n)\<close> keeps the low 32 bits. The result is the set of its keys.\<close>

definition parsePorts :: "string \<Rightarrow> u32 list" where
  "parsePorts csv =
     foldl (\<lambda>m p. case atoi (trim_space p) of None \<Rightarrow> m | Some n \<Rightarrow> List.insert (word_of_int n) m)
       [] (split_on (CHR '','') csv)"

text \<open>The set as a list, for the log.\<close>

fun keys_loop :: "u32 list \<Rightarrow> u32 list \<Rightarrow> u32 list" where
  "keys_loop out [] = out"
| "keys_loop out (k # m) = keys_loop (out @ [k]) m"

definition keys :: "u32 list \<Rightarrow> u32 list" where
  "keys m = keys_loop [] m"

lemma keys_same: "keys m = m"
proof -
  have "keys_loop out m = out @ m" for out by (induction m arbitrary: out) simp_all
  then show ?thesis by (simp add: keys_def)
qed

section \<open>Reading the file\<close>

text \<open>The loop over the data; \<open>None\<close> would be a loop that never ends.\<close>

partial_function (option) load_loop ::
  "(string \<Rightarrow> ('k \<times> string \<times> string list \<times> string) option) \<Rightarrow> ('k \<Rightarrow> string) \<Rightarrow>
     string \<Rightarrow> key_map \<Rightarrow> key_map option" where
  "load_loop parse fp data out =
     (if data = [] then Some out
      else (case parse data of
              None \<Rightarrow> Some out
            | Some (key, comment, options, rest) \<Rightarrow>
                load_loop parse fp rest (put (fp key) (info_of options comment) out)))"

definition loadAuthorized ::
  "(string \<Rightarrow> ('k \<times> string \<times> string list \<times> string) option) \<Rightarrow> ('k \<Rightarrow> string) \<Rightarrow>
     string option \<Rightarrow> (auth_error + key_map) option" where
  "loadAuthorized parse fp data =
     (case data of
        None \<Rightarrow> Some (Inl Read_error)
      | Some d \<Rightarrow> map_option Inr (load_loop parse fp d []))"

definition reload ::
  "(string \<Rightarrow> ('k \<times> string \<times> string list \<times> string) option) \<Rightarrow> ('k \<Rightarrow> string) \<Rightarrow>
     auth_store \<Rightarrow> gotime option \<Rightarrow> string option \<Rightarrow> (auth_store \<times> (auth_error + bool)) option" where
  "reload parse fp a st data =
     (case st of
        None \<Rightarrow> Some (a, Inl Stat_error)
      | Some m \<Rightarrow>
          (if ak_keys a \<noteq> None \<and> m = ak_mtime a then Some (a, Inr False)
           else (case loadAuthorized parse fp data of
                   None \<Rightarrow> None
                 | Some (Inl e) \<Rightarrow> Some (a, Inl e)
                 | Some (Inr ks) \<Rightarrow> Some (a\<lparr>ak_keys := Some ks, ak_mtime := m\<rparr>, Inr True))))"

text \<open>The result is the store, the information of the key, and the number of keys when the
  reload is logged.\<close>

definition auth_lookup ::
  "(string \<Rightarrow> ('k \<times> string \<times> string list \<times> string) option) \<Rightarrow> ('k \<Rightarrow> string) \<Rightarrow>
     auth_store \<Rightarrow> gotime option \<Rightarrow> string option \<Rightarrow> string \<Rightarrow>
     (auth_store \<times> key_info option \<times> nat option) option" where
  "auth_lookup parse fp a st data fpr =
     (case reload parse fp a st data of
        None \<Rightarrow> None
      | Some (a', r) \<Rightarrow>
          let ks = (case ak_keys a' of None \<Rightarrow> [] | Some ks \<Rightarrow> ks) in
          Some (a', get ks fpr, (if r = Inr True then Some (length ks) else None)))"

section \<open>Lookups over time\<close>

fun auth_run ::
  "(string \<Rightarrow> ('k \<times> string \<times> string list \<times> string) option) \<Rightarrow> ('k \<Rightarrow> string) \<Rightarrow>
     (gotime file_obs \<times> string) list \<Rightarrow> auth_store \<Rightarrow> auth_store option" where
  "auth_run parse fp [] a = Some a"
| "auth_run parse fp ((ob, q) # obs) a =
     (case auth_lookup parse fp a (map_option fst ob) (Option.bind ob snd) q of
        None \<Rightarrow> None
      | Some (a', _) \<Rightarrow> auth_run parse fp obs a')"

text \<open>
  The content in force after some looks at the file: the one it had when it was first read with the
  modification time it had when it could last be read.
\<close>

definition in_force :: "gotime file_obs list \<Rightarrow> (gotime \<times> string) option" where
  "in_force obs =
     (case rev (readable obs) of
        [] \<Rightarrow> None
      | r # rs \<Rightarrow> Some (last (r # takeWhile (\<lambda>x. fst x = fst r) rs)))"

section \<open>Lemmas on lookups\<close>

definition shrinks :: "(string \<Rightarrow> ('k \<times> string \<times> string list \<times> string) option) \<Rightarrow> bool" where
  "shrinks parse \<longleftrightarrow>
     (\<forall>d k c os r. parse d = Some (k, c, os, r) \<longrightarrow> length r < length d)"

lemma load_loop_total: "shrinks parse \<Longrightarrow> \<exists>ks. load_loop parse fp d out = Some ks"
proof (induction d arbitrary: out rule: measure_induct_rule [of length])
  case (less d)
  show ?case
  proof (cases "parse d")
    case None
    then show ?thesis by (simp add: load_loop.simps)
  next
    case (Some kcor)
    obtain k c os r where p: "kcor = (k, c, os, r)" by (cases kcor) auto
    with Some less.prems have "length r < length d" by (auto simp: shrinks_def)
    with less Some p show ?thesis by (auto simp: load_loop.simps [of parse fp d])
  qed
qed

lemma in_force_time: "in_force obs = Some (m, d) \<Longrightarrow> fst (last (readable obs)) = m \<and> readable obs \<noteq> []"
proof -
  assume a: "in_force obs = Some (m, d)"
  then obtain r rs where r: "rev (readable obs) = r # rs"
    and l: "last (r # takeWhile (\<lambda>x. fst x = fst r) rs) = (m, d)"
    by (auto simp: in_force_def split: list.splits)
  have "\<forall>x \<in> set (r # takeWhile (\<lambda>x. fst x = fst r) rs). fst x = fst r"
    using set_takeWhileD by fastforce
  moreover have "(m, d) \<in> set (r # takeWhile (\<lambda>x. fst x = fst r) rs)"
    unfolding l [symmetric] by (rule last_in_set) simp
  ultimately have "m = fst r" by (metis fst_conv)
  moreover have "readable obs = rev rs @ [r]" using r by (metis rev.simps(2) rev_rev_ident)
  ultimately show ?thesis by simp
qed

text \<open>How one more observation changes the content in force.\<close>

lemma in_force_snoc:
  "in_force (obs @ [ob]) =
     (case ob of
        Some (m, Some d) \<Rightarrow>
          (case in_force obs of None \<Rightarrow> Some (m, d)
           | Some (m', d') \<Rightarrow> if m = m' then Some (m', d') else Some (m, d))
      | _ \<Rightarrow> in_force obs)"
proof (cases "\<exists>m d. ob = Some (m, Some d)")
  case False
  then show ?thesis by (auto simp: in_force_def readable_snoc split: option.split)
next
  case True
  then obtain m d where ob: "ob = Some (m, Some d)" by blast
  show ?thesis
  proof (cases "rev (readable obs)")
    case Nil
    then show ?thesis by (simp add: in_force_def readable_snoc ob)
  next
    case (Cons r rs)
    obtain m' d' where f: "in_force obs = Some (m', d')"
      using Cons by (cases "in_force obs") (auto simp: in_force_def)
    have "readable obs = rev rs @ [r]" using Cons by (metis rev.simps(2) rev_rev_ident)
    then have "m' = fst r" using in_force_time [OF f] by simp
    with Cons f show ?thesis by (auto simp: in_force_def readable_snoc ob)
  qed
qed

definition auth_sync ::
  "(string \<Rightarrow> ('k \<times> string \<times> string list \<times> string) option) \<Rightarrow> ('k \<Rightarrow> string) \<Rightarrow>
     auth_store \<Rightarrow> (gotime \<times> string) option \<Rightarrow> bool" where
  "auth_sync parse fp a acc \<longleftrightarrow>
     (case acc of
        None \<Rightarrow> ak_keys a = None
      | Some (m, d) \<Rightarrow> ak_mtime a = m \<and> ak_keys a \<noteq> None \<and> ak_keys a = load_loop parse fp d [])"

definition keys_at ::
  "(string \<Rightarrow> ('k \<times> string \<times> string list \<times> string) option) \<Rightarrow> ('k \<Rightarrow> string) \<Rightarrow>
     (gotime \<times> string) option \<Rightarrow> key_map" where
  "keys_at parse fp acc =
     (case acc of None \<Rightarrow> [] | Some (_, d) \<Rightarrow> the (load_loop parse fp d []))"

lemma auth_sync_start: "auth_sync parse fp NewAuth (in_force [])"
  by (simp add: auth_sync_def NewAuth_def in_force_def readable_def List.map_filter_def)

lemma auth_lookup_step:
  assumes "shrinks parse" and sy: "auth_sync parse fp a (in_force obs)"
  shows "\<exists>a' lg. auth_lookup parse fp a (map_option fst ob) (Option.bind ob snd) q
             = Some (a', get (keys_at parse fp (in_force (obs @ [ob]))) q, lg)
           \<and> auth_sync parse fp a' (in_force (obs @ [ob]))"
proof (cases "\<exists>m d. ob = Some (m, Some d)")
  case False
  then have same: "in_force (obs @ [ob]) = in_force obs" by (auto simp: in_force_snoc split: option.split)
  from False consider "ob = None" | m where "ob = Some (m, None)" by (cases ob) auto
  then show ?thesis
    using sy unfolding same
    by cases (auto simp: auth_lookup_def reload_def loadAuthorized_def auth_sync_def keys_at_def Let_def
        split: option.splits dest: sym)
next
  case True
  then obtain m d where ob: "ob = Some (m, Some d)" by blast
  obtain ks where ks: "load_loop parse fp d [] = Some ks"
    using load_loop_total [OF assms(1)] by blast
  show ?thesis
  proof (cases "in_force obs")
    case None
    then show ?thesis
      using sy ks by (simp add: in_force_snoc ob auth_sync_def auth_lookup_def reload_def
          loadAuthorized_def keys_at_def)
  next
    case (Some md)
    obtain m' d' where md: "md = (m', d')" by (cases md)
    obtain ks' where "ak_keys a = Some ks'" "load_loop parse fp d' [] = Some ks'" "ak_mtime a = m'"
      using sy by (cases "ak_keys a") (simp_all add: Some md auth_sync_def)
    with ks show ?thesis
      by (auto simp: in_force_snoc ob Some md auth_sync_def auth_lookup_def reload_def
          loadAuthorized_def keys_at_def)
  qed
qed

lemma auth_run_sync:
  assumes "shrinks parse" and "auth_sync parse fp a (in_force hist)"
  shows "\<exists>a'. auth_run parse fp obs a = Some a'
           \<and> auth_sync parse fp a' (in_force (hist @ map fst obs))"
  using assms(2)
proof (induction obs arbitrary: a hist)
  case (Cons x obs)
  obtain ob q where x: "x = (ob, q)" by (cases x)
  obtain a' ans lg where
    "auth_lookup parse fp a (map_option fst ob) (Option.bind ob snd) q = Some (a', ans, lg)"
    and "auth_sync parse fp a' (in_force (hist @ [ob]))"
    using auth_lookup_step [OF assms(1) Cons.prems] by blast
  with Cons.IH [of a' "hist @ [ob]"] x show ?case by simp
qed simp

text \<open>When edits show, the content in force is the last one that could be read.\<close>

lemma in_force_last:
  assumes "edits_show obs"
  shows "map_option snd (in_force obs) =
           (if readable obs = [] then None else Some (snd (last (readable obs))))"
proof (cases "rev (readable obs)")
  case Nil
  then show ?thesis by (simp add: in_force_def)
next
  case (Cons r rs)
  then have rd: "readable obs = rev rs @ [r]" by (metis rev.simps(2) rev_rev_ident)
  let ?x = "last (r # takeWhile (\<lambda>x. fst x = fst r) rs)"
  have "?x \<in> set (r # takeWhile (\<lambda>x. fst x = fst r) rs)" by (rule last_in_set) simp
  then have "fst ?x = fst r" "?x \<in> set (readable obs)" "r \<in> set (readable obs)"
    using set_takeWhileD rd by fastforce+
  then have "snd ?x = snd r" using assms unfolding edits_show_def by blast
  then show ?thesis by (simp add: in_force_def Cons rd)
qed

section \<open>Lemmas on ports\<close>

definition number_char :: "char \<Rightarrow> bool" where
  "number_char c \<longleftrightarrow> c = CHR ''+'' \<or> c = CHR ''-'' \<or> digit_val c \<noteq> None"

lemma digits_val_chars: "digits_val acc s = Some n \<Longrightarrow> \<forall>c \<in> set s. digit_val c \<noteq> None"
  by (induction acc s rule: digits_val.induct) (auto split: option.splits)

lemma atoi_chars: "atoi s = Some n \<Longrightarrow> s \<noteq> [] \<and> (\<forall>c \<in> set s. number_char c)"
  by (cases s)
    (auto simp: atoi_def parse_int_def split_sign_def number_char_def
      dest!: digits_val_chars split: if_splits option.splits)

lemma number_char_plain: "number_char c \<Longrightarrow> c \<noteq> CHR '','' \<and> \<not> is_space c"
  by (auto simp: number_char_def is_space_def digit_val_def Let_def split: if_splits)

lemma trim_space_atoi: "atoi s = Some n \<Longrightarrow> trim_space s = s"
  by (rule trim_space_plain) (auto dest!: atoi_chars number_char_plain)

lemma set_parse_fold:
  "set (foldl (\<lambda>m p. case atoi (trim_space p) of None \<Rightarrow> m | Some n \<Rightarrow> List.insert (word_of_int n) m)
       m ps) =
   set m \<union> {word_of_int n | p n. p \<in> set ps \<and> atoi (trim_space p) = Some n}"
  by (induction ps arbitrary: m) (auto split: option.splits)

lemma set_parsePorts:
  "set (parsePorts csv) =
     {word_of_int n | p n. p \<in> set (split_on (CHR '','') csv) \<and> atoi (trim_space p) = Some n}"
  by (simp add: parsePorts_def set_parse_fold)

lemma option_port_atoi: "option_port opt = Some v \<Longrightarrow> \<exists>n. atoi v = Some n"
  by (auto simp: option_port_def Let_def split: if_splits)

lemma split_on_join_numbers:
  assumes "\<forall>v \<in> set vs. \<exists>n. atoi v = Some n"
  shows "{w. w \<in> set (split_on (CHR '','') (join '','' vs)) \<and> (\<exists>n. atoi (trim_space w) = Some n)} = set vs"
proof (cases "vs = []")
  case True
  then show ?thesis by (auto simp: trim_space_def trim_left_def trim_right_def atoi_def
      parse_int_def split_sign_def)
next
  case False
  have "\<forall>v \<in> set vs. CHR '','' \<notin> set v"
    using assms by (auto dest!: bspec atoi_chars number_char_plain)
  with False have "split_on (CHR '','') (join '','' vs) = vs" by (simp add: split_on_join)
  then show ?thesis using assms trim_space_atoi by fastforce
qed

lemma set_map_filter: "set (List.map_filter f xs) = {y. \<exists>x \<in> set xs. f x = Some y}"
  by (force simp: List.map_filter_def image_iff)

section \<open>Properties\<close>

text \<open>
  C8. Access follows the file, as far as its modification time tells. Whatever the sequence of
  lookups, with the file changing, disappearing or unreadable between them, every lookup returns (the
  loop over the file ends). It answers from the content the file had when it was first read with the
  modification time it has now, or had when it last could be read: an edit that keeps the
  modification time is missed until that changes. If every edit gives the file a modification time
  it has not had before, each lookup answers from the content at the last moment it could be read: a
  key that is added or revoked takes effect at the next lookup, and while the file cannot be read the
  previous keys stay in force. The hypothesis is the parser's contract: the rest it returns is shorter
  than its input.
\<close>

theorem lookup_follows_file:
  assumes "\<forall>d k c os r. parse d = Some (k, c, os, r) \<longrightarrow> length r < length d"
  shows "\<exists>a a' ans lg.
           auth_run parse fp obs NewAuth = Some a
           \<and> auth_lookup parse fp a (map_option fst ob) (Option.bind ob snd) q = Some (a', ans, lg)
           \<and> ans = (case in_force (map fst obs @ [ob]) of
                      None \<Rightarrow> None
                    | Some (_, d) \<Rightarrow> get (the (load_loop parse fp d [])) q)
           \<and> (edits_show (map fst obs @ [ob]) \<longrightarrow>
               ans = (case rev (readable (map fst obs @ [ob])) of
                        [] \<Rightarrow> None
                      | (_, d) # _ \<Rightarrow> get (the (load_loop parse fp d [])) q))"
proof -
  have sh: "shrinks parse" using assms by (simp add: shrinks_def)
  let ?obs = "map fst obs @ [ob]"
  obtain a where run: "auth_run parse fp obs NewAuth = Some a"
    and sy: "auth_sync parse fp a (in_force (map fst obs))"
    using auth_run_sync [OF sh auth_sync_start] by fastforce
  obtain a' lg where l: "auth_lookup parse fp a (map_option fst ob) (Option.bind ob snd) q
       = Some (a', get (keys_at parse fp (in_force ?obs)) q, lg)"
    using auth_lookup_step [OF sh sy, of ob q] by blast
  have ans: "get (keys_at parse fp (in_force ?obs)) q =
      (case map_option snd (in_force ?obs) of None \<Rightarrow> None | Some d \<Rightarrow> get (the (load_loop parse fp d [])) q)"
    by (auto simp: keys_at_def split: option.split)
  have "get (keys_at parse fp (in_force ?obs)) q =
      (case rev (readable ?obs) of [] \<Rightarrow> None | (_, d) # _ \<Rightarrow> get (the (load_loop parse fp d [])) q)"
    if "edits_show ?obs"
    unfolding ans in_force_last [OF that]
    by (auto simp: hd_rev [symmetric] split: list.split)
  with run l ans show ?thesis by (auto split: option.split)
qed

text \<open>A parser of one line per key, whose key and comment are the line itself.\<close>

definition line_parse :: "string \<Rightarrow> (string \<times> string \<times> string list \<times> string) option" where
  "line_parse d =
     (if d = [] then None
      else let l = takeWhile (\<lambda>c. c \<noteq> CHR 0x0A) d in
        Some (l, l, [''permitlisten=8080''], drop (Suc (length l)) d))"

lemma line_parse_shrinks:
  "\<forall>d k c os r. line_parse d = Some (k, c, os, r) \<longrightarrow> length r < length d"
  by (auto simp: line_parse_def Let_def split: if_splits)

lemma line_parse_load: "load_loop line_parse id [CHR ''k'', c] [] =
    Some [([CHR ''k'', c], info_of [''permitlisten=8080''] [CHR ''k'', c])]" if "c \<noteq> CHR 0x0A"
  using that by (simp add: load_loop.simps line_parse_def Let_def)

theorem lookup_follows_file_witness:
  "\<exists>a a' ans lg.
     auth_run line_parse id [(Some (1, Some ''k1''), ''k1''), (Some (2, None), ''k1'')] NewAuth = Some a
     \<and> auth_lookup line_parse id a (Some 2) (Some ''k2'') ''k1'' = Some (a', ans, lg) \<and> ans = None"
proof -
  have f: "in_force [Some (1, Some ''k1''), Some (2, None), Some (2, Some ''k2'')] = Some (2, ''k2'')"
    by (simp add: in_force_def readable_def List.map_filter_def)
  show ?thesis
    using lookup_follows_file [OF line_parse_shrinks,
        of id "[(Some (1, Some ''k1''), ''k1''), (Some (2, None), ''k1'')]" "Some (2, Some ''k2'')" "''k1''"]
    by (auto simp: f line_parse_load)
qed

text \<open>
  A key revoked by an edit that keeps the modification time (a second write within the clock tick of
  the file system, or a copy that preserves times) is still let in.
\<close>

lemma edit_within_mtime_is_missed:
  "\<exists>a a' lg. auth_run line_parse id [(Some (1, Some ''k1''), ''k1'')] NewAuth = Some a
     \<and> auth_lookup line_parse id a (Some 1) (Some ''k2'') ''k1''
         = Some (a', Some (info_of [''permitlisten=8080''] ''k1''), lg)"
  by (simp add: NewAuth_def auth_lookup_def reload_def loadAuthorized_def line_parse_load)

lemma set_parsePorts_info:
  "set (parsePorts (ki_Ports (info_of options comment))) =
     {word_of_int n | opt v n. opt \<in> set options \<and> option_port opt = Some v \<and> atoi v = Some n}"
proof -
  define vs where "vs = List.map_filter option_port options"
  have mem: "v \<in> set vs \<longleftrightarrow> (\<exists>opt \<in> set options. option_port opt = Some v)" for v
    by (simp add: vs_def set_map_filter)
  then have "\<forall>v \<in> set vs. \<exists>n. atoi v = Some n" using option_port_atoi by blast
  then have num: "v \<in> set (split_on (CHR '','') (join '','' vs)) \<and> (\<exists>n. atoi (trim_space v) = Some n)
        \<longleftrightarrow> v \<in> set vs" for v
    using split_on_join_numbers [of vs] by blast
  have trim: "atoi (trim_space v) = atoi v" if "v \<in> set vs" for v
    using that mem option_port_atoi trim_space_atoi by metis
  have "set (parsePorts (join '','' vs)) =
      {word_of_int n | v n. v \<in> set vs \<and> atoi v = Some n}"
    unfolding set_parsePorts using num trim by (metis (no_types, lifting))
  then show ?thesis using mem by (auto simp: info_of_def vs_def)
qed

text \<open>
  The ports a session may open are exactly those of its key's \<open>permitlisten\<close> options:
  collecting them into the comma-separated list and parsing that list back neither loses nor
  adds one (a key without such options may open none).
\<close>

lemma allowed_ports_of_options:
  "set (parsePorts (ki_Ports (info_of options comment))) =
     {word_of_int n | opt v n. opt \<in> set options \<and> option_port opt = Some v \<and> atoi v = Some n}"
  by (rule set_parsePorts_info)

text \<open>
  The conversion to 32 bits is not guarded: an option naming a port far above 65535
  grants the port it wraps to (here 8080).
\<close>

lemma permitlisten_wraps:
  "set (parsePorts (ki_Ports (info_of [''permitlisten='' @ [quote_char] @ ''4294975376'' @ [quote_char]] c)))
     = {8080}"
  by (simp add: info_of_def List.map_filter_def option_port_def has_prefix_def trim_prefix_def
      trim_quotes_def trim_left_def trim_right_def quote_char_def split_host_port_def
      last_index_byte_def parsePorts_def trim_space_def is_space_def atoi_def parse_int_def
      split_sign_def digit_val_def)

lemma trim_quotes_quoted:
  assumes "quote_char \<notin> set v" and "v \<noteq> []"
  shows "trim_quotes (quote_char # v @ [quote_char]) = v"
proof -
  have "hd v \<noteq> quote_char" "last v \<noteq> quote_char"
    using assms by (metis list.set_sel(1), metis last_in_set)
  with assms show ?thesis
    by (cases v) (auto simp: trim_quotes_def trim_left_def trim_right_def hd_rev
        intro!: dropWhile_none)
qed

text \<open>The option as the documentation writes it, alone or with a host.\<close>

definition permit :: "string option \<Rightarrow> nat \<Rightarrow> string" where
  "permit h p = ''permitlisten='' @ quote_char # (case h of None \<Rightarrow> [] | Some host \<Rightarrow> host @ '':'')
                  @ itoa (int p) @ [quote_char]"

lemma itoa_plain: "c \<in> set (itoa (int p)) \<Longrightarrow> c \<notin> {CHR '':'', CHR ''['', CHR '']'', quote_char}"
  using itoa_chars [of c p] by (auto simp: digit_val_def quote_char_def Let_def)

lemma atoi_itoa: "p < 2 ^ 63 \<Longrightarrow> atoi (itoa (int p)) = Some (int p)"
  unfolding atoi_def by (rule parse_int_itoa) (auto simp: nat_less_iff)

lemma index_byte_none: "c \<notin> set xs \<Longrightarrow> index_byte c xs = None"
  by (induction xs) auto

lemma split_host_port_no_colon: "CHR '':'' \<notin> set s \<Longrightarrow> split_host_port s = None"
  by (simp add: split_host_port_def last_index_byte_def index_byte_none)

definition plain_host :: "string option \<Rightarrow> bool" where
  "plain_host h \<longleftrightarrow>
     (case h of None \<Rightarrow> True
      | Some host \<Rightarrow> host \<noteq> []
          \<and> (\<forall>c \<in> set host. c \<notin> {CHR '':'', CHR ''['', CHR '']'', quote_char}))"

lemma option_port_permit:
  assumes "plain_host h" and "p < 2 ^ 63"
  shows "option_port (permit h p) = Some (itoa (int p))"
proof -
  let ?i = "itoa (int p)"
  let ?v = "(case h of None \<Rightarrow> [] | Some host \<Rightarrow> host @ '':'') @ ?i"
  have "quote_char \<notin> set ?v"
    using assms(1) itoa_plain [of quote_char p]
    by (auto simp: plain_host_def quote_char_def split: option.splits)
  then have trim: "trim_quotes (quote_char # ?v @ [quote_char]) = ?v"
    by (rule trim_quotes_quoted) simp
  have "trim_prefix (permit h p) ''permitlisten='' = quote_char # ?v @ [quote_char]"
    by (simp add: permit_def trim_prefix_def has_prefix_def)
  moreover have "has_prefix (permit h p) ''permitlisten=''"
    by (simp add: permit_def has_prefix_def)
  moreover have "(case split_host_port ?v of Some (_, ps) \<Rightarrow> ps | None \<Rightarrow> ?v) = ?i"
  proof (cases h)
    case None
    have "CHR '':'' \<notin> set ?i" using itoa_plain [of "CHR '':''" p] by blast
    then have "split_host_port ?i = None" by (rule split_host_port_no_colon)
    with None show ?thesis by simp
  next
    case (Some host)
    have "split_host_port (host @ CHR '':'' # ?i) = Some (host, ?i)"
      using Some assms(1) itoa_plain [of _ p]
      by (intro split_host_port_plain) (auto simp: plain_host_def)
    with Some show ?thesis by simp
  qed
  ultimately show ?thesis
    using trim atoi_itoa [OF assms(2)] by (simp add: option_port_def Let_def)
qed

text \<open>
  The documented format: a key whose options are \<open>permitlisten="<port>"\<close> or
  \<open>permitlisten="<host>:<port>"\<close>, in any number and mixed with other options that are not
  \<open>permitlisten\<close>, may open exactly those ports, for every port of 16 bits.
\<close>

lemma permitlisten_format:
  assumes "\<forall>(h, p) \<in> set ps. plain_host h \<and> p < 65536"
    and "\<forall>opt \<in> set others. \<not> has_prefix opt ''permitlisten=''"
    and "set options = set (map (\<lambda>(h, p). permit h p) ps) \<union> set others"
  shows "unat ` set (parsePorts (ki_Ports (info_of options comment))) = snd ` set ps"
proof -
  have opt: "option_port opt = Some v \<and> opt \<in> set options \<longleftrightarrow>
      (\<exists>h p. (h, p) \<in> set ps \<and> opt = permit h p \<and> v = itoa (int p))" for opt v
  proof -
    have "option_port (permit h p) = Some (itoa (int p))" if "(h, p) \<in> set ps" for h p
      using that assms(1) by (intro option_port_permit) auto
    moreover have "option_port opt = None" if "opt \<in> set others" for opt
      using that assms(2) by (simp add: option_port_def)
    ultimately show ?thesis using assms(3) by fastforce
  qed
  have val: "atoi (itoa (int p)) = Some (int p)" if "(h, p) \<in> set ps" for h p
    using that assms(1) by (intro atoi_itoa) auto
  have mem: "w \<in> set (parsePorts (ki_Ports (info_of options comment))) \<longleftrightarrow>
      (\<exists>h p. (h, p) \<in> set ps \<and> w = word_of_int (int p))" for w
  proof
    assume "w \<in> set (parsePorts (ki_Ports (info_of options comment)))"
    then obtain o' v n where w: "w = word_of_int n" "option_port o' = Some v \<and> o' \<in> set options"
      "atoi v = Some n"
      unfolding set_parsePorts_info by blast
    then obtain h p where "(h, p) \<in> set ps" "v = itoa (int p)" using opt [of o' v] by blast
    with w val [of h p] have "w = word_of_int (int p)" by simp
    with \<open>(h, p) \<in> set ps\<close> show "\<exists>h p. (h, p) \<in> set ps \<and> w = word_of_int (int p)" by blast
  next
    assume "\<exists>h p. (h, p) \<in> set ps \<and> w = word_of_int (int p)"
    then show "w \<in> set (parsePorts (ki_Ports (info_of options comment)))"
      unfolding set_parsePorts_info using opt val by blast
  qed
  have "unat (word_of_int (int p) :: u32) = p" if "(h, p) \<in> set ps" for h p
    using that assms(1) by (auto simp: unat_of_nat)
  then show ?thesis using mem by (force simp: image_iff)
qed

theorem permitlisten_format_witness:
  "unat ` set (parsePorts (ki_Ports (info_of
     [''no-pty'', permit None 8080, permit (Some ''0.0.0.0'') 8048] ''tk-site1-web''))) = {8080, 8048}"
  using permitlisten_format [of "[(None, 8080), (Some ''0.0.0.0'', 8048)]" "[''no-pty'']"
      "[''no-pty'', permit None 8080, permit (Some ''0.0.0.0'') 8048]" "''tk-site1-web''"]
  by (simp add: plain_host_def quote_char_def has_prefix_def insert_commute)

end
