(* ===== verification/Sessions.thy ===== *)
theory Sessions
  imports Auth Registry
begin

text \<open>
  The tunnel server, \<open>internal/tunnelserver/server.go\<close>: the outcome of a handshake, the
  session of an authenticated client with its forwarded listeners, and the manager that
  keeps one live session per client name. Each connection is handled by its own goroutine,
  so the server is a step relation in which any session may take its next step: register,
  close the session it evicts, wait for it, serve a request, end, and run its deferred calls.
  The operating system's table of listening sockets is part of the state.
\<close>

section \<open>Listening sockets\<close>

text \<open>
  \<open>os_open\<close> maps each open listener to the port it is bound to; \<open>os_foreign\<close> are the ports
  held by anything else on the machine. \<open>eph\<close> is the free port the kernel picks when port 0
  is asked for.
\<close>

record srv_os =
  os_open :: "(nat \<times> nat) list"
  os_next :: nat
  os_foreign :: "nat list"

definition port_used :: "srv_os \<Rightarrow> nat \<Rightarrow> bool" where
  "port_used os p \<longleftrightarrow> p \<in> set (os_foreign os) \<or> p \<in> set (map snd (os_open os))"

definition listenReuse :: "srv_os \<Rightarrow> u32 \<Rightarrow> nat \<Rightarrow> (srv_os \<times> nat) option" where
  "listenReuse os port eph =
     (let p = (if port = 0 then eph else unat port) in
      if p = 0 \<or> 65535 < p \<or> port_used os p then None
      else Some (os\<lparr>os_open := put (os_next os) p (os_open os), os_next := Suc (os_next os)\<rparr>,
                 os_next os))"

definition ln_Close :: "nat \<Rightarrow> srv_os \<Rightarrow> srv_os" where
  "ln_Close l os = os\<lparr>os_open := AList.delete l (os_open os)\<rparr>"

section \<open>Sessions and the manager\<close>

text \<open>
  Where the goroutine of \<open>handleConn\<close> is. \<open>Evicting o\<close>: it has replaced session \<open>o\<close> in the
  manager but not yet closed it; \<open>Waiting o\<close>: it waits for \<open>o\<close> to release its ports;
  \<open>Releasing\<close>, \<open>Unregistered\<close>: the request loop has ended and the deferred calls run.
\<close>

datatype phase =
  Registering
| Evicting nat
| Waiting nat
| Serving
| Releasing
| Unregistered
| Gone

record session =
  se_allowed :: "u32 list"
  se_fwds :: "(u32 \<times> nat) list"
  se_id :: string
  se_name :: string
  se_done :: bool
  se_closed :: bool
  se_phase :: phase

record server =
  sv_os :: srv_os
  sv_ss :: "session list"
  sv_byName :: "(string \<times> nat) list"
  sv_reg :: registry

definition upd_session :: "nat \<Rightarrow> (session \<Rightarrow> session) \<Rightarrow> server \<Rightarrow> server" where
  "upd_session k f w = w\<lparr>sv_ss := (sv_ss w)[k := f (sv_ss w ! k)]\<rparr>"

definition NewServerState :: "nat list \<Rightarrow> server" where
  "NewServerState foreign =
     \<lparr>sv_os = \<lparr>os_open = [], os_next = 0, os_foreign = foreign\<rparr>, sv_ss = [], sv_byName = [],
      sv_reg = NewRegistry\<rparr>"

section \<open>Handshakes\<close>

text \<open>
  The errors of the handshake as \<open>describeHandshakeErr\<close> tells them apart; \<open>dstr\<close> prints a
  duration.
\<close>

datatype handshake_error = Timed_out | Ended | Other_error string

definition describeHandshakeErr :: "(duration \<Rightarrow> string) \<Rightarrow> duration \<Rightarrow> handshake_error \<Rightarrow> string" where
  "describeHandshakeErr dstr timeout e =
     (case e of
        Timed_out \<Rightarrow>
          ''no complete SSH handshake within '' @ dstr timeout
            @ '' (TCP connected; peer sent nothing or stalled)''
      | Ended \<Rightarrow> ''peer closed the connection before the SSH handshake finished''
      | Other_error s \<Rightarrow> s)"

definition suppressedNote :: "int \<Rightarrow> string" where
  "suppressedNote n = (if n = 0 then [] else '' (+'' @ itoa n @ '' similar suppressed)'')"

definition host_of_addr :: "string \<Rightarrow> string" where
  "host_of_addr a = (case split_host_port a of None \<Rightarrow> [] | Some (h, _) \<Rightarrow> h)"

text \<open>
  A handshake that failed after \<open>d\<close>: the new registry, and the name of the known client and
  the number suppressed when it is logged.
\<close>

definition handshake_failed ::
  "(duration \<Rightarrow> string) \<Rightarrow> duration \<Rightarrow> registry \<Rightarrow> string \<Rightarrow> gotime \<Rightarrow> duration \<Rightarrow> handshake_error \<Rightarrow>
     registry \<times> (string \<times> string) option" where
  "handshake_failed dstr timeout r addr now d e =
     (let ip = host_of_addr addr;
          known = ClientAt r ip;
          trivial = (e = Ended \<and> d < 2 * second);
          msg = describeHandshakeErr dstr timeout e;
          (att, logIt, n) = Record (r_att r) now ip known d (Some msg) (known \<noteq> []) trivial
      in (r\<lparr>r_att := att\<rparr>, if logIt then Some (known, msg @ suppressedNote n) else None))"

text \<open>A handshake that succeeded: the session is made and added to the registry.\<close>

definition authenticated ::
  "server \<Rightarrow> string \<Rightarrow> key_info \<Rightarrow> gotime \<Rightarrow> duration \<Rightarrow> server" where
  "authenticated w addr info now d =
     (let s = \<lparr>se_allowed = parsePorts (ki_Ports info), se_fwds = [], se_id = addr,
               se_name = ki_Name info, se_done = False, se_closed = False, se_phase = Registering\<rparr>;
          ip = host_of_addr addr;
          (att, _, _) = Record (r_att (sv_reg w)) now ip (se_name s) d None False False;
          reg = (sv_reg w)\<lparr>r_att := att\<rparr>
      in w\<lparr>sv_ss := sv_ss w @ [s], sv_reg := reg_Add reg addr (new_client (se_name s) ip now)\<rparr>)"

section \<open>Requests\<close>

text \<open>
  A global request. \<open>rq_ok\<close> is whether the payload decodes; the port is what was decoded
  of it, also on failure.
\<close>

datatype req_type = Tcpip_forward | Cancel_tcpip_forward | Other_request

record request =
  rq_type :: req_type
  rq_want_reply :: bool
  rq_ok :: bool
  rq_port :: u32

definition reply :: "request \<Rightarrow> bool \<Rightarrow> bool option" where
  "reply rq b = (if rq_want_reply rq then Some b else None)"

definition startForward :: "server \<Rightarrow> nat \<Rightarrow> request \<Rightarrow> nat \<Rightarrow> server \<times> bool option" where
  "startForward w k rq eph =
     (let s = sv_ss w ! k; p = rq_port rq in
      if \<not> rq_ok rq \<or> p \<notin> set (se_allowed s) then (w, reply rq False)
      else (case listenReuse (sv_os w) p eph of
              None \<Rightarrow> (w, reply rq False)
            | Some (os, l) \<Rightarrow>
                let w = upd_session k (\<lambda>s. s\<lparr>se_fwds := put p l (se_fwds s)\<rparr>) (w\<lparr>sv_os := os\<rparr>)
                in (w\<lparr>sv_reg := AddPort (sv_reg w) (se_id s) p\<rparr>, reply rq True)))"

definition cancelForward :: "server \<Rightarrow> nat \<Rightarrow> request \<Rightarrow> server \<times> bool option" where
  "cancelForward w k rq =
     (let p = rq_port rq;
          w = (case get (se_fwds (sv_ss w ! k)) p of
                 None \<Rightarrow> w
               | Some l \<Rightarrow>
                   upd_session k (\<lambda>s. s\<lparr>se_fwds := AList.delete p (se_fwds s)\<rparr>)
                     (w\<lparr>sv_os := ln_Close l (sv_os w)\<rparr>))
      in (w, reply rq True))"

definition closeAll :: "server \<Rightarrow> nat \<Rightarrow> server" where
  "closeAll w k =
     upd_session k (\<lambda>s. s\<lparr>se_fwds := []\<rparr>)
       (w\<lparr>sv_os := fold ln_Close (map snd (se_fwds (sv_ss w ! k))) (sv_os w)\<rparr>)"

definition handle_request :: "server \<Rightarrow> nat \<Rightarrow> request \<Rightarrow> nat \<Rightarrow> server \<times> bool option" where
  "handle_request w k rq eph =
     (case rq_type rq of
        Tcpip_forward \<Rightarrow> startForward w k rq eph
      | Cancel_tcpip_forward \<Rightarrow> cancelForward w k rq
      | Other_request \<Rightarrow> (w, reply rq False))"

section \<open>The session manager\<close>

text \<open>The critical section of \<open>register\<close>, which decides whether there is a session to evict.\<close>

definition register_swap :: "server \<Rightarrow> nat \<Rightarrow> server" where
  "register_swap w k =
     (let n = se_name (sv_ss w ! k) in
      if n = [] then upd_session k (\<lambda>s. s\<lparr>se_phase := Serving\<rparr>) w
      else
        let old = get (sv_byName w) n; w = w\<lparr>sv_byName := put n k (sv_byName w)\<rparr> in
        (case old of
           None \<Rightarrow> upd_session k (\<lambda>s. s\<lparr>se_phase := Serving\<rparr>) w
         | Some o' \<Rightarrow>
             (if o' = k then upd_session k (\<lambda>s. s\<lparr>se_phase := Serving\<rparr>) w
              else upd_session k (\<lambda>s. s\<lparr>se_phase := Evicting o'\<rparr>) w)))"

definition unregister :: "server \<Rightarrow> nat \<Rightarrow> server" where
  "unregister w k =
     (let n = se_name (sv_ss w ! k) in
      if n = [] then w
      else if get (sv_byName w) n = Some k then w\<lparr>sv_byName := AList.delete n (sv_byName w)\<rparr>
      else w)"

definition sconn_Close :: "nat \<Rightarrow> server \<Rightarrow> server" where
  "sconn_Close k = upd_session k (\<lambda>s. s\<lparr>se_closed := True\<rparr>)"

definition set_phase :: "phase \<Rightarrow> nat \<Rightarrow> server \<Rightarrow> server" where
  "set_phase ph k = upd_session k (\<lambda>s. s\<lparr>se_phase := ph\<rparr>)"

section \<open>The server as a step relation\<close>

text \<open>
  Each step has an actor: the goroutine of session \<open>k\<close>, the same goroutine giving up its wait for
  an evicted session, or the outside: a handshake that ends, a connection that is closed by its
  client, the network or its keepalive.
\<close>

datatype actor = Outside | Session nat | Gives_up nat

inductive srv_act :: "actor \<Rightarrow> server \<Rightarrow> server \<Rightarrow> bool" where
  ac_failed:
    "srv_act Outside w (w\<lparr>sv_reg := fst (handshake_failed dstr timeout (sv_reg w) addr now d e)\<rparr>)"
| ac_accept:
    "srv_act Outside w (authenticated w addr info now d)"
| ac_register:
    "k < length (sv_ss w) \<Longrightarrow> se_phase (sv_ss w ! k) = Registering \<Longrightarrow> srv_act (Session k) w (register_swap w k)"
| ac_evict:
    "k < length (sv_ss w) \<Longrightarrow> se_phase (sv_ss w ! k) = Evicting v \<Longrightarrow>
       srv_act (Session k) w (set_phase (Waiting v) k (sconn_Close v w))"
| ac_released:
    "k < length (sv_ss w) \<Longrightarrow> se_phase (sv_ss w ! k) = Waiting v \<Longrightarrow> se_done (sv_ss w ! v) \<Longrightarrow>
       srv_act (Session k) w (set_phase Serving k w)"
| ac_evict_timeout:
    "k < length (sv_ss w) \<Longrightarrow> se_phase (sv_ss w ! k) = Waiting v \<Longrightarrow>
       srv_act (Gives_up k) w (set_phase Serving k w)"
| ac_request:
    "k < length (sv_ss w) \<Longrightarrow> se_phase (sv_ss w ! k) = Serving \<Longrightarrow>
       srv_act (Session k) w (fst (handle_request w k rq eph))"
| ac_drop:
    "k < length (sv_ss w) \<Longrightarrow> srv_act Outside w (sconn_Close k w)"
| ac_end:
    "k < length (sv_ss w) \<Longrightarrow> se_phase (sv_ss w ! k) = Serving \<Longrightarrow> se_closed (sv_ss w ! k) \<Longrightarrow>
       srv_act (Session k) w (upd_session k (\<lambda>s. s\<lparr>se_done := True, se_phase := Releasing\<rparr>) (closeAll w k))"
| ac_unregister:
    "k < length (sv_ss w) \<Longrightarrow> se_phase (sv_ss w ! k) = Releasing \<Longrightarrow>
       srv_act (Session k) w (set_phase Unregistered k (unregister w k))"
| ac_del:
    "k < length (sv_ss w) \<Longrightarrow> se_phase (sv_ss w ! k) = Unregistered \<Longrightarrow>
       srv_act (Session k) w (set_phase Gone k (w\<lparr>sv_reg := reg_Del (sv_reg w) (se_id (sv_ss w ! k))\<rparr>))"

definition srv_step :: "server \<Rightarrow> server \<Rightarrow> bool" where
  "srv_step w w' \<longleftrightarrow> (\<exists>a. srv_act a w w')"

lemma srv_stepI: "srv_act a w w' \<Longrightarrow> srv_step w w'"
  by (auto simp: srv_step_def)

lemmas st_accept = srv_stepI [OF ac_accept] and st_register = srv_stepI [OF ac_register]
  and st_evict = srv_stepI [OF ac_evict] and st_released = srv_stepI [OF ac_released]
  and st_evict_timeout = srv_stepI [OF ac_evict_timeout] and st_request = srv_stepI [OF ac_request]
  and st_drop = srv_stepI [OF ac_drop] and st_end = srv_stepI [OF ac_end]

definition srv_start :: "server \<Rightarrow> bool" where
  "srv_start w \<longleftrightarrow> (\<exists>foreign. w = NewServerState foreign)"

section \<open>Views of the state\<close>

definition fwd :: "server \<Rightarrow> nat \<Rightarrow> u32 \<Rightarrow> nat option" where
  "fwd w k p = (if k < length (sv_ss w) then get (se_fwds (sv_ss w ! k)) p else None)"

definition opn :: "server \<Rightarrow> nat \<Rightarrow> nat option" where
  "opn w l = get (os_open (sv_os w)) l"

lemma length_upd_session [simp]: "length (sv_ss (upd_session k f w)) = length (sv_ss w)"
  by (simp add: upd_session_def)

lemma upd_session_sel [simp]:
  "sv_os (upd_session k f w) = sv_os w" "sv_byName (upd_session k f w) = sv_byName w"
  "sv_reg (upd_session k f w) = sv_reg w"
  by (simp_all add: upd_session_def)

lemma nth_upd_session:
  "j < length (sv_ss w) \<Longrightarrow>
     sv_ss (upd_session k f w) ! j = (if j = k then f (sv_ss w ! k) else sv_ss w ! j)"
  by (simp add: upd_session_def nth_list_update)

lemma fwd_upd_session:
  "fwd (upd_session k f w) j p =
     (if j = k \<and> k < length (sv_ss w) then get (se_fwds (f (sv_ss w ! k))) p else fwd w j p)"
  by (simp add: fwd_def nth_upd_session)

lemma fwd_cong: "sv_ss w' = sv_ss w \<Longrightarrow> fwd w' = fwd w"
  by (simp add: fwd_def fun_eq_iff)

lemma opn_cong: "sv_os w' = sv_os w \<Longrightarrow> opn w' = opn w"
  by (simp add: opn_def fun_eq_iff)

lemma fwd_sel [simp]:
  "fwd (w\<lparr>sv_os := os\<rparr>) = fwd w" "fwd (w\<lparr>sv_byName := b\<rparr>) = fwd w" "fwd (w\<lparr>sv_reg := r\<rparr>) = fwd w"
  by (rule fwd_cong, simp)+

lemma opn_sel [simp]:
  "opn (w\<lparr>sv_byName := b\<rparr>) = opn w" "opn (w\<lparr>sv_reg := r\<rparr>) = opn w"
  "opn (upd_session k f w) = opn w" "opn (w\<lparr>sv_os := os\<rparr>) l = get (os_open os) l"
  by (simp_all add: opn_def fun_eq_iff)

section \<open>Ownership of the listeners\<close>

definition no_zero :: "server \<Rightarrow> bool" where
  "no_zero w \<longleftrightarrow> (\<forall>s \<in> set (sv_ss w). 0 \<notin> set (se_allowed s))"

definition os_ok :: "srv_os \<Rightarrow> bool" where
  "os_ok os \<longleftrightarrow> keys_ok (os_open os)
     \<and> (\<forall>l q. get (os_open os) l = Some q \<longrightarrow> l < os_next os \<and> 0 < q \<and> q \<le> 65535 \<and> q \<notin> set (os_foreign os))
     \<and> (\<forall>l l' q. get (os_open os) l = Some q \<longrightarrow> get (os_open os) l' = Some q \<longrightarrow> l = l')"

text \<open>The phases of a session that is done.\<close>

definition ended :: "phase \<Rightarrow> bool" where
  "ended ph \<longleftrightarrow> ph \<in> {Releasing, Unregistered, Gone}"

definition session_ok :: "session \<Rightarrow> bool" where
  "session_ok s \<longleftrightarrow> keys_ok (se_fwds s) \<and> set (map fst (se_fwds s)) \<subseteq> set (se_allowed s)
     \<and> (se_done s \<longleftrightarrow> ended (se_phase s)) \<and> (se_fwds s \<noteq> [] \<longrightarrow> se_phase s = Serving)"

definition own_ok :: "server \<Rightarrow> bool" where
  "own_ok w \<longleftrightarrow>
     (\<forall>k p l. fwd w k p = Some l \<longrightarrow> (\<exists>q. opn w l = Some q \<and> (p \<noteq> 0 \<longrightarrow> q = unat p)))
     \<and> (\<forall>k k' p p' l. fwd w k p = Some l \<longrightarrow> fwd w k' p' = Some l \<longrightarrow> k = k' \<and> p = p')
     \<and> (no_zero w \<longrightarrow> (\<forall>l q. opn w l = Some q \<longrightarrow> (\<exists>k p. fwd w k p = Some l)))"

definition ports_inv :: "server \<Rightarrow> bool" where
  "ports_inv w \<longleftrightarrow> os_ok (sv_os w) \<and> (\<forall>s \<in> set (sv_ss w). session_ok s) \<and> own_ok w"

subsection \<open>The socket table\<close>

lemma port_used_iff:
  "os_ok os \<Longrightarrow> port_used os q \<longleftrightarrow> q \<in> set (os_foreign os) \<or> (\<exists>l. get (os_open os) l = Some q)"
  unfolding port_used_def os_ok_def using value_get [of "os_open os" q] by blast

lemma listenReuse_Some:
  assumes "listenReuse os p eph = Some (os', l)"
  obtains q where "l = os_next os" "os' = os\<lparr>os_open := put l q (os_open os), os_next := Suc l\<rparr>"
    "0 < q" "q \<le> 65535" "\<not> port_used os q" "p \<noteq> 0 \<longrightarrow> q = unat p"
  using assms by (auto simp: listenReuse_def Let_def split: if_splits)

lemma os_ok_listen:
  assumes "os_ok os" and "listenReuse os p eph = Some (os', l)"
  shows "os_ok os'"
proof -
  obtain q where os': "l = os_next os" "os' = os\<lparr>os_open := put l q (os_open os), os_next := Suc l\<rparr>"
    and q: "0 < q" "q \<le> 65535" "\<not> port_used os q"
    using assms(2) by (rule listenReuse_Some)
  have old: "m < os_next os \<and> 0 < r \<and> r \<le> 65535 \<and> r \<notin> set (os_foreign os)"
    "m' = m" if "get (os_open os) m = Some r" "get (os_open os) m' = Some r" for m m' r
    using assms(1) that unfolding os_ok_def by blast+
  have "r \<noteq> q" if "get (os_open os) m = Some r" for m r
    using that q(3) port_used_iff [OF assms(1)] by blast
  then show ?thesis
    using assms(1) q os' old port_used_iff [OF assms(1), of q] unfolding os_ok_def
    by (auto simp: keys_ok_put less_SucI split: if_splits)
qed

lemma get_ln_Close [simp]:
  "get (os_open (ln_Close l os)) m = (if m = l then None else get (os_open os) m)"
  by (simp add: ln_Close_def delete_conv')

lemma ln_Close_sel [simp]:
  "os_next (ln_Close l os) = os_next os" "os_foreign (ln_Close l os) = os_foreign os"
  by (simp_all add: ln_Close_def)

lemma os_ok_Close: "os_ok os \<Longrightarrow> os_ok (ln_Close l os)"
  by (auto simp: os_ok_def ln_Close_def distinct_delete delete_conv' split: if_splits)

lemma os_ok_closes: "os_ok os \<Longrightarrow> os_ok (fold ln_Close ls os)"
  by (induction ls arbitrary: os) (simp_all add: os_ok_Close)

lemma get_closes:
  "get (os_open (fold ln_Close ls os)) m = (if m \<in> set ls then None else get (os_open os) m)"
  by (induction ls arbitrary: os) auto

subsection \<open>Every step keeps the ownership\<close>

lemma own_ok_same:
  "own_ok w \<Longrightarrow> fwd w' = fwd w \<Longrightarrow> opn w' = opn w \<Longrightarrow> (no_zero w' \<Longrightarrow> no_zero w) \<Longrightarrow> own_ok w'"
  unfolding own_ok_def by simp

lemma no_zero_nth: "no_zero w \<longleftrightarrow> (\<forall>j < length (sv_ss w). 0 \<notin> set (se_allowed (sv_ss w ! j)))"
  by (simp add: no_zero_def all_set_conv_all_nth)

lemma no_zero_upd:
  "(\<And>s. se_allowed (f s) = se_allowed s) \<Longrightarrow> no_zero (upd_session k f w) = no_zero w"
  by (auto simp: no_zero_nth nth_upd_session)

lemma sessions_ok_upd:
  "\<forall>s \<in> set (sv_ss w). session_ok s \<Longrightarrow> (k < length (sv_ss w) \<Longrightarrow> session_ok (f (sv_ss w ! k))) \<Longrightarrow>
     \<forall>s \<in> set (sv_ss (upd_session k f w)). session_ok s"
  by (auto simp: all_set_conv_all_nth nth_upd_session)

lemma session_ok_nth: "ports_inv w \<Longrightarrow> k < length (sv_ss w) \<Longrightarrow> session_ok (sv_ss w ! k)"
  by (simp add: ports_inv_def)

lemma ports_inv_upd:
  assumes "ports_inv w" and "\<And>s. se_fwds (f s) = se_fwds s" and "\<And>s. se_allowed (f s) = se_allowed s"
    and "k < length (sv_ss w) \<Longrightarrow> session_ok (f (sv_ss w ! k))"
  shows "ports_inv (upd_session k f w)"
proof -
  have "fwd (upd_session k f w) = fwd w"
    by (rule ext)+ (simp add: fwd_def nth_upd_session assms(2))
  then have "own_ok (upd_session k f w)"
    using assms(1) no_zero_upd [OF assms(3), of k w]
    by - (rule own_ok_same [of w], simp_all add: ports_inv_def)
  moreover have "\<forall>s \<in> set (sv_ss (upd_session k f w)). session_ok s"
    using assms(1,4) by - (rule sessions_ok_upd, simp_all add: ports_inv_def)
  ultimately show ?thesis
    using assms(1) by (simp add: ports_inv_def)
qed

lemma ports_inv_cong:
  assumes "sv_os w' = sv_os w" and "sv_ss w' = sv_ss w" and "ports_inv w"
  shows "ports_inv w'"
proof -
  have "no_zero w' = no_zero w" using assms(2) by (simp add: no_zero_def)
  then have "own_ok w'"
    using assms(3) fwd_cong [OF assms(2)] opn_cong [OF assms(1)]
    by - (rule own_ok_same [of w], simp_all add: ports_inv_def)
  with assms show ?thesis by (simp add: ports_inv_def)
qed

lemma ports_inv_sel:
  "ports_inv w \<Longrightarrow> ports_inv (w\<lparr>sv_byName := b\<rparr>)" "ports_inv w \<Longrightarrow> ports_inv (w\<lparr>sv_reg := r\<rparr>)"
  by (rule ports_inv_cong [of _ w], simp_all)+

lemma ports_inv_phase:
  assumes "ports_inv w" and "k < length (sv_ss w)"
    and "ended ph = ended (se_phase (sv_ss w ! k))"
    and "se_phase (sv_ss w ! k) = Serving \<Longrightarrow> ph = Serving"
  shows "ports_inv (set_phase ph k w)"
  unfolding set_phase_def
  using session_ok_nth [OF assms(1,2)] assms
  by (intro ports_inv_upd) (auto simp: session_ok_def)

lemma ports_inv_Close: "ports_inv w \<Longrightarrow> ports_inv (sconn_Close k w)"
  unfolding sconn_Close_def using session_ok_nth [of w k]
  by (intro ports_inv_upd) (auto simp: session_ok_def)

lemma sconn_Close_sel [simp]:
  "length (sv_ss (sconn_Close k w)) = length (sv_ss w)" "sv_os (sconn_Close k w) = sv_os w"
  "sv_byName (sconn_Close k w) = sv_byName w" "sv_reg (sconn_Close k w) = sv_reg w"
  by (simp_all add: sconn_Close_def)

lemma set_phase_sel [simp]:
  "length (sv_ss (set_phase ph k w)) = length (sv_ss w)" "sv_os (set_phase ph k w) = sv_os w"
  "sv_byName (set_phase ph k w) = sv_byName w" "sv_reg (set_phase ph k w) = sv_reg w"
  by (simp_all add: set_phase_def)

lemma phase_sconn_Close:
  "j < length (sv_ss w) \<Longrightarrow> se_phase (sv_ss (sconn_Close k w) ! j) = se_phase (sv_ss w ! j)"
  by (simp add: sconn_Close_def nth_upd_session)

lemma authenticated_ss:
  "\<exists>s. sv_ss (authenticated w addr info now d) = sv_ss w @ [s] \<and> se_fwds s = [] \<and> \<not> se_done s
     \<and> \<not> se_closed s \<and> se_phase s = Registering \<and> se_name s = ki_Name info
     \<and> se_allowed s = parsePorts (ki_Ports info) \<and> se_id s = addr"
  by (auto simp: authenticated_def Let_def split: prod.splits)

lemma authenticated_sel [simp]:
  "sv_os (authenticated w addr info now d) = sv_os w"
  "sv_byName (authenticated w addr info now d) = sv_byName w"
  by (auto simp: authenticated_def Let_def split: prod.splits)

lemma ports_inv_authenticated:
  assumes "ports_inv w"
  shows "ports_inv (authenticated w addr info now d)"
proof -
  let ?w = "authenticated w addr info now d"
  obtain s where s: "sv_ss ?w = sv_ss w @ [s]" "se_fwds s = []" "\<not> se_done s" "se_phase s = Registering"
    using authenticated_ss by blast
  have "fwd ?w = fwd w"
    by (rule ext)+ (use s in \<open>auto simp: fwd_def nth_append less_Suc_eq\<close>)
  moreover have "no_zero w" if "no_zero ?w" using that s by (simp add: no_zero_def)
  moreover have "opn ?w = opn w" by (rule opn_cong) simp
  ultimately have "own_ok ?w" using assms own_ok_same by (meson ports_inv_def)
  with assms s show ?thesis by (simp add: ports_inv_def session_ok_def ended_def)
qed

lemma ports_inv_swap:
  assumes "ports_inv w" and "k < length (sv_ss w)" and "se_phase (sv_ss w ! k) = Registering"
  shows "ports_inv (register_swap w k)"
proof -
  have s: "se_fwds (sv_ss w ! k) = []" "\<not> se_done (sv_ss w ! k)"
    using session_ok_nth [OF assms(1,2)] assms(3) by (auto simp: session_ok_def ended_def)
  have "ports_inv (upd_session k (\<lambda>s. s\<lparr>se_phase := ph\<rparr>) v)"
    if "ph = Serving \<or> (\<exists>v. ph = Evicting v)" "ports_inv v" "sv_ss v = sv_ss w" for ph v
    using that s session_ok_nth [OF assms(1,2)]
    by (intro ports_inv_upd) (auto simp: session_ok_def ended_def)
  then show ?thesis
    using assms(1)
    by (auto simp: register_swap_def Let_def ports_inv_sel split: option.splits)
qed

lemma fwd_Some_less: "fwd w k p = Some l \<Longrightarrow> k < length (sv_ss w)"
  by (simp add: fwd_def split: if_splits)

text \<open>A new listener, with the entry that holds it.\<close>

lemma own_ok_open:
  assumes own: "own_ok w"
    and f: "\<And>j r. fwd w' j r = (if j = k \<and> r = p then Some l else fwd w j r)"
    and n: "\<And>m. opn w' m = (if m = l then Some q else opn w m)"
    and fresh: "opn w l = None" and unused: "p \<noteq> 0 \<Longrightarrow> fwd w k p = None"
    and q: "p \<noteq> 0 \<longrightarrow> q = unat p" and nz: "no_zero w' \<Longrightarrow> no_zero w \<and> p \<noteq> 0"
  shows "own_ok w'"
  unfolding own_ok_def
proof (intro conjI allI impI)
  have nofwd: "fwd w j r \<noteq> Some l" for j r
    using own fresh unfolding own_ok_def by (metis option.distinct(1))
  have old: "(\<exists>q. opn w m = Some q \<and> (r \<noteq> 0 \<longrightarrow> q = unat r))" "j = j' \<and> r = r'"
    if "fwd w j r = Some m" "fwd w j' r' = Some m" for j j' r r' m
    using own that unfolding own_ok_def by blast+
  show "\<exists>q. opn w' m = Some q \<and> (r \<noteq> 0 \<longrightarrow> q = unat r)" if "fwd w' j r = Some m" for j r m
    using that old(1) [of j r m j r] q nofwd [of j r] by (auto simp: f n split: if_splits)
  show "j = j'" "r = r'" if "fwd w' j r = Some m" "fwd w' j' r' = Some m" for j j' r r' m
    using that old(2) [of j r m j' r'] nofwd by (auto simp: f split: if_splits)
  show "\<exists>j r. fwd w' j r = Some m" if a: "no_zero w'" "opn w' m = Some r" for m r
  proof -
    have "\<exists>j r. fwd w j r = Some m" if "m \<noteq> l"
      using a that nz own unfolding own_ok_def n by auto
    moreover have "fwd w' k p = Some l" by (simp add: f)
    ultimately show ?thesis
      using unused nz [OF a(1)] by (cases "m = l") (auto simp: f, metis option.distinct(1))
  qed
qed

lemma ports_inv_startForward:
  assumes inv: "ports_inv w" and k: "k < length (sv_ss w)" and ph: "se_phase (sv_ss w ! k) = Serving"
  shows "ports_inv (fst (startForward w k rq eph))"
proof (cases "\<not> rq_ok rq \<or> rq_port rq \<notin> set (se_allowed (sv_ss w ! k))
    \<or> listenReuse (sv_os w) (rq_port rq) eph = None")
  case True
  then show ?thesis using inv by (auto simp: startForward_def Let_def)
next
  case False
  let ?p = "rq_port rq"
  obtain os l where ln: "listenReuse (sv_os w) ?p eph = Some (os, l)" using False by auto
  then obtain q where l: "l = os_next (sv_os w)" and os: "os_open os = put l q (os_open (sv_os w))"
    and q: "\<not> port_used (sv_os w) q" "?p \<noteq> 0 \<longrightarrow> q = unat ?p"
    by (rule listenReuse_Some) simp
  define w' where "w' = upd_session k (\<lambda>s. s\<lparr>se_fwds := put ?p l (se_fwds s)\<rparr>) (w\<lparr>sv_os := os\<rparr>)"
  have res: "fst (startForward w k rq eph) = w'\<lparr>sv_reg := AddPort (sv_reg w') (se_id (sv_ss w ! k)) ?p\<rparr>"
    using False ln by (simp add: startForward_def Let_def w'_def)
  have okw: "os_ok (sv_os w)" and oww: "own_ok w" using inv by (simp_all add: ports_inv_def)
  have f: "fwd w' j r = (if j = k \<and> r = ?p then Some l else fwd w j r)" for j r
    using k by (simp add: w'_def fwd_upd_session) (simp add: fwd_def)
  have n: "opn w' m = (if m = l then Some q else opn w m)" for m
    by (simp add: w'_def os opn_def)
  have fresh: "opn w l = None"
    using okw l unfolding os_ok_def opn_def by (metis less_irrefl not_None_eq)
  have unused: "fwd w k ?p = None" if "?p \<noteq> 0"
    using oww that q port_used_iff [OF okw, of q] unfolding own_ok_def opn_def
    by (metis not_None_eq)
  have nz: "no_zero w' = no_zero w" using no_zero_upd [of _ k "w\<lparr>sv_os := os\<rparr>"]
    by (simp add: w'_def no_zero_def)
  have np: "?p \<noteq> 0" if "no_zero w"
    using False no_zero_nth [THEN iffD1, OF that] k by auto
  have "own_ok w'"
    by (rule own_ok_open [OF oww f n fresh unused q(2)]) (use np in \<open>simp_all add: nz\<close>)
  moreover have "os_ok os" by (rule os_ok_listen [OF okw ln])
  moreover have "session_ok ((sv_ss w ! k)\<lparr>se_fwds := put ?p l (se_fwds (sv_ss w ! k))\<rparr>)"
    using session_ok_nth [OF inv k] False ph by (auto simp: session_ok_def keys_ok_put dom_update)
  then have "\<forall>s \<in> set (sv_ss w'). session_ok s"
    using inv unfolding w'_def by - (rule sessions_ok_upd, simp_all add: ports_inv_def)
  ultimately have "ports_inv w'" by (simp add: ports_inv_def w'_def)
  then show ?thesis unfolding res by (rule ports_inv_sel)
qed

text \<open>Closing listeners together with the entries that hold them.\<close>

lemma own_ok_shrink:
  assumes "own_ok w"
    and fwd: "\<And>k p l. fwd w' k p = Some l \<Longrightarrow> fwd w k p = Some l \<and> opn w' l = opn w l"
    and opn: "\<And>l q. opn w' l = Some q \<Longrightarrow> opn w l = Some q"
    and keep: "\<And>k p l q. fwd w k p = Some l \<Longrightarrow> opn w' l = Some q \<Longrightarrow> fwd w' k p = Some l"
    and nz: "no_zero w' = no_zero w"
  shows "own_ok w'"
  unfolding own_ok_def
proof (intro conjI allI impI)
  fix k p l assume a: "fwd w' k p = Some l"
  then show "\<exists>q. opn w' l = Some q \<and> (p \<noteq> 0 \<longrightarrow> q = unat p)"
    using fwd [OF a] assms(1) unfolding own_ok_def by auto
next
  fix k k' p p' l assume a: "fwd w' k p = Some l" "fwd w' k' p' = Some l"
  have "k = k' \<and> p = p'"
    using fwd [OF a(1)] fwd [OF a(2)] assms(1) unfolding own_ok_def by blast
  then show "k = k'" "p = p'" by simp_all
next
  fix l q assume a: "no_zero w'" "opn w' l = Some q"
  then obtain k p where "fwd w k p = Some l"
    using opn [OF a(2)] nz assms(1) unfolding own_ok_def by blast
  then show "\<exists>k p. fwd w' k p = Some l" using keep a(2) by blast
qed

lemma ports_inv_cancelForward:
  assumes inv: "ports_inv w" and k: "k < length (sv_ss w)"
  shows "ports_inv (fst (cancelForward w k rq))"
proof (cases "get (se_fwds (sv_ss w ! k)) (rq_port rq)")
  case None
  then show ?thesis using inv by (simp add: cancelForward_def)
next
  case (Some l)
  let ?p = "rq_port rq" and ?os = "ln_Close l (sv_os w)"
  define w' where
    "w' = upd_session k (\<lambda>s. s\<lparr>se_fwds := AList.delete ?p (se_fwds s)\<rparr>) (w\<lparr>sv_os := ?os\<rparr>)"
  have res: "fst (cancelForward w k rq) = w'" using Some by (simp add: cancelForward_def w'_def)
  have kp: "fwd w k ?p = Some l" using k Some by (simp add: fwd_def)
  have f: "fwd w' j r = (if j = k \<and> r = ?p then None else fwd w j r)" for j r
    using k by (simp add: w'_def fwd_upd_session delete_conv') (simp add: fwd_def)
  have n: "opn w' m = (if m = l then None else opn w m)" for m
    by (simp add: w'_def) (simp add: opn_def)
  have uniq: "j = k \<and> r = ?p" if "fwd w j r = Some l" for j r
    using that kp inv unfolding ports_inv_def own_ok_def by blast
  have "own_ok w'"
  proof (rule own_ok_shrink [of w])
    show "own_ok w" using inv by (simp add: ports_inv_def)
    show "no_zero w' = no_zero w"
      using no_zero_upd [of _ k "w\<lparr>sv_os := ?os\<rparr>"] by (simp add: w'_def no_zero_def)
    show "fwd w j r = Some m \<and> opn w' m = opn w m" if "fwd w' j r = Some m" for j r m
      using that uniq [of j r] by (auto simp: f n split: if_splits)
    show "opn w m = Some q" if "opn w' m = Some q" for m q
      using that by (simp add: n split: if_splits)
    show "fwd w' j r = Some m" if "fwd w j r = Some m" "opn w' m = Some q" for j r m q
      using that kp by (auto simp: f n split: if_splits)
  qed
  moreover have "os_ok ?os" using inv by (simp add: os_ok_Close ports_inv_def)
  moreover have "\<forall>s \<in> set (sv_ss w'). session_ok s"
  proof -
    have "session_ok ((sv_ss w ! k)\<lparr>se_fwds := AList.delete ?p (se_fwds (sv_ss w ! k))\<rparr>)"
      using session_ok_nth [OF inv k]
      by (auto simp: session_ok_def distinct_map_filter AList.delete_eq)
    then show ?thesis using inv unfolding w'_def
      by - (rule sessions_ok_upd, simp_all add: ports_inv_def)
  qed
  ultimately show ?thesis unfolding res by (simp add: ports_inv_def w'_def)
qed

lemma ports_inv_end:
  assumes inv: "ports_inv w" and k: "k < length (sv_ss w)"
  shows "ports_inv (upd_session k (\<lambda>s. s\<lparr>se_done := True, se_phase := Releasing\<rparr>) (closeAll w k))"
proof -
  let ?ls = "map snd (se_fwds (sv_ss w ! k))"
  let ?os = "fold ln_Close ?ls (sv_os w)"
  define w' where "w' = upd_session k (\<lambda>s. s\<lparr>se_done := True, se_phase := Releasing\<rparr>) (closeAll w k)"
  have ss: "sv_ss w' = (sv_ss w)[k := (sv_ss w ! k)\<lparr>se_fwds := [], se_done := True, se_phase := Releasing\<rparr>]"
    using k by (simp add: w'_def closeAll_def upd_session_def)
  have os: "sv_os w' = ?os" by (simp add: w'_def closeAll_def)
  have f: "fwd w' j r = (if j = k then None else fwd w j r)" for j r
    using k by (simp add: fwd_def ss nth_list_update)
  have n: "opn w' m = (if m \<in> set ?ls then None else opn w m)" for m
    by (simp add: opn_def os get_closes del: set_map)
  have "keys_ok (se_fwds (sv_ss w ! k))"
    using session_ok_nth [OF inv k] by (simp add: session_ok_def)
  then have "m \<in> set ?ls \<longleftrightarrow> (\<exists>r. get (se_fwds (sv_ss w ! k)) r = Some m)" for m
    by (rule value_get)
  moreover have "get (se_fwds (sv_ss w ! k)) = fwd w k"
    using k by (simp add: fwd_def fun_eq_iff)
  ultimately have mem: "m \<in> set ?ls \<longleftrightarrow> (\<exists>r. fwd w k r = Some m)" for m by simp
  have uniq: "j = j'" if "fwd w j r = Some m" "fwd w j' r' = Some m" for j r m j' r'
    using that inv unfolding ports_inv_def own_ok_def by blast
  have "own_ok w'"
  proof (rule own_ok_shrink [of w])
    show "own_ok w" using inv by (simp add: ports_inv_def)
    show "no_zero w' = no_zero w" using k by (auto simp: no_zero_nth ss nth_list_update split: if_splits)
    show "fwd w j r = Some m \<and> opn w' m = opn w m" if "fwd w' j r = Some m" for j r m
      using that uniq [of j r m k] by (auto simp: f n mem simp del: set_map split: if_splits)
    show "opn w m = Some q" if "opn w' m = Some q" for m q
      using that by (simp add: n split: if_splits)
    show "fwd w' j r = Some m" if "fwd w j r = Some m" "opn w' m = Some q" for j r m q
      using that by (auto simp: f n mem simp del: set_map split: if_splits)
  qed
  moreover have "os_ok (sv_os w')" using inv unfolding os by (simp add: os_ok_closes ports_inv_def)
  moreover have "session_ok ((sv_ss w ! k)\<lparr>se_fwds := [], se_done := True, se_phase := Releasing\<rparr>)"
    by (simp add: session_ok_def ended_def)
  then have "\<forall>s \<in> set (sv_ss w'). session_ok s"
    using inv set_update_subset_insert [of "sv_ss w" k] unfolding ss ports_inv_def by blast
  ultimately show ?thesis unfolding ports_inv_def w'_def by blast
qed

lemma ports_inv_request:
  assumes "ports_inv w" and "k < length (sv_ss w)" and "se_phase (sv_ss w ! k) = Serving"
  shows "ports_inv (fst (handle_request w k rq eph))"
  using assms ports_inv_startForward ports_inv_cancelForward
  by (simp add: handle_request_def split: req_type.splits)

lemma unregister_sel [simp]:
  "sv_os (unregister w k) = sv_os w" "sv_ss (unregister w k) = sv_ss w" "sv_reg (unregister w k) = sv_reg w"
  by (simp_all add: unregister_def Let_def)

lemma ports_inv_start: "srv_start w \<Longrightarrow> ports_inv w"
  by (auto simp: srv_start_def NewServerState_def ports_inv_def os_ok_def own_ok_def fwd_def opn_def)

lemma ports_inv_act: "srv_act a w w' \<Longrightarrow> ports_inv w \<Longrightarrow> ports_inv w'"
proof (induction rule: srv_act.induct)
  case (ac_failed w)
  then show ?case by (simp add: ports_inv_sel)
next
  case (ac_accept w)
  then show ?case by (simp add: ports_inv_authenticated)
next
  case (ac_register k w)
  then show ?case by (simp add: ports_inv_swap)
next
  case (ac_evict k w v)
  then show ?case
    by (auto simp: phase_sconn_Close ended_def intro!: ports_inv_phase ports_inv_Close)
next
  case (ac_released k w v)
  then show ?case by (auto simp: ended_def intro!: ports_inv_phase)
next
  case (ac_evict_timeout k w v)
  then show ?case by (auto simp: ended_def intro!: ports_inv_phase)
next
  case (ac_request k w rq eph)
  then show ?case by (simp add: ports_inv_request)
next
  case (ac_drop k w)
  then show ?case by (simp add: ports_inv_Close)
next
  case (ac_end k w)
  then show ?case by (simp add: ports_inv_end)
next
  case (ac_unregister k w)
  then have "ports_inv (unregister w k)" using ports_inv_cong [of "unregister w k" w] by simp
  with ac_unregister show ?case by (auto simp: ended_def intro!: ports_inv_phase)
next
  case (ac_del k w)
  then show ?case by (auto simp: ended_def intro!: ports_inv_phase ports_inv_sel)
qed

lemma ports_inv_step: "srv_step w w' \<Longrightarrow> ports_inv w \<Longrightarrow> ports_inv w'"
  by (auto simp: srv_step_def intro: ports_inv_act)

interpretation srv_ports: invariant srv_start srv_step ports_inv
  by unfold_locales (auto intro: ports_inv_start ports_inv_step)

section \<open>One live session per name\<close>

fun active :: "phase \<Rightarrow> bool" where
  "active (Evicting v) = True"
| "active (Waiting v) = True"
| "active Serving = True"
| "active Releasing = True"
| "active _ = False"

text \<open>What the manager's invariant is about: name, phase and whether the connection is closed.\<close>

definition mview :: "server \<Rightarrow> nat \<Rightarrow> (string \<times> phase \<times> bool) option" where
  "mview w k =
     (if k < length (sv_ss w)
      then Some (se_name (sv_ss w ! k), se_phase (sv_ss w ! k), se_closed (sv_ss w ! k)) else None)"

definition byName_known :: "(nat \<rightharpoonup> string \<times> phase \<times> bool) \<Rightarrow> (string \<rightharpoonup> nat) \<Rightarrow> bool" where
  "byName_known V B \<longleftrightarrow>
     (\<forall>n k. B n = Some k \<longrightarrow> (\<exists>ph c. V k = Some (n, ph, c) \<and> n \<noteq> [] \<and> active ph))"

definition live_known :: "(nat \<rightharpoonup> string \<times> phase \<times> bool) \<Rightarrow> (string \<rightharpoonup> nat) \<Rightarrow> bool" where
  "live_known V B \<longleftrightarrow>
     (\<forall>k n ph. V k = Some (n, ph, False) \<longrightarrow> active ph \<longrightarrow> n \<noteq> [] \<longrightarrow> B n \<noteq> Some k \<longrightarrow>
        (\<exists>j c. V j = Some (n, Evicting k, c)))"

definition evicts_same :: "(nat \<rightharpoonup> string \<times> phase \<times> bool) \<Rightarrow> bool" where
  "evicts_same V \<longleftrightarrow>
     (\<forall>j n v c. V j = Some (n, Evicting v, c) \<longrightarrow> j \<noteq> v \<and> (\<exists>ph c'. V v = Some (n, ph, c')))"

definition mgr_ok :: "(nat \<rightharpoonup> string \<times> phase \<times> bool) \<Rightarrow> (string \<rightharpoonup> nat) \<Rightarrow> bool" where
  "mgr_ok V B \<longleftrightarrow> byName_known V B \<and> live_known V B \<and> evicts_same V"

definition mgr_inv :: "server \<Rightarrow> bool" where
  "mgr_inv w \<longleftrightarrow> mgr_ok (mview w) (get (sv_byName w))"

lemma mview_upd:
  "mview (upd_session k f w) =
     (if k < length (sv_ss w)
      then (mview w)(k \<mapsto> (se_name (f (sv_ss w ! k)), se_phase (f (sv_ss w ! k)),
                          se_closed (f (sv_ss w ! k)))) else mview w)"
  by (rule ext) (auto simp: mview_def nth_upd_session)

lemma mview_cong: "sv_ss w' = sv_ss w \<Longrightarrow> mview w' = mview w"
  by (simp add: mview_def fun_eq_iff)

lemma mview_sel [simp]:
  "mview (w\<lparr>sv_os := os\<rparr>) = mview w" "mview (w\<lparr>sv_byName := b\<rparr>) = mview w"
  "mview (w\<lparr>sv_reg := r\<rparr>) = mview w" "mview (unregister w k) = mview w"
  by (rule mview_cong, simp)+

lemma mview_Some: "k < length (sv_ss w) \<Longrightarrow>
    mview w k = Some (se_name (sv_ss w ! k), se_phase (sv_ss w ! k), se_closed (sv_ss w ! k))"
  by (simp add: mview_def)

lemma mview_keep:
  "(\<And>s. se_name (f s) = se_name s \<and> se_phase (f s) = se_phase s \<and> se_closed (f s) = se_closed s)
     \<Longrightarrow> mview (upd_session k f w) = mview w"
  by (auto simp: mview_upd mview_Some fun_upd_idem)

subsection \<open>The moves of the manager\<close>

lemma byName_knownD:
  "byName_known V B \<Longrightarrow> B n = Some k \<Longrightarrow> \<exists>ph c. V k = Some (n, ph, c) \<and> n \<noteq> [] \<and> active ph"
  unfolding byName_known_def by blast

lemma live_knownD:
  "live_known V B \<Longrightarrow> V k = Some (n, ph, False) \<Longrightarrow> active ph \<Longrightarrow> n \<noteq> [] \<Longrightarrow> B n \<noteq> Some k \<Longrightarrow>
     \<exists>j c. V j = Some (n, Evicting k, c)"
  unfolding live_known_def by blast

lemma evicts_sameD:
  "evicts_same V \<Longrightarrow> V j = Some (n, Evicting v, c) \<Longrightarrow> j \<noteq> v \<and> (\<exists>ph c'. V v = Some (n, ph, c'))"
  unfolding evicts_same_def by blast

lemma byName_known_upd:
  assumes "byName_known V B" and "V k = Some (n, ph, c)" and "active ph' \<or> B n \<noteq> Some k"
  shows "byName_known (V(k \<mapsto> (n, ph', c'))) B"
  unfolding byName_known_def
proof (intro allI impI)
  fix m l assume "B m = Some l"
  with byName_knownD [OF assms(1) this] assms(2,3)
  show "\<exists>ph c. (V(k \<mapsto> (n, ph', c'))) l = Some (m, ph, c) \<and> m \<noteq> [] \<and> active ph"
    by (cases "l = k") auto
qed

lemma evicts_same_upd:
  assumes "evicts_same V" and "V k = Some (n, ph, c)"
    and "\<And>v. ph' = Evicting v \<Longrightarrow> k \<noteq> v \<and> (\<exists>ph c'. V v = Some (n, ph, c'))"
  shows "evicts_same (V(k \<mapsto> (n, ph', c')))"
  unfolding evicts_same_def
proof (intro allI impI)
  fix j m v d
  assume a: "(V(k \<mapsto> (n, ph', c'))) j = Some (m, Evicting v, d)"
  have "j \<noteq> v \<and> (\<exists>ph c'. V v = Some (m, ph, c'))"
  proof (cases "j = k")
    case True
    with a assms(3) show ?thesis by simp
  next
    case False
    with a show ?thesis by (intro evicts_sameD [OF assms(1)]) simp
  qed
  then show "j \<noteq> v \<and> (\<exists>ph c''. (V(k \<mapsto> (n, ph', c'))) v = Some (m, ph, c''))"
    using assms(2) by auto
qed

lemma live_known_upd:
  assumes "live_known V B" and "V k = Some (n, ph, c)" and "\<And>v. ph = Evicting v \<Longrightarrow> ph' = ph"
    and "c' \<or> \<not> active ph' \<or> n = [] \<or> B n = Some k \<or> (active ph \<and> \<not> c)"
  shows "live_known (V(k \<mapsto> (n, ph', c'))) B"
  unfolding live_known_def
proof (intro allI impI)
  fix l m q
  assume a: "(V(k \<mapsto> (n, ph', c'))) l = Some (m, q, False)" "active q" "m \<noteq> []" "B m \<noteq> Some l"
  have "\<exists>q. V l = Some (m, q, False) \<and> active q"
    using a assms(2,4) by (cases "l = k") auto
  then obtain j d where "V j = Some (m, Evicting l, d)"
    using a(3,4) assms(1) unfolding live_known_def by blast
  then show "\<exists>j d. (V(k \<mapsto> (n, ph', c'))) j = Some (m, Evicting l, d)"
    using assms(2,3) by (cases "j = k") auto
qed

text \<open>A session is accepted, takes its place, closes the one it replaced, and leaves.\<close>

lemma mgr_accept:
  assumes "mgr_ok V B" and "V k = None"
  shows "mgr_ok (V(k \<mapsto> (n, Registering, False))) B"
proof -
  have ne: "j \<noteq> k" if "V j = Some x" for j x using that assms(2) by auto
  have "byName_known (V(k \<mapsto> (n, Registering, False))) B"
    using assms ne unfolding mgr_ok_def byName_known_def by fastforce
  moreover have "live_known (V(k \<mapsto> (n, Registering, False))) B"
    unfolding live_known_def
  proof (intro allI impI)
    fix l m q
    assume "(V(k \<mapsto> (n, Registering, False))) l = Some (m, q, False)" "active q" "m \<noteq> []"
      "B m \<noteq> Some l"
    then obtain j d where "V j = Some (m, Evicting l, d)"
      using assms(1) live_knownD [of V B l m q] by (auto simp: mgr_ok_def split: if_splits)
    then show "\<exists>j d. (V(k \<mapsto> (n, Registering, False))) j = Some (m, Evicting l, d)"
      using ne [of j] by (intro exI [of _ j]) auto
  qed
  moreover have "evicts_same (V(k \<mapsto> (n, Registering, False)))"
    using assms ne unfolding mgr_ok_def evicts_same_def by (auto split: if_splits) metis
  ultimately show ?thesis by (simp add: mgr_ok_def)
qed

lemma mgr_swap:
  assumes ok: "mgr_ok V B" and k: "V k = Some (n, Registering, c)" and n: "n \<noteq> []"
  shows "mgr_ok (V(k \<mapsto> (n, case B n of None \<Rightarrow> Serving | Some v \<Rightarrow> Evicting v, c))) (B(n \<mapsto> k))"
proof -
  let ?ph = "case B n of None \<Rightarrow> Serving | Some v \<Rightarrow> Evicting v"
  let ?V = "V(k \<mapsto> (n, ?ph, c))" and ?B = "B(n \<mapsto> k)"
  have act: "active ?ph" by (simp split: option.split)
  have Bk: "B m \<noteq> Some k" for m using ok k unfolding mgr_ok_def byName_known_def by fastforce
  have "byName_known ?V ?B"
    using ok k n act Bk unfolding mgr_ok_def byName_known_def by auto
  moreover have "live_known ?V ?B"
    unfolding live_known_def
  proof (intro allI impI)
    fix l m q
    assume a: "?V l = Some (m, q, False)" "active q" "m \<noteq> []" "?B m \<noteq> Some l"
    then have lk: "l \<noteq> k" by auto
    show "\<exists>j d. ?V j = Some (m, Evicting l, d)"
    proof (cases "B m = Some l")
      case True
      with a(4) have "m = n" by (auto split: if_splits)
      with True show ?thesis by (intro exI [of _ k]) simp
    next
      case False
      then obtain j d where "V j = Some (m, Evicting l, d)"
        using a lk ok live_knownD [of V B l m q] by (auto simp: mgr_ok_def)
      then show ?thesis using k by (intro exI [of _ j]) auto
    qed
  qed
  moreover have "evicts_same ?V"
  proof (rule evicts_same_upd)
    show "evicts_same V" using ok by (simp add: mgr_ok_def)
    show "V k = Some (n, Registering, c)" by (rule k)
    show "k \<noteq> v \<and> (\<exists>ph c'. V v = Some (n, ph, c'))" if "?ph = Evicting v" for v
      using that ok Bk [of n] byName_knownD [of V B n v]
      by (auto simp: mgr_ok_def split: option.splits)
  qed
  ultimately show ?thesis by (simp add: mgr_ok_def)
qed

lemma mgr_close:
  "mgr_ok V B \<Longrightarrow> V k = Some (n, ph, c) \<Longrightarrow> mgr_ok (V(k \<mapsto> (n, ph, True))) B"
  unfolding mgr_ok_def
  by (intro conjI byName_known_upd live_known_upd evicts_same_upd)
    (auto dest: byName_knownD evicts_sameD)

lemma mgr_move:
  assumes "mgr_ok V B" and "V k = Some (n, ph, c)" and "\<nexists>v. ph = Evicting v"
    and "\<nexists>v. ph' = Evicting v" and "active ph' \<Longrightarrow> active ph \<or> n = []" and "active ph' \<or> B n \<noteq> Some k"
  shows "mgr_ok (V(k \<mapsto> (n, ph', c))) B"
proof -
  have "live_known (V(k \<mapsto> (n, ph', c))) B"
    using assms by (intro live_known_upd [of V B k n ph c]) (auto simp: mgr_ok_def)
  moreover have "byName_known (V(k \<mapsto> (n, ph', c))) B"
    using assms by (intro byName_known_upd [of V B k n ph c]) (auto simp: mgr_ok_def)
  moreover have "evicts_same (V(k \<mapsto> (n, ph', c)))"
    using assms by (intro evicts_same_upd [of V k n ph c]) (auto simp: mgr_ok_def)
  ultimately show ?thesis by (simp add: mgr_ok_def)
qed

lemma mgr_evict:
  assumes ok: "mgr_ok V B" and k: "V k = Some (n, Evicting v, c)" and v: "V v = Some (m, ph, True)"
  shows "mgr_ok (V(k \<mapsto> (n, Waiting v, c))) B"
proof -
  have "live_known (V(k \<mapsto> (n, Waiting v, c))) B"
    unfolding live_known_def
  proof (intro allI impI)
    fix l m' q
    assume a: "(V(k \<mapsto> (n, Waiting v, c))) l = Some (m', q, False)" "active q" "m' \<noteq> []" "B m' \<noteq> Some l"
    then have "\<exists>q. V l = Some (m', q, False) \<and> active q" using k by (cases "l = k") auto
    then obtain j d where j: "V j = Some (m', Evicting l, d)"
      using a(3,4) ok live_knownD [of V B l m'] unfolding mgr_ok_def by blast
    have "j \<noteq> k"
    proof
      assume "j = k"
      then have "l = v" using j k by simp
      moreover have "k \<noteq> v" using k ok evicts_sameD [of V k n v c] by (simp add: mgr_ok_def)
      ultimately show False using a(1) v by simp
    qed
    with j show "\<exists>j d. (V(k \<mapsto> (n, Waiting v, c))) j = Some (m', Evicting l, d)"
      by (intro exI [of _ j]) auto
  qed
  moreover have "byName_known (V(k \<mapsto> (n, Waiting v, c))) B"
    using assms by (intro byName_known_upd [of V B k n "Evicting v" c]) (auto simp: mgr_ok_def)
  moreover have "evicts_same (V(k \<mapsto> (n, Waiting v, c)))"
    using assms by (intro evicts_same_upd [of V k n "Evicting v" c]) (auto simp: mgr_ok_def)
  ultimately show ?thesis by (simp add: mgr_ok_def)
qed

lemma mgr_leave:
  assumes ok: "mgr_ok V B" and k: "V k = Some (n, Releasing, c)"
  shows "mgr_ok (V(k \<mapsto> (n, Unregistered, c))) (if B n = Some k then B(n := None) else B)"
proof (cases "B n = Some k")
  case False
  with assms show ?thesis by (auto intro!: mgr_move)
next
  case True
  let ?V = "V(k \<mapsto> (n, Unregistered, c))" and ?B = "B(n := None)"
  have "byName_known ?V ?B"
    unfolding byName_known_def
  proof (intro allI impI)
    fix m l assume "?B m = Some l"
    then have "m \<noteq> n" "B m = Some l" by (auto split: if_splits)
    with ok k byName_knownD [of V B m l]
    show "\<exists>ph c. ?V l = Some (m, ph, c) \<and> m \<noteq> [] \<and> active ph"
      by (auto simp: mgr_ok_def)
  qed
  moreover have "live_known ?V ?B"
    unfolding live_known_def
  proof (intro allI impI)
    fix l m q
    assume a: "?V l = Some (m, q, False)" "active q" "m \<noteq> []" "?B m \<noteq> Some l"
    then have lk: "l \<noteq> k" by auto
    moreover have "B m \<noteq> Some l" using a(4) True lk by (auto split: if_splits)
    ultimately obtain j d where "V j = Some (m, Evicting l, d)"
      using a ok live_knownD [of V B l m q] by (auto simp: mgr_ok_def)
    then show "\<exists>j d. ?V j = Some (m, Evicting l, d)" using k by (intro exI [of _ j]) auto
  qed
  moreover have "evicts_same ?V"
    using assms by (intro evicts_same_upd [of V k n Releasing c]) (auto simp: mgr_ok_def)
  ultimately show ?thesis using True by (simp add: mgr_ok_def)
qed

subsection \<open>Every step keeps the manager's invariant\<close>

lemma mgr_inv_cong:
  "mview w' = mview w \<Longrightarrow> get (sv_byName w') = get (sv_byName w) \<Longrightarrow> mgr_inv w \<Longrightarrow> mgr_inv w'"
  by (simp add: mgr_inv_def)

lemma mview_set_phase:
  "k < length (sv_ss w) \<Longrightarrow>
     mview (set_phase ph k w) = (mview w)(k \<mapsto> (se_name (sv_ss w ! k), ph, se_closed (sv_ss w ! k)))"
  by (simp add: set_phase_def mview_upd)

lemma mview_sconn_Close:
  "k < length (sv_ss w) \<Longrightarrow>
     mview (sconn_Close k w) = (mview w)(k \<mapsto> (se_name (sv_ss w ! k), se_phase (sv_ss w ! k), True))"
  by (simp add: sconn_Close_def mview_upd)

lemma mgr_inv_start: "srv_start w \<Longrightarrow> mgr_inv w"
proof -
  assume "srv_start w"
  then have "mview w = Map.empty" "get (sv_byName w) = Map.empty"
    by (auto simp: srv_start_def NewServerState_def mview_def)
  then show "mgr_inv w"
    by (simp add: mgr_inv_def mgr_ok_def byName_known_def live_known_def evicts_same_def)
qed

lemma mgr_inv_authenticated:
  assumes "mgr_inv w"
  shows "mgr_inv (authenticated w addr info now d)"
proof -
  obtain s where "sv_ss (authenticated w addr info now d) = sv_ss w @ [s]" "\<not> se_closed s"
    "se_phase s = Registering"
    using authenticated_ss by blast
  then have "mview (authenticated w addr info now d)
      = (mview w)(length (sv_ss w) \<mapsto> (se_name s, Registering, False))"
    by (intro ext) (auto simp: mview_def nth_append less_Suc_eq)
  with assms show ?thesis by (simp add: mgr_inv_def mgr_accept mview_def)
qed

lemma mgr_inv_swap:
  assumes ok: "mgr_inv w" and k: "k < length (sv_ss w)" and ph: "se_phase (sv_ss w ! k) = Registering"
  shows "mgr_inv (register_swap w k)"
proof -
  let ?n = "se_name (sv_ss w ! k)" and ?c = "se_closed (sv_ss w ! k)" and ?B = "get (sv_byName w)"
  have vk: "mview w k = Some (?n, Registering, ?c)" using k ph by (simp add: mview_Some)
  have mv: "mview (upd_session k (\<lambda>s. s\<lparr>se_phase := q\<rparr>) (w\<lparr>sv_byName := b\<rparr>))
      = (mview w)(k \<mapsto> (?n, q, ?c))" for q b
    using k by (simp add: mview_upd)
  show ?thesis
  proof (cases "?n = []")
    case True
    then have "mgr_ok ((mview w)(k \<mapsto> (?n, Serving, ?c))) ?B"
      using ok vk by (intro mgr_move [of "mview w" ?B k ?n Registering ?c Serving]) (auto simp: mgr_inv_def)
    then show ?thesis using True k mv [of Serving "sv_byName w"]
      by (simp add: mgr_inv_def register_swap_def)
  next
    case False
    have Bk: "?B ?n \<noteq> Some k"
      using ok vk byName_knownD [of "mview w" ?B ?n k] by (auto simp: mgr_inv_def mgr_ok_def)
    have "mgr_ok ((mview w)(k \<mapsto> (?n, case ?B ?n of None \<Rightarrow> Serving | Some v \<Rightarrow> Evicting v, ?c)))
        (?B(?n \<mapsto> k))"
      using ok vk False by (intro mgr_swap) (auto simp: mgr_inv_def)
    then show ?thesis using False Bk
      by (cases "?B ?n") (auto simp: mgr_inv_def register_swap_def Let_def mv fun_upd_def)
  qed
qed

lemma mview_request: "mview (fst (handle_request w k rq eph)) = mview w"
  by (auto simp: handle_request_def startForward_def cancelForward_def Let_def mview_keep
      split: req_type.splits option.splits)

lemma byName_request: "sv_byName (fst (handle_request w k rq eph)) = sv_byName w"
  by (auto simp: handle_request_def startForward_def cancelForward_def Let_def
      split: req_type.splits option.splits)

lemma mview_closeAll: "mview (closeAll w k) = mview w"
  by (simp add: closeAll_def mview_keep)

lemma mgr_inv_move:
  assumes "mgr_inv w" and "k < length (sv_ss w)" and "\<nexists>v. se_phase (sv_ss w ! k) = Evicting v"
    and "\<nexists>v. ph = Evicting v" and "active ph = active (se_phase (sv_ss w ! k))"
  shows "mgr_ok ((mview w)(k \<mapsto> (se_name (sv_ss w ! k), ph, se_closed (sv_ss w ! k)))) (get (sv_byName w))"
proof (rule mgr_move)
  show ok: "mgr_ok (mview w) (get (sv_byName w))" using assms(1) by (simp add: mgr_inv_def)
  show "mview w k = Some (se_name (sv_ss w ! k), se_phase (sv_ss w ! k), se_closed (sv_ss w ! k))"
    using assms(2) by (rule mview_Some)
  then show "active ph \<or> get (sv_byName w) (se_name (sv_ss w ! k)) \<noteq> Some k"
    using ok assms(5) byName_knownD [of "mview w" "get (sv_byName w)" "se_name (sv_ss w ! k)" k]
    by (auto simp: mgr_ok_def)
qed (use assms in auto)

lemma get_byName_unregister:
  "get (sv_byName (unregister w k)) =
     (let n = se_name (sv_ss w ! k) in
      if n \<noteq> [] \<and> get (sv_byName w) n = Some k then (get (sv_byName w))(n := None)
      else get (sv_byName w))"
  by (auto simp: unregister_def Let_def delete_conv)

lemma mgr_inv_evict:
  assumes k: "k < length (sv_ss w)" and ph: "se_phase (sv_ss w ! k) = Evicting v" and inv: "mgr_inv w"
  shows "mgr_inv (set_phase (Waiting v) k (sconn_Close v w))"
proof -
  have vk: "mview w k = Some (se_name (sv_ss w ! k), Evicting v, se_closed (sv_ss w ! k))"
    using k ph by (simp add: mview_Some)
  then obtain ph c where v: "mview w v = Some (se_name (sv_ss w ! k), ph, c)" and kv: "k \<noteq> v"
    using inv evicts_sameD [of "mview w" k] by (auto simp: mgr_inv_def mgr_ok_def)
  have "v < length (sv_ss w)" using v by (simp add: mview_def split: if_splits)
  then have close: "mview (sconn_Close v w) = (mview w)(v \<mapsto> (se_name (sv_ss w ! k), ph, True))"
    using v by (simp add: mview_sconn_Close mview_Some)
  moreover have "mgr_ok ((mview w)(v \<mapsto> (se_name (sv_ss w ! k), ph, True))) (get (sv_byName w))"
    using inv v by (simp add: mgr_inv_def mgr_close)
  ultimately have "mgr_ok ((mview (sconn_Close v w))(k \<mapsto>
      (se_name (sv_ss w ! k), Waiting v, se_closed (sv_ss w ! k)))) (get (sv_byName w))"
    using vk kv by (intro mgr_evict [where m = "se_name (sv_ss w ! k)" and ph = ph]) auto
  moreover have "sv_ss (sconn_Close v w) ! k = sv_ss w ! k"
    using kv k by (simp add: sconn_Close_def nth_upd_session)
  ultimately show ?thesis using k by (simp add: mgr_inv_def mview_set_phase)
qed

lemma mgr_inv_end:
  assumes "k < length (sv_ss w)" and "se_phase (sv_ss w ! k) = Serving" and "se_closed (sv_ss w ! k)"
    and "mgr_inv w"
  shows "mgr_inv (upd_session k (\<lambda>s. s\<lparr>se_done := True, se_phase := Releasing\<rparr>) (closeAll w k))"
proof -
  have "mview (upd_session k (\<lambda>s. s\<lparr>se_done := True, se_phase := Releasing\<rparr>) (closeAll w k))
      = (mview w)(k \<mapsto> (se_name (sv_ss w ! k), Releasing, se_closed (sv_ss w ! k)))"
    using assms(1) by (simp add: mview_upd mview_closeAll) (simp add: closeAll_def nth_upd_session)
  with assms show ?thesis
    using mgr_inv_move [of w k Releasing] by (simp add: mgr_inv_def closeAll_def)
qed

lemma mgr_inv_unregister:
  assumes k: "k < length (sv_ss w)" and ph: "se_phase (sv_ss w ! k) = Releasing" and inv: "mgr_inv w"
  shows "mgr_inv (set_phase Unregistered k (unregister w k))"
proof -
  let ?n = "se_name (sv_ss w ! k)"
  have vk: "mview w k = Some (?n, Releasing, se_closed (sv_ss w ! k))"
    using k ph by (simp add: mview_Some)
  then have "get (sv_byName w) ?n = Some k \<Longrightarrow> ?n \<noteq> []"
    using inv byName_knownD [of "mview w" "get (sv_byName w)" ?n k]
    by (auto simp: mgr_inv_def mgr_ok_def)
  moreover have "mgr_ok ((mview w)(k \<mapsto> (?n, Unregistered, se_closed (sv_ss w ! k))))
      (if get (sv_byName w) ?n = Some k then (get (sv_byName w))(?n := None) else get (sv_byName w))"
    using inv vk by (intro mgr_leave) (simp_all add: mgr_inv_def)
  ultimately show ?thesis
    using k by (auto simp: mgr_inv_def mview_set_phase get_byName_unregister Let_def split: if_splits)
qed

lemma mgr_inv_act: "srv_act a w w' \<Longrightarrow> mgr_inv w \<Longrightarrow> mgr_inv w'"
proof (induction rule: srv_act.induct)
  case (ac_failed w)
  then show ?case by (simp add: mgr_inv_def)
next
  case (ac_released k w v)
  then show ?case by (simp add: mgr_inv_def [of "set_phase _ _ _"] mview_set_phase mgr_inv_move)
next
  case (ac_evict_timeout k w v)
  then show ?case by (simp add: mgr_inv_def [of "set_phase _ _ _"] mview_set_phase mgr_inv_move)
next
  case (ac_request k w rq eph)
  show ?case
    by (rule mgr_inv_cong [of _ w]) (simp_all add: mview_request byName_request ac_request)
next
  case (ac_drop k w)
  then show ?case
    using mgr_close [of "mview w" "get (sv_byName w)" k] mview_Some [of k w]
    by (simp add: mgr_inv_def mview_sconn_Close)
next
  case (ac_del k w)
  then show ?case
    using mgr_inv_move [of w k Gone] by (simp add: mgr_inv_def mview_set_phase)
qed (simp_all add: mgr_inv_authenticated mgr_inv_swap mgr_inv_evict mgr_inv_end mgr_inv_unregister)

lemma mgr_inv_step: "srv_step w w' \<Longrightarrow> mgr_inv w \<Longrightarrow> mgr_inv w'"
  by (auto simp: srv_step_def intro: mgr_inv_act)

interpretation srv_mgr: invariant srv_start srv_step mgr_inv
  by unfold_locales (auto intro: mgr_inv_start mgr_inv_step)

section \<open>Properties\<close>

lemma reach_ports: "reach srv_start srv_step w \<Longrightarrow> ports_inv w"
  by (rule srv_ports.inv_reach)

lemma reach_mgr: "reach srv_start srv_step w \<Longrightarrow> mgr_inv w"
  by (rule srv_mgr.inv_reach)

lemma fwd_owner:
  assumes "ports_inv w" and "fwd w k p = Some l"
  shows "k < length (sv_ss w)" "p \<in> set (se_allowed (sv_ss w ! k))" "\<not> se_done (sv_ss w ! k)"
    "\<exists>q. opn w l = Some q \<and> (p \<noteq> 0 \<longrightarrow> q = unat p)"
proof -
  show k: "k < length (sv_ss w)" using assms(2) by (rule fwd_Some_less)
  have g: "get (se_fwds (sv_ss w ! k)) p = Some l" using assms(2) k by (simp add: fwd_def)
  then have mem: "p \<in> set (map fst (se_fwds (sv_ss w ! k)))" "se_fwds (sv_ss w ! k) \<noteq> []"
    by (auto dest: map_of_SomeD intro: rev_image_eqI)
  have "session_ok (sv_ss w ! k)" by (rule session_ok_nth [OF assms(1) k])
  with mem show "p \<in> set (se_allowed (sv_ss w ! k))" "\<not> se_done (sv_ss w ! k)"
    by (auto simp: session_ok_def ended_def)
  show "\<exists>q. opn w l = Some q \<and> (p \<noteq> 0 \<longrightarrow> q = unat p)"
    using assms unfolding ports_inv_def own_ok_def by blast
qed

lemma listener_owner:
  assumes inv: "ports_inv w" and nz: "no_zero w" and l: "opn w l = Some q"
  shows "\<exists>!k. \<not> se_done (sv_ss w ! k) \<and> of_nat q \<in> set (se_allowed (sv_ss w ! k))
           \<and> fwd w k (of_nat q) = Some l"
proof -
  obtain k p where f: "fwd w k p = Some l"
    using inv nz l unfolding ports_inv_def own_ok_def by blast
  note o' = fwd_owner [OF inv f]
  have "p \<noteq> 0" using o'(1,2) nz by (auto simp: no_zero_nth)
  with o'(4) l have "p = of_nat q" by auto
  with f o' have "\<not> se_done (sv_ss w ! k) \<and> of_nat q \<in> set (se_allowed (sv_ss w ! k))
      \<and> fwd w k (of_nat q) = Some l" by simp
  moreover have "k' = k" if "fwd w k' (of_nat q) = Some l" for k'
    using that f inv unfolding ports_inv_def own_ok_def by blast
  ultimately show ?thesis by blast
qed

text \<open>
  C1. No forwarded port is ever left open without a session that may hold it. In every state
  the server can reach, with any number of clients connecting, reconnecting, being evicted
  (in time or not), asking for and cancelling forwards and dropping, each open listener is
  recorded by exactly one session, which has not ended and whose key permits that port;
  provided no key permits port 0.
\<close>

theorem listener_has_one_owner:
  assumes "reach srv_start srv_step w" and "\<forall>s \<in> set (sv_ss w). 0 \<notin> set (se_allowed s)"
    and "opn w l = Some q"
  shows "\<exists>!k. \<not> se_done (sv_ss w ! k) \<and> of_nat q \<in> set (se_allowed (sv_ss w ! k))
           \<and> fwd w k (of_nat q) = Some l"
  using listener_owner [OF reach_ports [OF assms(1)]] assms(2,3) by (simp add: no_zero_def)

text \<open>A run of two sessions: the second one of the same client evicts the first.\<close>

definition demo_request :: "u32 \<Rightarrow> request" where
  "demo_request p = \<lparr>rq_type = Tcpip_forward, rq_want_reply = True, rq_ok = True, rq_port = p\<rparr>"

definition demo_key :: key_info where
  "demo_key = \<lparr>ki_Ports = ''8080'', ki_Name = ''tk''\<rparr>"

definition demo1 :: server where
  "demo1 = register_swap (authenticated (NewServerState [2223]) ''a:1'' demo_key 1 1) 0"

definition demo2 :: server where
  "demo2 = fst (handle_request demo1 0 (demo_request 8080) 0)"

definition demo3 :: server where
  "demo3 = register_swap (authenticated demo2 ''a:2'' demo_key 2 1) 1"

definition demo4 :: server where
  "demo4 = set_phase Serving 1 (set_phase (Waiting 0) 1 (sconn_Close 0 demo3))"

lemma demo_allowed: "parsePorts ''8080'' = [8080]"
  by (simp add: parsePorts_def trim_space_def trim_left_def trim_right_def is_space_def atoi_def
      parse_int_def split_sign_def digit_val_def)

lemma sv_ss_authenticated:
  "sv_ss (authenticated w addr info now d) =
     sv_ss w @ [\<lparr>se_allowed = parsePorts (ki_Ports info), se_fwds = [], se_id = addr,
                 se_name = ki_Name info, se_done = False, se_closed = False, se_phase = Registering\<rparr>]"
  by (simp add: authenticated_def Let_def split: prod.split)

lemmas demo_simps = sv_ss_authenticated demo_allowed demo_key_def demo_request_def Let_def
  register_swap_def handle_request_def startForward_def listenReuse_def port_used_def
  set_phase_def sconn_Close_def upd_session_def fwd_def opn_def NewServerState_def

lemma demo1_sel:
  "sv_ss demo1 = [\<lparr>se_allowed = [8080], se_fwds = [], se_id = ''a:1'', se_name = ''tk'',
                   se_done = False, se_closed = False, se_phase = Serving\<rparr>]"
  "sv_os demo1 = \<lparr>os_open = [], os_next = 0, os_foreign = [2223]\<rparr>" "sv_byName demo1 = [(''tk'', 0)]"
  by (simp_all add: demo1_def demo_simps)

lemma demo2_sel:
  "sv_ss demo2 = [\<lparr>se_allowed = [8080], se_fwds = [(8080, 0)], se_id = ''a:1'', se_name = ''tk'',
                   se_done = False, se_closed = False, se_phase = Serving\<rparr>]"
  "sv_os demo2 = \<lparr>os_open = [(0, 8080)], os_next = 1, os_foreign = [2223]\<rparr>"
  "sv_byName demo2 = [(''tk'', 0)]"
  by (simp_all add: demo2_def demo_simps demo1_sel)

lemma demo3_sel:
  "sv_ss demo3 = [\<lparr>se_allowed = [8080], se_fwds = [(8080, 0)], se_id = ''a:1'', se_name = ''tk'',
                   se_done = False, se_closed = False, se_phase = Serving\<rparr>,
                  \<lparr>se_allowed = [8080], se_fwds = [], se_id = ''a:2'', se_name = ''tk'',
                   se_done = False, se_closed = False, se_phase = Evicting 0\<rparr>]"
  "sv_os demo3 = \<lparr>os_open = [(0, 8080)], os_next = 1, os_foreign = [2223]\<rparr>"
  by (simp_all add: demo3_def demo_simps demo2_sel)

lemma demo4_sel:
  "sv_ss demo4 = [\<lparr>se_allowed = [8080], se_fwds = [(8080, 0)], se_id = ''a:1'', se_name = ''tk'',
                   se_done = False, se_closed = True, se_phase = Serving\<rparr>,
                  \<lparr>se_allowed = [8080], se_fwds = [], se_id = ''a:2'', se_name = ''tk'',
                   se_done = False, se_closed = False, se_phase = Serving\<rparr>]"
  "sv_os demo4 = \<lparr>os_open = [(0, 8080)], os_next = 1, os_foreign = [2223]\<rparr>"
  by (simp_all add: demo4_def demo_simps demo3_sel)

lemma reach_demo1: "reach srv_start srv_step demo1"
proof -
  let ?w = "NewServerState [2223]"
  have "reach srv_start srv_step ?w" by (rule reach_start) (auto simp: srv_start_def)
  then have "reach srv_start srv_step (authenticated ?w ''a:1'' demo_key 1 1)"
    by (rule reach_step) (rule st_accept)
  then show ?thesis
    unfolding demo1_def by (rule reach_step) (intro st_register, simp_all add: sv_ss_authenticated NewServerState_def)
qed

lemma reach_demo2: "reach srv_start srv_step demo2"
  unfolding demo2_def
  by (rule reach_step [OF reach_demo1]) (intro st_request, simp_all add: demo1_sel)

lemma reach_demo3: "reach srv_start srv_step demo3"
proof -
  have "reach srv_start srv_step (authenticated demo2 ''a:2'' demo_key 2 1)"
    by (rule reach_step [OF reach_demo2]) (rule st_accept)
  then show ?thesis
    unfolding demo3_def by (rule reach_step) (intro st_register, simp_all add: sv_ss_authenticated demo2_sel)
qed

lemma reach_demo4: "reach srv_start srv_step demo4"
proof -
  have "reach srv_start srv_step (set_phase (Waiting 0) 1 (sconn_Close 0 demo3))"
    by (rule reach_step [OF reach_demo3]) (intro st_evict, simp_all add: demo3_sel)
  then show ?thesis
    unfolding demo4_def
    by (rule reach_step)
      (intro st_evict_timeout [of _ _ 0], simp_all add: set_phase_def sconn_Close_def upd_session_def demo3_sel)
qed

theorem listener_has_one_owner_witness:
  "opn demo4 0 = Some 8080
   \<and> (\<exists>!k. \<not> se_done (sv_ss demo4 ! k) \<and> 8080 \<in> set (se_allowed (sv_ss demo4 ! k))
           \<and> fwd demo4 k 8080 = Some 0)"
  using listener_has_one_owner [OF reach_demo4, of 0 8080] by (simp add: demo4_sel opn_def)

lemma one_live:
  assumes inv: "mgr_inv w" and "k < length (sv_ss w)" "k' < length (sv_ss w)" "k \<noteq> k'"
    and "active (se_phase (sv_ss w ! k))" "active (se_phase (sv_ss w ! k'))"
    and "se_name (sv_ss w ! k) = n" "se_name (sv_ss w ! k') = n" "n \<noteq> []"
    and "\<not> se_closed (sv_ss w ! k)" "\<not> se_closed (sv_ss w ! k')"
  shows "\<exists>j < length (sv_ss w). se_phase (sv_ss w ! j) \<in> {Evicting k, Evicting k'}"
proof -
  have live: "live_known (mview w) (get (sv_byName w))" using inv by (simp add: mgr_inv_def mgr_ok_def)
  have "get (sv_byName w) n \<noteq> Some k \<or> get (sv_byName w) n \<noteq> Some k'" using \<open>k \<noteq> k'\<close> by auto
  then obtain j d where "mview w j = Some (n, Evicting k, d) \<or> mview w j = Some (n, Evicting k', d)"
    using live_knownD [OF live, of k n] live_knownD [OF live, of k' n] assms mview_Some by metis
  then show ?thesis by (auto simp: mview_def split: if_splits)
qed

text \<open>
  C3. One live session per client name. In every reachable state, of two sessions of the
  same name that have registered and not unregistered, one has had its connection closed,
  or a session that replaced it is just about to close it.
\<close>

theorem one_live_session_per_name:
  assumes "reach srv_start srv_step w"
    and "k < length (sv_ss w)" "k' < length (sv_ss w)" "k \<noteq> k'"
    and "active (se_phase (sv_ss w ! k))" "active (se_phase (sv_ss w ! k'))"
    and "se_name (sv_ss w ! k) = n" "se_name (sv_ss w ! k') = n" "n \<noteq> []"
  shows "se_closed (sv_ss w ! k) \<or> se_closed (sv_ss w ! k')
       \<or> (\<exists>j < length (sv_ss w). se_phase (sv_ss w ! j) \<in> {Evicting k, Evicting k'})"
  using one_live [OF reach_mgr [OF assms(1)] assms(2-9)] by blast

text \<open>Before the second session has closed the first, and after.\<close>

theorem one_live_session_per_name_witness:
  "\<not> se_closed (sv_ss demo3 ! 0) \<and> \<not> se_closed (sv_ss demo3 ! 1)
     \<and> (\<exists>j < length (sv_ss demo3). se_phase (sv_ss demo3 ! j) \<in> {Evicting 0, Evicting 1})
   \<and> (se_closed (sv_ss demo4 ! 0) \<or> se_closed (sv_ss demo4 ! 1)
     \<or> (\<exists>j < length (sv_ss demo4). se_phase (sv_ss demo4 ! j) \<in> {Evicting 0, Evicting 1}))"
  using one_live_session_per_name [OF reach_demo3, of 0 1 "''tk''"]
    one_live_session_per_name [OF reach_demo4, of 0 1 "''tk''"]
  by (simp add: demo3_sel demo4_sel)

text \<open>The port a request binds: the requested one, or the kernel's choice for port 0.\<close>

definition bound_port :: "u32 \<Rightarrow> nat \<Rightarrow> nat" where
  "bound_port p eph = (if p = 0 then eph else unat p)"

definition bindable :: "server \<Rightarrow> nat \<Rightarrow> bool" where
  "bindable w q \<longleftrightarrow> 0 < q \<and> q \<le> 65535 \<and> q \<notin> set (os_foreign (sv_os w)) \<and> (\<forall>l. opn w l \<noteq> Some q)"

lemma listenReuse_iff:
  assumes "os_ok (sv_os w)"
  shows "(\<exists>r. listenReuse (sv_os w) p eph = Some r) \<longleftrightarrow> bindable w (bound_port p eph)"
  using port_used_iff [OF assms, of "bound_port p eph"]
  by (auto simp: listenReuse_def bindable_def bound_port_def Let_def opn_def)

lemma forward_result:
  assumes inv: "ports_inv w" and rq: "rq_ok rq" "rq_want_reply rq"
  shows "snd (startForward w k rq eph) = Some True \<longleftrightarrow>
      rq_port rq \<in> set (se_allowed (sv_ss w ! k)) \<and> bindable w (bound_port (rq_port rq) eph)"
proof -
  have "os_ok (sv_os w)" using inv by (simp add: ports_inv_def)
  from listenReuse_iff [OF this, of "rq_port rq" eph] show ?thesis
    using rq by (auto simp: startForward_def reply_def Let_def split: option.splits)
qed

text \<open>A granted forward is recorded with its listener and nothing else changes hands.\<close>

lemma forward_effect:
  assumes "snd (startForward w k rq eph) = Some True" and k: "k < length (sv_ss w)"
  shows "fwd (fst (startForward w k rq eph)) =
       (fwd w)(k := (fwd w k)(rq_port rq \<mapsto> os_next (sv_os w)))"
    "opn (fst (startForward w k rq eph)) =
       (opn w)(os_next (sv_os w) \<mapsto> bound_port (rq_port rq) eph)"
proof -
  obtain os l where ln: "listenReuse (sv_os w) (rq_port rq) eph = Some (os, l)"
    and ok: "rq_ok rq" "rq_port rq \<in> set (se_allowed (sv_ss w ! k))"
    using assms(1) by (auto simp: startForward_def reply_def Let_def split: if_splits option.splits)
  have l: "l = os_next (sv_os w)"
    and os: "os_open os = put l (bound_port (rq_port rq) eph) (os_open (sv_os w))"
    using ln by (auto simp: listenReuse_def Let_def bound_port_def split: if_splits)
  show "fwd (fst (startForward w k rq eph)) = (fwd w)(k := (fwd w k)(rq_port rq \<mapsto> os_next (sv_os w)))"
    using ln ok k
    by (intro ext) (simp add: startForward_def Let_def l fwd_upd_session, simp add: fwd_def)
  show "opn (fst (startForward w k rq eph)) = (opn w)(os_next (sv_os w) \<mapsto> bound_port (rq_port rq) eph)"
    using ln ok by (intro ext) (auto simp: startForward_def Let_def os l opn_def)
qed

lemma forward_refused:
  "snd (startForward w k rq eph) \<noteq> Some True \<Longrightarrow> rq_want_reply rq \<Longrightarrow>
     startForward w k rq eph = (w, Some False)"
  by (auto simp: startForward_def reply_def Let_def split: option.splits)

text \<open>When no key permits port 0, a port is taken within the server exactly when a session forwards it.\<close>

lemma bindable_no_zero:
  assumes inv: "ports_inv w" and nz: "no_zero w" and p: "p \<noteq> 0"
  shows "bindable w (unat p) \<longleftrightarrow>
      unat p \<le> 65535 \<and> unat p \<notin> set (os_foreign (sv_os w)) \<and> (\<forall>j. fwd w j p = None)"
proof -
  have "(\<exists>l. opn w l = Some (unat p)) \<longleftrightarrow> (\<exists>j. fwd w j p \<noteq> None)"
  proof
    assume "\<exists>l. opn w l = Some (unat p)"
    then obtain l where l: "opn w l = Some (unat p)" by blast
    from listener_owner [OF inv nz l] show "\<exists>j. fwd w j p \<noteq> None" by auto
  next
    assume "\<exists>j. fwd w j p \<noteq> None"
    then obtain j l where f: "fwd w j p = Some l" by blast
    from fwd_owner(4) [OF inv f] p show "\<exists>l. opn w l = Some (unat p)" by blast
  qed
  with p show ?thesis by (auto simp: bindable_def unat_gt_0)
qed

text \<open>
  C4. A forward is granted exactly when it should be. In every reachable state a well-formed request
  that wants a reply gets yes if and only if the client's key permits the port it asks for, and the
  port to bind (the one asked for, or the kernel's choice when that is 0) is a port number that
  nothing outside the server holds and no open listener is bound to. Granted, the session records a
  new listener on that port under the port asked for, and no other entry or listener changes;
  refused, nothing changes at all. And provided no key permits port 0, that no listener is bound to
  it is the same as that no session forwards it; without that proviso it is not, because a second
  forward of port 0 loses the first one's listener.
\<close>

theorem forward_granted_iff:
  assumes "reach srv_start srv_step w" and "k < length (sv_ss w)"
    and "rq_ok rq" "rq_want_reply rq" "rq_type rq = Tcpip_forward"
  shows "(snd (handle_request w k rq eph) = Some True \<longleftrightarrow>
       rq_port rq \<in> set (se_allowed (sv_ss w ! k)) \<and> bindable w (bound_port (rq_port rq) eph))
   \<and> (if snd (handle_request w k rq eph) = Some True
      then \<exists>l. opn w l = None
           \<and> fwd (fst (handle_request w k rq eph)) = (fwd w)(k := (fwd w k)(rq_port rq \<mapsto> l))
           \<and> opn (fst (handle_request w k rq eph)) = (opn w)(l \<mapsto> bound_port (rq_port rq) eph)
      else handle_request w k rq eph = (w, Some False))
   \<and> ((\<forall>s \<in> set (sv_ss w). 0 \<notin> set (se_allowed s)) \<longrightarrow>
       (snd (handle_request w k rq eph) = Some True \<longleftrightarrow>
         rq_port rq \<in> set (se_allowed (sv_ss w ! k)) \<and> unat (rq_port rq) \<le> 65535
         \<and> unat (rq_port rq) \<notin> set (os_foreign (sv_os w)) \<and> (\<forall>j. fwd w j (rq_port rq) = None)))"
proof -
  note inv = reach_ports [OF assms(1)]
  have h: "handle_request w k rq eph = startForward w k rq eph"
    using assms(5) by (simp add: handle_request_def)
  note iff = forward_result [OF inv assms(3,4), of k eph]
  have fresh: "opn w (os_next (sv_os w)) = None"
    using inv unfolding ports_inv_def os_ok_def opn_def by (metis less_irrefl not_None_eq)
  have p0: "rq_port rq \<in> set (se_allowed (sv_ss w ! k)) \<Longrightarrow> no_zero w \<Longrightarrow> rq_port rq \<noteq> 0"
    using assms(2) by (auto simp: no_zero_nth)
  show ?thesis
    unfolding h using iff forward_effect [of w k rq eph] forward_refused [of w k rq eph] fresh assms(2,4)
      bindable_no_zero [OF inv, of "rq_port rq"] p0
    by (auto simp: bound_port_def no_zero_def [symmetric])
qed

text \<open>
  In the run above the first session is granted its port; the reconnected client, which gave up
  waiting, is refused it while the stale session still holds it.
\<close>

theorem forward_granted_iff_witness:
  "snd (handle_request demo1 0 (demo_request 8080) 0) = Some True
   \<and> handle_request demo4 1 (demo_request 8080) 0 = (demo4, Some False)"
proof
  have "bindable demo1 (bound_port 8080 0)"
    by (simp add: bindable_def bound_port_def demo1_sel opn_def)
  then show "snd (handle_request demo1 0 (demo_request 8080) 0) = Some True"
    using forward_granted_iff [OF reach_demo1, of 0 "demo_request 8080" 0]
    by (simp add: demo1_sel demo_request_def)
  have "\<not> bindable demo4 (bound_port 8080 0)"
    by (auto simp: bindable_def bound_port_def demo4_sel opn_def intro!: exI [of _ 0])
  then show "handle_request demo4 1 (demo_request 8080) 0 = (demo4, Some False)"
    using forward_granted_iff [OF reach_demo4, of 1 "demo_request 8080" 0]
    by (simp add: demo4_sel demo_request_def split: if_splits)
qed

text \<open>A session whose key permits port 0 asks for it twice, and ends.\<close>

definition zero1 :: server where
  "zero1 = register_swap (authenticated (NewServerState []) ''a:1''
     \<lparr>ki_Ports = ''0'', ki_Name = ''tk''\<rparr> 1 1) 0"

definition zero2 :: server where
  "zero2 = fst (handle_request (fst (handle_request zero1 0 (demo_request 0) 40000)) 0 (demo_request 0) 40001)"

definition zero3 :: server where
  "zero3 = (let w = sconn_Close 0 zero2
            in upd_session 0 (\<lambda>s. s\<lparr>se_done := True, se_phase := Releasing\<rparr>) (closeAll w 0))"

lemma zero_allowed: "parsePorts ''0'' = [0]"
  by (simp add: parsePorts_def trim_space_def trim_left_def trim_right_def is_space_def atoi_def
      parse_int_def split_sign_def digit_val_def)

lemma zero1_sel:
  "sv_ss zero1 = [\<lparr>se_allowed = [0], se_fwds = [], se_id = ''a:1'', se_name = ''tk'',
                   se_done = False, se_closed = False, se_phase = Serving\<rparr>]"
  "sv_os zero1 = \<lparr>os_open = [], os_next = 0, os_foreign = []\<rparr>"
  by (simp_all add: zero1_def demo_simps zero_allowed)

lemma zero2_sel:
  "sv_ss zero2 = [\<lparr>se_allowed = [0], se_fwds = [(0, 1)], se_id = ''a:1'', se_name = ''tk'',
                   se_done = False, se_closed = False, se_phase = Serving\<rparr>]"
  "sv_os zero2 = \<lparr>os_open = [(0, 40000), (1, 40001)], os_next = 2, os_foreign = []\<rparr>"
  by (simp_all add: zero2_def demo_simps zero1_sel)

lemma zero3_sel:
  "sv_ss zero3 = [\<lparr>se_allowed = [0], se_fwds = [], se_id = ''a:1'', se_name = ''tk'',
                   se_done = True, se_closed = True, se_phase = Releasing\<rparr>]"
  "os_open (sv_os zero3) = [(0, 40000)]"
  by (simp_all add: zero3_def demo_simps zero2_sel closeAll_def ln_Close_def)

lemma reach_zero3: "reach srv_start srv_step zero3"
proof -
  let ?w = "NewServerState []" and ?i = "\<lparr>ki_Ports = ''0'', ki_Name = ''tk''\<rparr>"
  have "reach srv_start srv_step ?w" by (rule reach_start) (auto simp: srv_start_def)
  then have "reach srv_start srv_step (authenticated ?w ''a:1'' ?i 1 1)"
    by (rule reach_step) (rule st_accept)
  then have "reach srv_start srv_step zero1"
    unfolding zero1_def
    by (rule reach_step) (intro st_register, simp_all add: sv_ss_authenticated NewServerState_def)
  then have "reach srv_start srv_step (fst (handle_request zero1 0 (demo_request 0) 40000))"
    by (rule reach_step) (intro st_request, simp_all add: zero1_sel)
  then have "reach srv_start srv_step zero2"
    unfolding zero2_def by (rule reach_step) (intro st_request, simp_all add: demo_simps zero1_sel)
  then have "reach srv_start srv_step (sconn_Close 0 zero2)"
    by (rule reach_step) (intro st_drop, simp add: zero2_sel)
  then show ?thesis
    unfolding zero3_def Let_def
    by (rule reach_step) (intro st_end, simp_all add: sconn_Close_def upd_session_def zero2_sel)
qed

text \<open>
  Port 0 escapes the bookkeeping: the map of listeners is keyed by the requested port, so
  for a key with \<open>permitlisten="0"\<close> a second forward of port 0 overwrites the first, whose
  listener stays open on its ephemeral port after every session has ended.
\<close>

lemma port_zero_leaks_listener:
  "\<exists>w. reach srv_start srv_step w \<and> sv_ss w \<noteq> [] \<and> list_all se_done (sv_ss w) \<and> opn w 0 = Some 40000"
  by (rule exI [of _ zero3]) (simp add: reach_zero3 zero3_sel opn_def)

text \<open>
  When a failure from an address is logged: always if a client was last seen at it, otherwise five
  minutes after the last one.
\<close>

definition log_due :: "registry \<Rightarrow> string \<Rightarrow> gotime \<Rightarrow> bool" where
  "log_due r ip now \<longleftrightarrow>
     ClientAt r ip \<noteq> [] \<or> lastLogged (stat_of (r_att r) ip) = zero_time
     \<or> 300 * second \<le> time_sub now (lastLogged (stat_of (r_att r) ip))"

text \<open>
  C35. What a failed handshake leaves, for every address. Nothing but the record of attempts changes,
  in it only the entry of the address, whose last contact becomes now. An early close within two
  seconds adds nothing more and is not logged. Any other failure becomes the newest of the latest 50
  attempts, with the time, the address, the name of the client last seen there, the text for that kind
  of error and the milliseconds it took; it is one more failure since the last success, with that
  text. It is logged when it is due, with the client's name (empty for an unknown address), the text
  and the number suppressed since the last log, which starts again at 0; otherwise it is one more
  suppressed.
\<close>

theorem handshake_failure_reported:
  "let ip = host_of_addr addr; who = ClientAt r ip; s = stat_of (r_att r) ip;
       text = (case e of
           Timed_out \<Rightarrow> ''no complete SSH handshake within '' @ dstr timeout
                          @ '' (TCP connected; peer sent nothing or stalled)''
         | Ended \<Rightarrow> ''peer closed the connection before the SSH handshake finished''
         | Other_error t \<Rightarrow> t);
       sofar = (if suppressed s = 0 then [] else '' (+'' @ itoa (suppressed s) @ '' similar suppressed)'');
       result = handshake_failed dstr timeout r addr now d e; att = r_att (fst result)
   in fst result = r\<lparr>r_att := att\<rparr>
    \<and> ips att = (ips (r_att r))(ip \<mapsto> stat_of att ip)
    \<and> (if e = Ended \<and> d < 2 * second
       then snd result = None \<and> ring att = ring (r_att r) \<and> stat_of att ip = s\<lparr>lastAt := now\<rparr>
       else ring att = drop (length (ring (r_att r)) - 49) (ring (r_att r))
                @ [\<lparr>At = unix now, IP = ip, Client_name = who, Error_text = text, Millis = milliseconds d\<rparr>]
          \<and> stat_of att ip =
              s\<lparr>lastAt := now, lastErr := text, failsSince := failsSince s + 1,
                lastLogged := (if log_due r ip now then now else lastLogged s),
                suppressed := (if log_due r ip now then 0 else suppressed s + 1)\<rparr>
          \<and> snd result = (if log_due r ip now then Some (who, text @ sofar) else None))"
proof -
  have "push_window 50 xs x = drop (length xs - 49) xs @ [x]" for xs :: "attempt list" and x
    by (auto simp: push_window_def Let_def)
  then show ?thesis
    by (auto simp: handshake_failed_def Record_def Let_def ringLen_def logEvery_def log_due_def
        stat_of_def describeHandshakeErr_def suppressedNote_def split: option.splits handshake_error.splits)
qed

end
