(* ===== verification/Handover.thy ===== *)
theory Handover
  imports Sessions
begin

text \<open>
  The handover of ports when a client reconnects, over the step relation of \<open>Sessions\<close>: the steps of
  the two sessions that hand the ports over, what holds in every run until the new session is served,
  and what cancelling leaves behind in the registry.
\<close>

lemma os_foreign_closes [simp]: "os_foreign (fold ln_Close ls os) = os_foreign os"
  by (induction ls arbitrary: os) (simp_all add: ln_Close_def)

text \<open>The three steps: the evictor closes the old session, which ends, and sees that it is done.\<close>

definition evicted :: "server \<Rightarrow> nat \<Rightarrow> nat \<Rightarrow> server" where
  "evicted w v k = set_phase (Waiting v) k (sconn_Close v w)"

definition released :: "server \<Rightarrow> nat \<Rightarrow> server" where
  "released w v = upd_session v (\<lambda>s. s\<lparr>se_done := True, se_phase := Releasing\<rparr>) (closeAll w v)"

lemma evicted_sel:
  assumes "v < length (sv_ss w)" "v \<noteq> k"
  shows "length (sv_ss (evicted w v k)) = length (sv_ss w)" "sv_os (evicted w v k) = sv_os w"
    "se_phase (sv_ss (evicted w v k) ! v) = se_phase (sv_ss w ! v)" "se_closed (sv_ss (evicted w v k) ! v)"
    "k < length (sv_ss w) \<Longrightarrow> se_phase (sv_ss (evicted w v k) ! k) = Waiting v"
    "j < length (sv_ss w) \<Longrightarrow> se_allowed (sv_ss (evicted w v k) ! j) = se_allowed (sv_ss w ! j)"
    "fwd (evicted w v k) = fwd w"
  using assms
  by (auto simp: evicted_def set_phase_def sconn_Close_def nth_upd_session fwd_upd_session fun_eq_iff fwd_def)

lemma released_sel:
  assumes "v < length (sv_ss w)"
  shows "length (sv_ss (released w v)) = length (sv_ss w)"
    "os_foreign (sv_os (released w v)) = os_foreign (sv_os w)"
    "se_done (sv_ss (released w v) ! v)"
    "j < length (sv_ss w) \<Longrightarrow> se_allowed (sv_ss (released w v) ! j) = se_allowed (sv_ss w ! j)"
    "j < length (sv_ss w) \<Longrightarrow> j \<noteq> v \<Longrightarrow> se_phase (sv_ss (released w v) ! j) = se_phase (sv_ss w ! j)"
    "fwd (released w v) j p = (if j = v then None else fwd w j p)"
proof -
  have len: "length (sv_ss (closeAll w v)) = length (sv_ss w)" by (simp add: closeAll_def)
  have nth: "sv_ss (closeAll w v) ! j = (if j = v then (sv_ss w ! v)\<lparr>se_fwds := []\<rparr> else sv_ss w ! j)"
    if "j < length (sv_ss w)" for j
    using that assms by (simp add: closeAll_def nth_upd_session upd_session_def)
  note s = released_def nth_upd_session len nth
  show "length (sv_ss (released w v)) = length (sv_ss w)" by (simp add: released_def len)
  show "os_foreign (sv_os (released w v)) = os_foreign (sv_os w)" by (simp add: released_def closeAll_def)
  show "se_done (sv_ss (released w v) ! v)" using assms by (simp add: s)
  show "se_allowed (sv_ss (released w v) ! j) = se_allowed (sv_ss w ! j)" if "j < length (sv_ss w)"
    using that by (simp add: s)
  show "se_phase (sv_ss (released w v) ! j) = se_phase (sv_ss w ! j)" if "j < length (sv_ss w)" "j \<noteq> v"
    using that by (simp add: s)
  show "fwd (released w v) j p = (if j = v then None else fwd w j p)"
    using assms by (simp add: fwd_def released_def len nth_upd_session nth)
qed

definition handed_over :: "server \<Rightarrow> nat \<Rightarrow> nat \<Rightarrow> server" where
  "handed_over w v k = set_phase Serving k (released (evicted w v k) v)"

lemma handed_over_sel:
  assumes v: "v < length (sv_ss w)" "v \<noteq> k" and k: "k < length (sv_ss w)"
  shows "length (sv_ss (handed_over w v k)) = length (sv_ss w)"
    "os_foreign (sv_os (handed_over w v k)) = os_foreign (sv_os w)"
    "j < length (sv_ss w) \<Longrightarrow> se_allowed (sv_ss (handed_over w v k) ! j) = se_allowed (sv_ss w ! j)"
    "fwd (handed_over w v k) j p = (if j = v then None else fwd w j p)"
proof -
  note e = evicted_sel [OF v]
  have v1: "v < length (sv_ss (evicted w v k))" using v(1) e(1) by simp
  note r = released_sel [OF v1]
  have k2: "k < length (sv_ss (released (evicted w v k) v))" using k e(1) r(1) by simp
  show "length (sv_ss (handed_over w v k)) = length (sv_ss w)"
    by (simp add: handed_over_def set_phase_def r e)
  show "os_foreign (sv_os (handed_over w v k)) = os_foreign (sv_os w)"
    by (simp add: handed_over_def set_phase_def r e)
  show "se_allowed (sv_ss (handed_over w v k) ! j) = se_allowed (sv_ss w ! j)" if "j < length (sv_ss w)"
    using that r(1,4) e(1,6) k2 by (simp add: handed_over_def set_phase_def nth_upd_session)
  have "fwd (handed_over w v k) j p = fwd (released (evicted w v k) v) j p"
    using k2 by (auto simp: handed_over_def set_phase_def nth_upd_session fwd_def)
  then show "fwd (handed_over w v k) j p = (if j = v then None else fwd w j p)"
    by (simp add: r(6) e(7))
qed

lemma handover_steps:
  assumes k: "k < length (sv_ss w)" "se_phase (sv_ss w ! k) = Evicting v"
    and v: "v < length (sv_ss w)" "se_phase (sv_ss w ! v) = Serving" "v \<noteq> k"
  shows "srv_act (Session k) w (evicted w v k)"
    "srv_act (Session v) (evicted w v k) (released (evicted w v k) v)"
    "srv_act (Session k) (released (evicted w v k) v) (handed_over w v k)"
proof -
  note e = evicted_sel [OF v(1,3)]
  have v1: "v < length (sv_ss (evicted w v k))" using v e(1) by simp
  note r = released_sel [OF v1]
  show "srv_act (Session k) w (evicted w v k)" unfolding evicted_def by (rule ac_evict [OF k])
  show "srv_act (Session v) (evicted w v k) (released (evicted w v k) v)" unfolding released_def
    by (rule ac_end [OF v1]) (simp_all add: e v)
  have k2: "k < length (sv_ss (released (evicted w v k) v))" using k e(1) r(1) by simp
  have "se_phase (sv_ss (released (evicted w v k) v) ! k) = Waiting v" using r(5) v(3) e(1,5) k by simp
  then show "srv_act (Session k) (released (evicted w v k) v) (handed_over w v k)"
    unfolding handed_over_def by (rule ac_released [OF k2 _ r(3)])
qed

text \<open>When the old session's listener is closed, nothing in the server is bound to its port.\<close>

lemma opn_handed_over:
  assumes v: "v < length (sv_ss w)" "v \<noteq> k"
  shows "opn (handed_over w v k) m = (if m \<in> snd ` set (se_fwds (sv_ss w ! v)) then None else opn w m)"
proof -
  have "se_fwds (sv_ss (evicted w v k) ! v) = se_fwds (sv_ss w ! v)"
    using v by (simp add: evicted_def set_phase_def sconn_Close_def nth_upd_session)
  then show ?thesis
    using evicted_sel(2) [OF v]
    by (simp add: opn_def handed_over_def released_def closeAll_def get_closes)
qed

lemma port_freed:
  assumes inv: "ports_inv w" and v: "v < length (sv_ss w)" "v \<noteq> k"
    and f: "fwd w v p = Some l" and p: "p \<noteq> 0"
  shows "opn (handed_over w v k) m \<noteq> Some (unat p)"
proof
  assume a: "opn (handed_over w v k) m = Some (unat p)"
  have "(p, l) \<in> set (se_fwds (sv_ss w ! v))" using f v(1) by (auto simp: fwd_def dest: map_of_SomeD)
  then have "l \<in> snd ` set (se_fwds (sv_ss w ! v))" by force
  then have ne: "m \<noteq> l" "opn w m = Some (unat p)"
    using a by (auto simp: opn_handed_over [OF v] split: if_splits)
  have "opn w l = Some (unat p)" using fwd_owner(4) [OF inv f] p by blast
  with ne show False using inv unfolding ports_inv_def os_ok_def opn_def by blast
qed

section \<open>Runs in which the evictor does not give up\<close>

definition patient :: "nat \<Rightarrow> server \<Rightarrow> server \<Rightarrow> bool" where
  "patient k w w' \<longleftrightarrow> (\<exists>a. a \<noteq> Gives_up k \<and> srv_act a w w')"

text \<open>What no step undoes, and what only a session's own steps change.\<close>

definition grows :: "server \<Rightarrow> server \<Rightarrow> bool" where
  "grows w w' \<longleftrightarrow> os_foreign (sv_os w') = os_foreign (sv_os w) \<and> length (sv_ss w) \<le> length (sv_ss w')
     \<and> (\<forall>j < length (sv_ss w). se_allowed (sv_ss w' ! j) = se_allowed (sv_ss w ! j)
          \<and> (se_closed (sv_ss w ! j) \<longrightarrow> se_closed (sv_ss w' ! j))
          \<and> (se_done (sv_ss w ! j) \<longrightarrow> se_done (sv_ss w' ! j)))"

lemma grows_upd:
  assumes "\<And>s. se_allowed (f s) = se_allowed s \<and> (se_closed s \<longrightarrow> se_closed (f s))
      \<and> (se_done s \<longrightarrow> se_done (f s))"
    and "sv_ss w' = sv_ss w" and "os_foreign (sv_os w') = os_foreign (sv_os w)"
  shows "grows w (upd_session k f w')"
  using assms by (simp add: grows_def nth_upd_session)

lemma grows_trans: "grows w w' \<Longrightarrow> grows w' w'' \<Longrightarrow> grows w w''"
  by (fastforce simp: grows_def)

lemma grows_request: "grows w (fst (handle_request w k rq eph))"
proof -
  have "os_foreign os = os_foreign (sv_os w)" if "listenReuse (sv_os w) p eph = Some (os, l)" for p os l
    using that by (auto simp: listenReuse_def Let_def split: if_splits)
  then show ?thesis
    by (auto simp: handle_request_def startForward_def cancelForward_def Let_def
        grows_def nth_upd_session split: req_type.splits option.splits)
qed

lemma grows_act: "srv_act a w w' \<Longrightarrow> grows w w'"
proof (induction rule: srv_act.induct)
  case (ac_accept w addr info now d)
  obtain s where "sv_ss (authenticated w addr info now d) = sv_ss w @ [s]" using authenticated_ss by blast
  then show ?case by (simp add: grows_def nth_append)
next
  case (ac_evict k w v)
  have "grows w (sconn_Close v w)" by (simp add: sconn_Close_def grows_upd)
  moreover have "grows (sconn_Close v w) (set_phase (Waiting v) k (sconn_Close v w))"
    by (simp add: set_phase_def grows_upd)
  ultimately show ?case by (rule grows_trans)
next
  case (ac_end k w)
  have "grows w (closeAll w k)" by (simp add: closeAll_def grows_upd)
  then show ?case by (rule grows_trans) (simp add: grows_upd)
next
  case (ac_request k w rq eph)
  show ?case by (rule grows_request)
qed (auto simp: grows_def nth_upd_session register_swap_def set_phase_def sconn_Close_def Let_def
    split: option.split)

lemma phase_act:
  "srv_act a w w' \<Longrightarrow> j < length (sv_ss w) \<Longrightarrow> a \<noteq> Session j \<Longrightarrow> a \<noteq> Gives_up j \<Longrightarrow>
     se_phase (sv_ss w' ! j) = se_phase (sv_ss w ! j)"
proof (induction rule: srv_act.induct)
  case (ac_accept w addr info now d)
  obtain s where "sv_ss (authenticated w addr info now d) = sv_ss w @ [s]" using authenticated_ss by blast
  then show ?case using ac_accept by (simp add: nth_append)
next
  case (ac_request k w rq eph)
  have "mview (fst (handle_request w k rq eph)) j = mview w j" by (simp add: mview_request)
  then show ?case using ac_request(3) by (auto simp: mview_def split: if_splits)
qed (auto simp: register_swap_def set_phase_def sconn_Close_def closeAll_def Let_def nth_upd_session
    split: option.split)

text \<open>The handover seen from the evictor: about to close the old session, waiting for it, or served.\<close>

definition handing :: "server \<Rightarrow> nat \<Rightarrow> nat \<Rightarrow> server \<Rightarrow> bool" where
  "handing w0 v k w \<longleftrightarrow> grows w0 w \<and> reach srv_start srv_step w \<and>
     (case se_phase (sv_ss w ! k) of
        Registering \<Rightarrow> False
      | Evicting u \<Rightarrow> u = v
      | Waiting u \<Rightarrow> u = v \<and> se_closed (sv_ss w ! v)
      | _ \<Rightarrow> se_closed (sv_ss w ! v) \<and> se_done (sv_ss w ! v))"

lemma own_act:
  assumes "srv_act a w w'" "a = Session k" and "v < length (sv_ss w)" "k < length (sv_ss w)" "v \<noteq> k"
  shows "(se_phase (sv_ss w ! k) = Evicting v \<longrightarrow>
            se_phase (sv_ss w' ! k) = Waiting v \<and> se_closed (sv_ss w' ! v))
       \<and> (se_phase (sv_ss w ! k) = Waiting v \<longrightarrow> se_phase (sv_ss w' ! k) = Serving \<and> se_done (sv_ss w ! v))
       \<and> (se_phase (sv_ss w ! k) \<in> {Serving, Releasing, Unregistered, Gone} \<longrightarrow>
            se_phase (sv_ss w' ! k) \<in> {Serving, Releasing, Unregistered, Gone})"
  using assms
proof (induction rule: srv_act.induct)
  case (ac_request k' w rq eph)
  have "mview (fst (handle_request w k' rq eph)) k' = mview w k'" by (simp add: mview_request)
  then show ?case using ac_request by (auto simp: mview_def split: if_splits)
qed (auto simp: set_phase_def sconn_Close_def closeAll_def nth_upd_session)

lemma handing_act:
  assumes h: "handing w0 v k w" and a: "srv_act a w w'" "a \<noteq> Gives_up k"
    and b: "v < length (sv_ss w0)" "k < length (sv_ss w0)" "v \<noteq> k"
  shows "handing w0 v k w'"
proof -
  have g: "grows w w'" by (rule grows_act [OF a(1)])
  have w: "grows w0 w" "reach srv_start srv_step w" using h by (simp_all add: handing_def)
  then have len: "v < length (sv_ss w)" "k < length (sv_ss w)" using b by (auto simp: grows_def)
  have "grows w0 w'" by (rule grows_trans [OF w(1) g])
  moreover have "reach srv_start srv_step w'" using w(2) a(1) reach_step srv_stepI by metis
  moreover have keep: "se_closed (sv_ss w ! v) \<Longrightarrow> se_closed (sv_ss w' ! v)"
      "se_done (sv_ss w ! v) \<Longrightarrow> se_done (sv_ss w' ! v)"
    using g len by (auto simp: grows_def)
  moreover have "a \<noteq> Session k \<Longrightarrow> se_phase (sv_ss w' ! k) = se_phase (sv_ss w ! k)"
    by (rule phase_act [OF a(1) len(2) _ a(2)])
  moreover note own_act [OF a(1) _ len b(3)]
  ultimately show ?thesis
    using h unfolding handing_def
    by (cases "a = Session k"; cases "se_phase (sv_ss w ! k)") auto
qed

lemma forwarding_session:
  assumes "ports_inv w" and "fwd w v p = Some l"
  shows "v < length (sv_ss w)" "se_phase (sv_ss w ! v) = Serving"
proof -
  show v: "v < length (sv_ss w)" by (rule fwd_owner(1) [OF assms])
  have "se_fwds (sv_ss w ! v) \<noteq> []" using assms(2) v by (auto simp: fwd_def)
  then show "se_phase (sv_ss w ! v) = Serving"
    using session_ok_nth [OF assms(1) v] by (simp add: session_ok_def)
qed

lemma forward_bounds:
  assumes "ports_inv w" and "fwd w v p = Some l" and "p \<noteq> 0"
  shows "0 < unat p" "unat p \<le> 65535" "unat p \<notin> set (os_foreign (sv_os w))"
proof -
  have "opn w l = Some (unat p)" using fwd_owner(4) [OF assms(1,2)] assms(3) by blast
  then show "0 < unat p" "unat p \<le> 65535" "unat p \<notin> set (os_foreign (sv_os w))"
    using assms(1) unfolding ports_inv_def os_ok_def opn_def by blast+
qed

text \<open>In any later state, the new session is granted the port exactly when no listener is bound to it.\<close>

lemma granted_later:
  assumes w: "ports_inv w" "fwd w v p = Some l" "p \<noteq> 0" "p \<in> set (se_allowed (sv_ss w ! k))"
    and k: "k < length (sv_ss w)" and w': "ports_inv w'" "grows w w'"
    and rq: "rq_ok rq" "rq_want_reply rq" "rq_type rq = Tcpip_forward" "rq_port rq = p"
  shows "snd (handle_request w' k rq eph) = Some True \<longleftrightarrow> (\<forall>m. opn w' m \<noteq> Some (unat p))"
proof -
  have "se_allowed (sv_ss w' ! k) = se_allowed (sv_ss w ! k)" "os_foreign (sv_os w') = os_foreign (sv_os w)"
    using w'(2) k by (auto simp: grows_def)
  then show ?thesis
    using forward_result [OF w'(1) rq(1,2), of k eph] forward_bounds [OF w(1-3)] w(3,4) rq
    by (auto simp: handle_request_def bindable_def bound_port_def)
qed

lemma handover:
  assumes r: "reach srv_start srv_step w"
    and k: "k < length (sv_ss w)" "se_phase (sv_ss w ! k) = Evicting v"
    and f: "fwd w v p = Some l" and p: "p \<noteq> 0" "p \<in> set (se_allowed (sv_ss w ! k))"
    and rq: "rq_ok rq" "rq_want_reply rq" "rq_type rq = Tcpip_forward" "rq_port rq = p"
  shows "\<exists>w1 w2 w3. srv_act (Session k) w w1 \<and> srv_act (Session v) w1 w2 \<and> srv_act (Session k) w2 w3
           \<and> se_phase (sv_ss w3 ! k) = Serving \<and> snd (handle_request w3 k rq eph) = Some True"
proof -
  note inv = reach_ports [OF r]
  note v = forwarding_session [OF inv f]
  have ne: "v \<noteq> k" using k v by auto
  note steps = handover_steps [OF k v ne]
  let ?w3 = "handed_over w v k"
  have "grows w ?w3" using steps grows_act grows_trans by metis
  moreover have "reach srv_start srv_step ?w3" using r steps reach_step srv_stepI by metis
  ultimately have "snd (handle_request ?w3 k rq eph) = Some True"
    using granted_later [OF inv f p k(1) reach_ports _ rq, of ?w3] port_freed [OF inv v(1) ne f p(1)] by blast
  moreover have "se_phase (sv_ss ?w3 ! k) = Serving"
    using handed_over_sel(1) [OF v(1) ne k(1)] k(1)
    by (simp add: handed_over_def set_phase_def nth_upd_session)
  ultimately show ?thesis using steps by blast
qed

lemma patient_run:
  assumes r: "reach srv_start srv_step w"
    and k: "k < length (sv_ss w)" "se_phase (sv_ss w ! k) = Evicting v"
    and v: "v < length (sv_ss w)" "v \<noteq> k"
    and run: "reach (\<lambda>x. x = w) (patient k) w'"
  shows "handing w v k w'"
  using run
proof (induction rule: reach.induct)
  case (reach_start s)
  then show ?case using r k by (simp add: handing_def grows_def)
next
  case (reach_step s t)
  then show ?case using handing_act [of w v k s _ t] k v by (auto simp: patient_def)
qed

lemma handover_only_after_release:
  assumes r: "reach srv_start srv_step w"
    and k: "k < length (sv_ss w)" "se_phase (sv_ss w ! k) = Evicting v"
    and f: "fwd w v p = Some l" and p: "p \<noteq> 0" "p \<in> set (se_allowed (sv_ss w ! k))"
    and rq: "rq_ok rq" "rq_want_reply rq" "rq_type rq = Tcpip_forward" "rq_port rq = p"
    and run: "reach (\<lambda>x. x = w) (patient k) w'" and serving: "se_phase (sv_ss w' ! k) = Serving"
  shows "se_closed (sv_ss w' ! v) \<and> se_done (sv_ss w' ! v) \<and> (\<forall>r. fwd w' v r = None)
       \<and> (snd (handle_request w' k rq eph) = Some True \<longleftrightarrow> (\<forall>m. opn w' m \<noteq> Some (unat p)))"
proof -
  note inv = reach_ports [OF r]
  note v = forwarding_session [OF inv f]
  have "v \<noteq> k" using k v by auto
  from patient_run [OF r k v(1) this run] have h: "handing w v k w'" .
  then have w': "grows w w'" "ports_inv w'" and cd: "se_closed (sv_ss w' ! v)" "se_done (sv_ss w' ! v)"
    using serving reach_ports by (auto simp: handing_def)
  have "fwd w' v r = None" for r
    using fwd_owner(3) [OF w'(2), of v r] cd(2) by (cases "fwd w' v r") auto
  then show ?thesis using cd granted_later [OF inv f p k(1) w'(2,1) rq] by blast
qed

text \<open>
  C2. A reconnecting client gets its ports back. Take any reachable state in which session \<open>k\<close> is
  about to evict session \<open>v\<close>, which holds a forward of a port other than 0 that \<open>k\<close>'s key permits
  too. First, without any help from outside: \<open>k\<close> closes \<open>v\<close>, \<open>v\<close> ends, \<open>k\<close> sees it, and then it
  serves requests and a forward of the port is granted. Second, in every run, whatever the other
  sessions and the network do, in which \<open>k\<close> does not give up its wait: once \<open>k\<close> serves requests, \<open>v\<close>
  has been closed, is done and holds no forward, and a forward of the port is granted unless an open
  listener of another session is bound to it. The other keys may permit what they like.
\<close>

theorem reconnect_takes_over:
  assumes "reach srv_start srv_step w"
    and "k < length (sv_ss w)" "se_phase (sv_ss w ! k) = Evicting v"
    and "fwd w v p = Some l" and "p \<noteq> 0" "p \<in> set (se_allowed (sv_ss w ! k))"
    and "rq_ok rq" "rq_want_reply rq" "rq_type rq = Tcpip_forward" "rq_port rq = p"
  shows "(\<exists>w1 w2 w3. srv_act (Session k) w w1 \<and> srv_act (Session v) w1 w2 \<and> srv_act (Session k) w2 w3
           \<and> se_phase (sv_ss w3 ! k) = Serving \<and> snd (handle_request w3 k rq eph) = Some True)
       \<and> (\<forall>w'. reach (\<lambda>x. x = w) (patient k) w' \<longrightarrow> se_phase (sv_ss w' ! k) = Serving \<longrightarrow>
            se_closed (sv_ss w' ! v) \<and> se_done (sv_ss w' ! v) \<and> (\<forall>r. fwd w' v r = None)
            \<and> (snd (handle_request w' k rq eph) = Some True \<longleftrightarrow> (\<forall>m. opn w' m \<noteq> Some (unat p))))"
  using handover [OF assms] handover_only_after_release [OF assms] by blast

text \<open>In the run of \<open>Sessions\<close>: the second session takes over, and is not served before the first is done.\<close>

theorem reconnect_takes_over_witness:
  "(\<exists>w1 w2 w3. srv_act (Session 1) demo3 w1 \<and> srv_act (Session 0) w1 w2 \<and> srv_act (Session 1) w2 w3
     \<and> se_phase (sv_ss w3 ! 1) = Serving \<and> snd (handle_request w3 1 (demo_request 8080) 0) = Some True)
   \<and> \<not> reach (\<lambda>x. x = demo3) (patient 1) demo4"
proof -
  have "8080 \<in> set (se_allowed (sv_ss demo3 ! 1))" "fwd demo3 0 8080 = Some 0"
    by (simp_all add: demo3_sel fwd_def)
  from reconnect_takes_over [OF reach_demo3 _ _ this(2) _ this(1), of "demo_request 8080" 0]
  show ?thesis by (auto simp: demo3_sel demo4_sel demo_request_def)
qed

text \<open>
  A cancelled forward stays in the list the panel works from: the port can still be probed through
  the panel although the client no longer forwards it and anything may listen on it now.
\<close>

lemma cancelled_port_stays_listed:
  assumes "k < length (sv_ss w)" and "startForward w k rq eph = (w', Some True)"
    and "reg_Get (sv_reg w) (se_id (sv_ss w ! k)) = Some c" and "c < length (r_heap (sv_reg w))"
  shows "get (se_fwds (sv_ss (fst (cancelForward w' k rq)) ! k)) (rq_port rq) = None
       \<and> list_ex (\<lambda>p. uint p = uint (rq_port rq))
           (cl_ports (r_heap (sv_reg (fst (cancelForward w' k rq))) ! c))"
proof -
  obtain os l where w': "w' = (upd_session k (\<lambda>s. s\<lparr>se_fwds := put (rq_port rq) l (se_fwds s)\<rparr>)
      (w\<lparr>sv_os := os\<rparr>))\<lparr>sv_reg := AddPort (sv_reg w) (se_id (sv_ss w ! k)) (rq_port rq)\<rparr>"
    using assms(2)
    by (auto simp: startForward_def Let_def reply_def upd_session_def split: if_splits option.splits prod.splits)
  have "rq_port rq \<in> set (cl_ports (r_heap (sv_reg w') ! c))"
    using assms(3,4) by (simp add: w' AddPort_def reg_Get_def heap_upd_client)
  moreover have "sv_reg (fst (cancelForward w' k rq)) = sv_reg w'"
    by (simp add: cancelForward_def Let_def upd_session_def split: option.split)
  moreover have "get (se_fwds (sv_ss (fst (cancelForward w' k rq)) ! k)) (rq_port rq) = None"
    using assms(1)
    by (simp add: w' cancelForward_def Let_def upd_session_def delete_conv' split: option.split)
  ultimately show ?thesis by (auto simp: list_ex_iff)
qed

end
