(* ===== verification/Config.thy ===== *)
theory Config
  imports Prelude
begin

text \<open>
  The effective configuration, \<open>internal/config/config.go\<close>: defaults, the add-on's options
  file, \<open>TK_*\<close> environment variables and command-line flags, each layer over the previous
  one. The decoded options file (\<open>None\<close> when it cannot be read or decoded) and the
  environment are arguments; the flag package's parsing is modelled.
\<close>

section \<open>The configuration and its layers\<close>

record config =
  Host :: string
  SSHPort :: int
  User :: string
  KeyFile :: string
  Forwards :: "string list"
  ServerAliveInterval :: int
  ServerAliveCountMax :: int
  HostKey :: string
  ExtraSSHOpts :: string
  ReconnectDelay :: duration
  SSHImpl :: string
  SSHCommand :: string
  NoPrecheck :: bool
  HeartbeatPort :: int
  HeartbeatName :: string
  HeartbeatKey :: string
  HeartbeatInterval :: duration
  StatsAddr :: string
  StatsForwardPort :: int
  SpeedtestListen :: string
  SpeedtestForwardPort :: int
  SpeedtestAddr :: string
  SpeedtestBytes :: int
  ServerSSHAddr :: string
  ServerHostKey :: string
  ServerAuthorizedKeys :: string
  ServerMonitorAddr :: string
  ServerUDPAddr :: string
  ServerTrafficFile :: string
  ServerClientsFile :: string
  ServerLinks :: string
  ServerLinkBackupSuffix :: string

definition defaults :: config where
  "defaults = \<lparr>
     Host = [],
     SSHPort = 2222,
     User = ''tunnel'',
     KeyFile = [],
     Forwards = [],
     ServerAliveInterval = 20,
     ServerAliveCountMax = 3,
     HostKey = [],
     ExtraSSHOpts = [],
     ReconnectDelay = 5 * second,
     SSHImpl = ''openssh'',
     SSHCommand = ''ssh'',
     NoPrecheck = False,
     HeartbeatPort = 0,
     HeartbeatName = [],
     HeartbeatKey = [],
     HeartbeatInterval = 10 * second,
     StatsAddr = '':9100'',
     StatsForwardPort = 0,
     SpeedtestListen = '':9102'',
     SpeedtestForwardPort = 0,
     SpeedtestAddr = [],
     SpeedtestBytes = 50 * 2 ^ 20,
     ServerSSHAddr = '':2223'',
     ServerHostKey = ''/data/tunnelkit_host_key'',
     ServerAuthorizedKeys = ''/data/authorized_keys'',
     ServerMonitorAddr = [],
     ServerUDPAddr = [],
     ServerTrafficFile = ''/data/traffic.json'',
     ServerClientsFile = ''/data/clients.json'',
     ServerLinks = [],
     ServerLinkBackupSuffix = []\<rparr>"

text \<open>The options file; a missing (or null) entry is \<open>None\<close>.\<close>

record ha_options =
  o_Host :: "string option"
  o_SSHPort :: "int option"
  o_User :: "string option"
  o_KeyFile :: "string option"
  o_Forwards :: "string list option"
  o_ServerAliveInterval :: "int option"
  o_ServerAliveCountMax :: "int option"
  o_ExtraSSHOpts :: "string option"
  o_HostKey :: "string option"
  o_StatsForwardPort :: "int option"
  o_UDPPort :: "int option"
  o_UDPName :: "string option"
  o_UDPKey :: "string option"
  o_SpeedtestForwardPort :: "int option"

definition over :: "'a option \<Rightarrow> 'a \<Rightarrow> 'a" where
  "over v d = (case v of None \<Rightarrow> d | Some x \<Rightarrow> x)"

definition applyOptionsFile :: "ha_options option \<Rightarrow> config \<Rightarrow> config" where
  "applyOptionsFile file c =
     (case file of
        None \<Rightarrow> c
      | Some opts \<Rightarrow> c\<lparr>
          Host := over (o_Host opts) (Host c),
          SSHPort := over (o_SSHPort opts) (SSHPort c),
          User := over (o_User opts) (User c),
          KeyFile := over (o_KeyFile opts) (KeyFile c),
          Forwards := over (o_Forwards opts) (Forwards c),
          ServerAliveInterval := over (o_ServerAliveInterval opts) (ServerAliveInterval c),
          ServerAliveCountMax := over (o_ServerAliveCountMax opts) (ServerAliveCountMax c),
          ExtraSSHOpts := over (o_ExtraSSHOpts opts) (ExtraSSHOpts c),
          HostKey := over (o_HostKey opts) (HostKey c),
          HeartbeatPort := over (o_UDPPort opts) (HeartbeatPort c),
          HeartbeatName := over (o_UDPName opts) (HeartbeatName c),
          HeartbeatKey := over (o_UDPKey opts) (HeartbeatKey c),
          StatsForwardPort := over (o_StatsForwardPort opts) (StatsForwardPort c),
          SpeedtestForwardPort := over (o_SpeedtestForwardPort opts) (SpeedtestForwardPort c)\<rparr>)"

definition splitList :: "string \<Rightarrow> string list" where
  "splitList v = filter (\<lambda>p. p \<noteq> []) (map trim_space (split_on (CHR '','') v))"

text \<open>\<open>env\<close> is \<open>os.Getenv\<close>: an unset variable is empty.\<close>

definition setStr :: "string \<Rightarrow> string \<Rightarrow> string" where
  "setStr dst v = (if v \<noteq> [] then v else dst)"

definition setInt :: "int \<Rightarrow> string \<Rightarrow> int" where
  "setInt dst v =
     (if v \<noteq> [] then (case atoi v of None \<Rightarrow> dst | Some n \<Rightarrow> n) else dst)"

text \<open>\<open>time.Duration(n) * time.Second\<close> is 64-bit arithmetic.\<close>

definition mul_second :: "int \<Rightarrow> duration" where
  "mul_second n = sint (word_of_int (n * second) :: 64 word)"

definition applyEnv :: "(string \<Rightarrow> string) \<Rightarrow> config \<Rightarrow> config" where
  "applyEnv env c = c\<lparr>
     Host := setStr (Host c) (env ''TK_HOST''),
     SSHPort := setInt (SSHPort c) (env ''TK_SSH_PORT''),
     User := setStr (User c) (env ''TK_USER''),
     KeyFile := setStr (KeyFile c) (env ''TK_KEY_FILE''),
     Forwards := (let v = env ''TK_FORWARDS'' in if v \<noteq> [] then splitList v else Forwards c),
     ServerAliveInterval := setInt (ServerAliveInterval c) (env ''TK_SERVER_ALIVE_INTERVAL''),
     ServerAliveCountMax := setInt (ServerAliveCountMax c) (env ''TK_SERVER_ALIVE_COUNT_MAX''),
     ExtraSSHOpts := setStr (ExtraSSHOpts c) (env ''TK_EXTRA_SSH_OPTS''),
     HostKey := setStr (HostKey c) (env ''TK_HOST_KEY''),
     SSHImpl := setStr (SSHImpl c) (env ''TK_SSH_IMPL''),
     SSHCommand := setStr (SSHCommand c) (env ''TK_SSH_COMMAND''),
     NoPrecheck := (let v = env ''TK_NO_PRECHECK'' in
        (v \<noteq> [] \<and> v \<noteq> ''0'' \<and> to_lower v \<noteq> ''false'') \<or> NoPrecheck c),
     HeartbeatPort := setInt (HeartbeatPort c) (env ''TK_UDP_PORT''),
     HeartbeatName := setStr (HeartbeatName c) (env ''TK_UDP_NAME''),
     HeartbeatKey := setStr (HeartbeatKey c) (env ''TK_UDP_KEY''),
     HeartbeatInterval := (let v = env ''TK_UDP_INTERVAL'' in
        if v \<noteq> [] then (case atoi v of Some n \<Rightarrow> if 0 < n then mul_second n else HeartbeatInterval c
                         | None \<Rightarrow> HeartbeatInterval c)
        else HeartbeatInterval c),
     ServerUDPAddr := setStr (ServerUDPAddr c) (env ''TK_SERVER_UDP_ADDR''),
     StatsAddr := setStr (StatsAddr c) (env ''TK_STATS_ADDR''),
     StatsForwardPort := setInt (StatsForwardPort c) (env ''TK_STATS_FORWARD_PORT''),
     SpeedtestListen := setStr (SpeedtestListen c) (env ''TK_SPEEDTEST_LISTEN''),
     SpeedtestForwardPort := setInt (SpeedtestForwardPort c) (env ''TK_SPEEDTEST_FORWARD_PORT''),
     SpeedtestAddr := setStr (SpeedtestAddr c) (env ''TK_SPEEDTEST_ADDR''),
     ServerSSHAddr := setStr (ServerSSHAddr c) (env ''TK_SERVER_SSH_ADDR''),
     ServerHostKey := setStr (ServerHostKey c) (env ''TK_SERVER_HOST_KEY''),
     ServerAuthorizedKeys := setStr (ServerAuthorizedKeys c) (env ''TK_SERVER_AUTHORIZED_KEYS''),
     ServerMonitorAddr := setStr (ServerMonitorAddr c) (env ''TK_SERVER_MONITOR_ADDR''),
     ServerTrafficFile := setStr (ServerTrafficFile c) (env ''TK_SERVER_TRAFFIC_FILE''),
     ServerClientsFile := setStr (ServerClientsFile c) (env ''TK_SERVER_CLIENTS''),
     ServerLinks := setStr (ServerLinks c) (env ''TK_SERVER_LINKS''),
     ServerLinkBackupSuffix := setStr (ServerLinkBackupSuffix c) (env ''TK_SERVER_LINK_BACKUP_SUFFIX'')\<rparr>"

section \<open>Flags\<close>

text \<open>
  \<open>strconv.ParseInt(s, 0, 64)\<close>, which the flag package uses: the prefix gives the base, and
  underscores may separate digits.
\<close>

definition base_digit :: "nat \<Rightarrow> char \<Rightarrow> nat option" where
  "base_digit base c =
     (let n = (of_char c :: nat);
          d = (if 48 \<le> n \<and> n \<le> 57 then n - 48 else if 97 \<le> n \<and> n \<le> 122 then n - 87
               else if 65 \<le> n \<and> n \<le> 90 then n - 55 else 36)
      in if d < base then Some d else None)"

fun base_val :: "nat \<Rightarrow> nat \<Rightarrow> string \<Rightarrow> nat option" where
  "base_val base acc [] = Some acc"
| "base_val base acc (c # cs) =
     (if c = CHR ''_'' then base_val base acc cs
      else (case base_digit base c of None \<Rightarrow> None | Some d \<Rightarrow> base_val base (acc * base + d) cs))"

text \<open>Each underscore follows a digit or the base prefix and precedes a digit.\<close>

fun underscores_ok :: "bool \<Rightarrow> string \<Rightarrow> bool" where
  "underscores_ok after [] = True"
| "underscores_ok after (c # cs) =
     (if c = CHR ''_'' then after \<and> cs \<noteq> [] \<and> hd cs \<noteq> CHR ''_'' \<and> underscores_ok False cs
      else underscores_ok True cs)"

definition split_base :: "string \<Rightarrow> nat \<times> bool \<times> string" where
  "split_base s =
     (case s of
        z # x # ds \<Rightarrow>
          (if z \<noteq> CHR ''0'' then (10, False, s)
           else let x = to_lower_char x in
             if x = CHR ''x'' then (16, True, ds) else if x = CHR ''b'' then (2, True, ds)
             else if x = CHR ''o'' then (8, True, ds) else (8, True, drop 1 s))
      | _ \<Rightarrow> (10, False, s))"

definition parse_int0 :: "string \<Rightarrow> int option" where
  "parse_int0 s =
     (let (neg, ds) = split_sign s; (base, pre, ds) = split_base ds in
      if ds = [] \<or> \<not> underscores_ok pre ds then None
      else (case base_val base 0 ds of
              None \<Rightarrow> None
            | Some u \<Rightarrow>
                (if neg then (if u \<le> 2 ^ 63 then Some (- int u) else None)
                 else (if u < 2 ^ 63 then Some (int u) else None))))"

datatype flag_kind = Str_flag | Int_flag

datatype flag_value = FStr string | FInt int

definition set_flag :: "flag_kind \<Rightarrow> string \<Rightarrow> flag_value option" where
  "set_flag k v = (case k of Str_flag \<Rightarrow> Some (FStr v) | Int_flag \<Rightarrow> map_option FInt (parse_int0 v))"

text \<open>
  \<open>fs.Parse\<close> for flags that all take a value: the values set, or \<open>None\<close> for an error. It
  stops at the first argument that is not a flag and after \<open>--\<close>.
\<close>

fun parse_flags ::
  "(string \<Rightarrow> flag_kind option) \<Rightarrow> string list \<Rightarrow> (string \<times> flag_value) list \<Rightarrow>
     (string \<times> flag_value) list option" where
  "parse_flags kind [] m = Some m"
| "parse_flags kind (s # args) m =
     (if length s < 2 \<or> hd s \<noteq> CHR ''-'' then Some m
      else if s = ''--'' then Some m
      else
        let body = (if s ! 1 = CHR ''-'' then drop 2 s else drop 1 s) in
        if body = [] \<or> hd body = CHR ''-'' \<or> hd body = CHR ''='' then None
        else
          (case index_byte (CHR ''='') body of
             Some i \<Rightarrow>
               (case kind (take i body) of
                  None \<Rightarrow> None
                | Some k \<Rightarrow>
                    (case set_flag k (drop (Suc i) body) of
                       None \<Rightarrow> None
                     | Some v \<Rightarrow> parse_flags kind args (put (take i body) v m)))
           | None \<Rightarrow>
               (case kind body of
                  None \<Rightarrow> None
                | Some k \<Rightarrow>
                    (case args of
                       [] \<Rightarrow> None
                     | a # args' \<Rightarrow>
                         (case set_flag k a of
                            None \<Rightarrow> None
                          | Some v \<Rightarrow> parse_flags kind args' (put body v m))))))"

definition flag_str :: "(string \<times> flag_value) list \<Rightarrow> string \<Rightarrow> string \<Rightarrow> string" where
  "flag_str m name d = (case get m name of Some (FStr v) \<Rightarrow> v | _ \<Rightarrow> d)"

definition flag_int :: "(string \<times> flag_value) list \<Rightarrow> string \<Rightarrow> int \<Rightarrow> int" where
  "flag_int m name d = (case get m name of Some (FInt v) \<Rightarrow> v | _ \<Rightarrow> d)"

definition flag_table :: "(string \<times> flag_kind) list" where
  "flag_table =
     [(''host'', Str_flag),
      (''ssh-port'', Int_flag),
      (''user'', Str_flag),
      (''key'', Str_flag),
      (''forwards'', Str_flag),
      (''alive-interval'', Int_flag),
      (''alive-count'', Int_flag),
      (''ssh-opts'', Str_flag),
      (''host-key'', Str_flag),
      (''ssh-impl'', Str_flag),
      (''ssh-command'', Str_flag),
      (''stats-addr'', Str_flag),
      (''stats-forward'', Int_flag),
      (''speedtest-listen'', Str_flag),
      (''speedtest-forward'', Int_flag),
      (''speedtest-addr'', Str_flag),
      (''speedtest-bytes'', Int_flag),
      (''server-ssh-addr'', Str_flag),
      (''server-host-key'', Str_flag),
      (''server-authorized-keys'', Str_flag),
      (''server-monitor-addr'', Str_flag)]"

definition applyFlags :: "string list \<Rightarrow> config \<Rightarrow> config" where
  "applyFlags args c =
     (case parse_flags (get flag_table) args [] of
        None \<Rightarrow> c
      | Some m \<Rightarrow> c\<lparr>
          Host := flag_str m ''host'' (Host c),
          SSHPort := flag_int m ''ssh-port'' (SSHPort c),
          User := flag_str m ''user'' (User c),
          KeyFile := flag_str m ''key'' (KeyFile c),
          Forwards := (let v = flag_str m ''forwards'' (join '','' (Forwards c)) in
             if v \<noteq> [] then splitList v else Forwards c),
          ServerAliveInterval := flag_int m ''alive-interval'' (ServerAliveInterval c),
          ServerAliveCountMax := flag_int m ''alive-count'' (ServerAliveCountMax c),
          ExtraSSHOpts := flag_str m ''ssh-opts'' (ExtraSSHOpts c),
          HostKey := flag_str m ''host-key'' (HostKey c),
          SSHImpl := flag_str m ''ssh-impl'' (SSHImpl c),
          SSHCommand := flag_str m ''ssh-command'' (SSHCommand c),
          StatsAddr := flag_str m ''stats-addr'' (StatsAddr c),
          StatsForwardPort := flag_int m ''stats-forward'' (StatsForwardPort c),
          SpeedtestListen := flag_str m ''speedtest-listen'' (SpeedtestListen c),
          SpeedtestForwardPort := flag_int m ''speedtest-forward'' (SpeedtestForwardPort c),
          SpeedtestAddr := flag_str m ''speedtest-addr'' (SpeedtestAddr c),
          SpeedtestBytes := flag_int m ''speedtest-bytes'' (SpeedtestBytes c),
          ServerSSHAddr := flag_str m ''server-ssh-addr'' (ServerSSHAddr c),
          ServerHostKey := flag_str m ''server-host-key'' (ServerHostKey c),
          ServerAuthorizedKeys := flag_str m ''server-authorized-keys'' (ServerAuthorizedKeys c),
          ServerMonitorAddr := flag_str m ''server-monitor-addr'' (ServerMonitorAddr c)\<rparr>)"

definition Load :: "ha_options option \<Rightarrow> (string \<Rightarrow> string) \<Rightarrow> string list \<Rightarrow> config" where
  "Load file env args = applyFlags args (applyEnv env (applyOptionsFile file defaults))"

section \<open>Lists of forwards\<close>

lemma trim_space_result: "trim_space s = [] \<or> (\<not> is_space (hd (trim_space s)) \<and> \<not> is_space (last (trim_space s)))"
proof (cases "trim_space s = []")
  case False
  define l r where "l = dropWhile is_space s" and "r = dropWhile is_space (rev l)"
  then have t: "trim_space s = rev r" by (simp add: trim_space_def trim_left_def trim_right_def)
  with False have r: "r \<noteq> []" by simp
  then have "\<not> is_space (last (rev r))" unfolding r_def using hd_dropWhile [of is_space "rev l"]
    by (simp add: last_rev)
  moreover obtain ys where "rev l = ys @ r" unfolding r_def by (metis takeWhile_dropWhile_id)
  then have l: "l = rev r @ rev ys" by (metis rev_append rev_rev_ident)
  then have "hd l = hd (rev r)" "l \<noteq> []" using r by simp_all
  then have "\<not> is_space (hd (rev r))" using hd_dropWhile [of is_space s] unfolding l_def by simp
  ultimately show ?thesis using t by simp
qed simp

lemma trim_space_idem [simp]: "trim_space (trim_space s) = trim_space s"
  using trim_space_result by (rule trim_space_ends)

lemma set_trim_space: "set (trim_space s) \<subseteq> set s"
  by (auto simp: trim_space_def trim_left_def trim_right_def dest!: set_dropWhileD)

definition forward_ok :: "string \<Rightarrow> bool" where
  "forward_ok f \<longleftrightarrow> f \<noteq> [] \<and> trim_space f = f \<and> CHR '','' \<notin> set f"

lemma splitList_ok: "f \<in> set (splitList v) \<Longrightarrow> forward_ok f"
  using set_trim_space split_on_sep_free by (fastforce simp: splitList_def forward_ok_def)

lemma splitList_join:
  assumes "fs \<noteq> []" and "\<forall>f \<in> set fs. forward_ok f"
  shows "splitList (join '','' fs) = fs"
proof -
  have "split_on (CHR '','') (join '','' fs) = fs"
    using assms by (intro split_on_join) (auto simp: forward_ok_def)
  moreover have "map trim_space fs = fs" using assms(2) by (intro map_idI) (simp add: forward_ok_def)
  moreover have "filter (\<lambda>p. p \<noteq> []) fs = fs" using assms(2) by (simp add: forward_ok_def)
  ultimately show ?thesis by (simp add: splitList_def)
qed

lemma join_nonempty: "fs \<noteq> [] \<Longrightarrow> \<forall>f \<in> set fs. f \<noteq> [] \<Longrightarrow> join sep fs \<noteq> []"
  by (induction fs rule: induct_list012) auto

lemma splitList_stable:
  "(let v = join '','' (splitList u) in if v \<noteq> [] then splitList v else splitList u) = splitList u"
proof (cases "splitList u = []")
  case False
  have "splitList (join '','' (splitList u)) = splitList u"
    using False by (rule splitList_join) (auto intro: splitList_ok)
  then show ?thesis by (simp add: Let_def)
qed simp

section \<open>Flags that are printed and parsed\<close>

definition show_flag :: "flag_value \<Rightarrow> string" where
  "show_flag v = (case v of FStr s \<Rightarrow> s | FInt i \<Rightarrow> itoa i)"

definition flag_args :: "(string \<times> flag_value) list \<Rightarrow> string list" where
  "flag_args vs = concat (map (\<lambda>(n, v). [''--'' @ n, show_flag v]) vs)"

definition int64 :: "int \<Rightarrow> bool" where
  "int64 i \<longleftrightarrow> - (2 ^ 63) \<le> i \<and> i < 2 ^ 63"

definition flag_ok :: "string \<times> flag_value \<Rightarrow> bool" where
  "flag_ok nv =
     (case nv of (n, FStr s) \<Rightarrow> get flag_table n = Some Str_flag
      | (n, FInt i) \<Rightarrow> get flag_table n = Some Int_flag \<and> int64 i)"

lemma base_digit_10: "base_digit 10 c = digit_val c"
  by (auto simp: base_digit_def digit_val_def Let_def)

lemma base_val_10: "CHR ''_'' \<notin> set s \<Longrightarrow> base_val 10 acc s = digits_val acc s"
  by (induction acc s rule: digits_val.induct) (auto simp: base_digit_10 split: option.splits)

lemma digit_char_plain: "d < 10 \<Longrightarrow> digit_char d \<noteq> CHR ''_''"
  using digit_char_code [of d] by auto

lemma show_nat_no_underscore: "CHR ''_'' \<notin> set (show_nat n)"
  using show_nat_digits digit_char_plain by metis

lemma underscores_none: "CHR ''_'' \<notin> set s \<Longrightarrow> underscores_ok b s"
  by (induction s arbitrary: b) auto

lemma show_nat_hd: "0 < n \<Longrightarrow> hd (show_nat n) \<noteq> CHR ''0''"
proof (induction n rule: show_nat.induct)
  case (1 n)
  show ?case
  proof (cases "n < 10")
    case True
    then have "of_char (hd (show_nat n)) = (48 + n :: nat)"
      by (simp add: show_nat.simps [of n] digit_char_code)
    with "1.prems" show ?thesis by auto
  next
    case False
    with "1.IH" have "hd (show_nat (n div 10)) \<noteq> CHR ''0''" by simp
    with False show ?thesis by (simp add: show_nat.simps [of n])
  qed
qed

lemma split_base_show_nat: "\<exists>b. split_base (show_nat n) = (10, b, show_nat n)"
proof (cases "n = 0")
  case True
  then show ?thesis
    by (intro exI [of _ False]) (simp add: show_nat.simps [of 0] split_base_def digit_char_def)
next
  case False
  then have "hd (show_nat n) \<noteq> CHR ''0''" by (simp add: show_nat_hd)
  then show ?thesis by (auto simp: split_base_def split: list.splits)
qed

lemma parse_int0_itoa:
  assumes "int64 i"
  shows "parse_int0 (itoa i) = Some i"
proof -
  have val: "base_val 10 0 (show_nat n) = Some n" "underscores_ok b (show_nat n)" for n b
    by (simp_all add: base_val_10 show_nat_no_underscore digits_val_show_nat underscores_none)
  show ?thesis
  proof (cases "i < 0")
    case True
    obtain b where "split_base (show_nat (nat (- i))) = (10, b, show_nat (nat (- i)))"
      using split_base_show_nat by blast
    with True assms val show ?thesis
      by (simp add: parse_int0_def itoa_def split_sign_neg int64_def nat_le_iff)
  next
    case False
    obtain b where "split_base (show_nat (nat i)) = (10, b, show_nat (nat i))"
      using split_base_show_nat by blast
    with False assms val show ?thesis
      by (simp add: parse_int0_def itoa_def split_sign_show_nat int64_def nat_less_iff)
  qed
qed

lemma set_flag_show:
  "flag_ok (n, v) \<Longrightarrow> \<exists>k. get flag_table n = Some k \<and> set_flag k (show_flag v) = Some v"
  by (cases v) (auto simp: flag_ok_def show_flag_def set_flag_def parse_int0_itoa)

lemma flag_names:
  "get flag_table n = Some k \<Longrightarrow> n \<noteq> [] \<and> hd n \<noteq> CHR ''-'' \<and> index_byte (CHR ''='') n = None \<and> hd n \<noteq> CHR ''=''"
  by (auto simp: flag_table_def split: if_splits)

lemma parse_flag_args:
  "\<forall>nv \<in> set vs. flag_ok nv \<Longrightarrow>
     parse_flags (get flag_table) (flag_args vs) m = Some (foldl (\<lambda>m (n, v). put n v m) m vs)"
proof (induction vs arbitrary: m)
  case (Cons nv vs)
  obtain n v where nv: "nv = (n, v)" by (cases nv)
  with Cons.prems obtain k where k: "get flag_table n = Some k" "set_flag k (show_flag v) = Some v"
    using set_flag_show [of n v] by auto
  have "flag_args (nv # vs) = (''--'' @ n) # show_flag v # flag_args vs"
    by (simp add: flag_args_def nv)
  with k flag_names [OF k(1)] Cons show ?case by (simp add: nv)
qed (simp add: flag_args_def)

text \<open>The command line that states a whole configuration.\<close>

definition flag_values :: "config \<Rightarrow> (string \<times> flag_value) list" where
  "flag_values c =
     [(''host'', FStr (Host c)),
      (''ssh-port'', FInt (SSHPort c)),
      (''user'', FStr (User c)),
      (''key'', FStr (KeyFile c)),
      (''forwards'', FStr (join '','' (Forwards c))),
      (''alive-interval'', FInt (ServerAliveInterval c)),
      (''alive-count'', FInt (ServerAliveCountMax c)),
      (''ssh-opts'', FStr (ExtraSSHOpts c)),
      (''host-key'', FStr (HostKey c)),
      (''ssh-impl'', FStr (SSHImpl c)),
      (''ssh-command'', FStr (SSHCommand c)),
      (''stats-addr'', FStr (StatsAddr c)),
      (''stats-forward'', FInt (StatsForwardPort c)),
      (''speedtest-listen'', FStr (SpeedtestListen c)),
      (''speedtest-forward'', FInt (SpeedtestForwardPort c)),
      (''speedtest-addr'', FStr (SpeedtestAddr c)),
      (''speedtest-bytes'', FInt (SpeedtestBytes c)),
      (''server-ssh-addr'', FStr (ServerSSHAddr c)),
      (''server-host-key'', FStr (ServerHostKey c)),
      (''server-authorized-keys'', FStr (ServerAuthorizedKeys c)),
      (''server-monitor-addr'', FStr (ServerMonitorAddr c))]"

section \<open>Properties\<close>

lemma applyFlags_all:
  assumes "\<forall>nv \<in> set (flag_values c). flag_ok nv" and "Forwards c \<noteq> []"
    and "\<forall>f \<in> set (Forwards c). forward_ok f"
  shows "flag_values (applyFlags (flag_args (flag_values c)) d) = flag_values c"
proof -
  have p: "parse_flags (get flag_table) (flag_args (flag_values c)) []
      = Some (foldl (\<lambda>m (n, v). put n v m) [] (flag_values c))"
    by (rule parse_flag_args [OF assms(1)])
  have f: "splitList (join '','' (Forwards c)) = Forwards c"
    by (rule splitList_join [OF assms(2,3)])
  have "join '','' (Forwards c) \<noteq> []"
    using assms(2,3) by (intro join_nonempty) (auto simp: forward_ok_def)
  with p f show ?thesis
    by (simp add: applyFlags_def flag_values_def flag_str_def flag_int_def Let_def)
qed

text \<open>
  C30. The command line has the last word and says all it can. Printing any configuration
  (numbers of 64 bits, a non-empty list of clean forwards) as flags and loading those, over
  any options file and any environment, gives back every field that has a flag.
\<close>

theorem flags_have_the_last_word:
  assumes "\<forall>nv \<in> set (flag_values c). flag_ok nv" and "Forwards c \<noteq> []"
    and "\<forall>f \<in> set (Forwards c). forward_ok f"
  shows "flag_values (Load file env (flag_args (flag_values c))) = flag_values c"
  unfolding Load_def by (rule applyFlags_all [OF assms])

lemma flag_values_port: "get (flag_values d) ''ssh-port'' = Some (FInt (SSHPort d))"
  by (simp add: flag_values_def)

theorem flags_have_the_last_word_witness:
  "SSHPort (Load None (\<lambda>v. if v = ''TK_SSH_PORT'' then ''23'' else [])
     (flag_args (flag_values (defaults\<lparr>SSHPort := 2022, Forwards := [''8060:localhost:80'']\<rparr>)))) = 2022"
proof -
  let ?c = "defaults\<lparr>SSHPort := 2022, Forwards := [''8060:localhost:80'']\<rparr>"
  let ?d = "Load None (\<lambda>v. if v = ''TK_SSH_PORT'' then ''23'' else []) (flag_args (flag_values ?c))"
  have "flag_values ?d = flag_values ?c"
    by (rule flags_have_the_last_word)
      (simp_all add: flag_values_def defaults_def flag_ok_def flag_table_def int64_def forward_ok_def
        trim_space_def trim_left_def trim_right_def is_space_def)
  then have "Some (FInt (SSHPort ?d)) = Some (FInt (SSHPort ?c))"
    using flag_values_port [of ?d] flag_values_port [of ?c] by simp
  then show ?thesis by simp
qed

text \<open>
  Flags that are not given disturb nothing: the list of forwards goes through the flag's
  default as one comma-separated string and back, and any list that came from the
  environment or an earlier flag survives that, with every other field.
\<close>

lemma absent_flags_keep_config:
  "applyFlags [] (c\<lparr>Forwards := splitList v\<rparr>) = c\<lparr>Forwards := splitList v\<rparr>"
  using splitList_stable [of v] by (simp add: applyFlags_def flag_str_def flag_int_def Let_def split: if_splits)

text \<open>
  The list of the options file is not cleaned when it amounts to an empty string: an
  add-on whose only forward is an empty entry keeps it, as it does not when there are two.
\<close>

lemma empty_forward_survives:
  "Forwards (applyFlags [] (c\<lparr>Forwards := [[]]\<rparr>)) = [[]]
   \<and> Forwards (applyFlags [] (c\<lparr>Forwards := [[], []]\<rparr>)) = []"
  by (simp_all add: applyFlags_def flag_str_def splitList_def trim_space_def trim_left_def
      trim_right_def)

text \<open>
  The heartbeat interval is multiplied by a second in 64 bits without a bound: from
  9223372037 seconds on it can come out negative, or as here as a third of a second.
\<close>

lemma heartbeat_interval_wraps:
  "HeartbeatInterval (applyEnv (\<lambda>v. if v = ''TK_UDP_INTERVAL'' then ''18446744074'' else []) c)
     = 290448384"
  by (simp add: applyEnv_def mul_second_def atoi_def parse_int_def split_sign_def digit_val_def
      go_simps)

end
