(* ===== verification/Sha256.thy ===== *)
theory Sha256
  imports Prelude
begin

text \<open>
  The parts of Go's standard library that \<open>heartbeat/packet.go\<close> and
  \<open>client/hostkey.go\<close> rely on: SHA-256 (FIPS 180-4) and HMAC (RFC 2104) over it, on
  byte lists. The definitions compute; the correctness lemmas of the packet codec only use
  the length of a tag.
\<close>

unbundle bit_operations_syntax

section \<open>SHA-256\<close>

text \<open>
  The constants of the standard are the leading fractional bits of the cube and square roots
  of the first primes, computed here as integer roots by fixing one bit at a time.
\<close>

fun int_root :: "nat \<Rightarrow> int \<Rightarrow> nat \<Rightarrow> int \<Rightarrow> int" where
  "int_root k n 0 acc = acc"
| "int_root k n (Suc b) acc = int_root k n b (if (acc + 2 ^ b) ^ k \<le> n then acc + 2 ^ b else acc)"

definition small_primes :: "int list" where
  "small_primes = filter (\<lambda>p. list_all (\<lambda>d. p mod d \<noteq> 0) [2..p - 1]) [2..311]"

definition sha_k :: "u32 list" where
  "sha_k = map (\<lambda>p. word_of_int (int_root 3 (p * 2 ^ 96) 40 0)) small_primes"

definition sha_h0 :: "u32 list" where
  "sha_h0 = map (\<lambda>p. word_of_int (int_root 2 (p * 2 ^ 64) 40 0)) (take 8 small_primes)"

definition rotr :: "nat \<Rightarrow> u32 \<Rightarrow> u32" where
  "rotr n w = drop_bit n w OR push_bit (32 - n) w"

definition small_sigma0 :: "u32 \<Rightarrow> u32" where
  "small_sigma0 x = rotr 7 x XOR rotr 18 x XOR drop_bit 3 x"

definition small_sigma1 :: "u32 \<Rightarrow> u32" where
  "small_sigma1 x = rotr 17 x XOR rotr 19 x XOR drop_bit 10 x"

definition big_sigma0 :: "u32 \<Rightarrow> u32" where
  "big_sigma0 x = rotr 2 x XOR rotr 13 x XOR rotr 22 x"

definition big_sigma1 :: "u32 \<Rightarrow> u32" where
  "big_sigma1 x = rotr 6 x XOR rotr 11 x XOR rotr 25 x"

definition sha_ch :: "u32 \<Rightarrow> u32 \<Rightarrow> u32 \<Rightarrow> u32" where
  "sha_ch x y z = (x AND y) XOR (NOT x AND z)"

definition sha_maj :: "u32 \<Rightarrow> u32 \<Rightarrow> u32 \<Rightarrow> u32" where
  "sha_maj x y z = (x AND y) XOR (x AND z) XOR (y AND z)"

text \<open>
  The message schedule, newest word first: each new word depends on those 2, 7, 15 and 16
  places back.
\<close>

fun sha_extend :: "nat \<Rightarrow> u32 list \<Rightarrow> u32 list" where
  "sha_extend 0 ws = ws"
| "sha_extend (Suc n) ws =
     sha_extend n
       ((small_sigma1 (ws ! 1) + ws ! 6 + small_sigma0 (ws ! 14) + ws ! 15) # ws)"

definition sha_schedule :: "u32 list \<Rightarrow> u32 list" where
  "sha_schedule block = rev (sha_extend 48 (rev block))"

datatype sha_state = Sha u32 u32 u32 u32 u32 u32 u32 u32

fun sha_round :: "u32 \<times> u32 \<Rightarrow> sha_state \<Rightarrow> sha_state" where
  "sha_round (k, w) (Sha a b c d e f g h) =
     (let t1 = h + big_sigma1 e + sha_ch e f g + k + w;
          t2 = big_sigma0 a + sha_maj a b c
      in Sha (t1 + t2) a b c (d + t1) e f g)"

fun sha_add :: "sha_state \<Rightarrow> sha_state \<Rightarrow> sha_state" where
  "sha_add (Sha a b c d e f g h) (Sha a' b' c' d' e' f' g' h') =
     Sha (a + a') (b + b') (c + c') (d + d') (e + e') (f + f') (g + g') (h + h')"

definition sha_block :: "sha_state \<Rightarrow> u32 list \<Rightarrow> sha_state" where
  "sha_block st block = sha_add st (fold sha_round (zip sha_k (sha_schedule block)) st)"

section \<open>Bytes and words, big endian\<close>

fun put_be :: "nat \<Rightarrow> 'w::len word \<Rightarrow> byte list" where
  "put_be 0 w = []"
| "put_be (Suc n) w = ucast (drop_bit (8 * n) w) # put_be n w"

definition get_be :: "byte list \<Rightarrow> 'w::len word" where
  "get_be bs = foldl (\<lambda>acc b. push_bit 8 acc OR ucast b) 0 bs"

lemma length_put_be [simp]: "length (put_be n w) = n"
  by (induction n) auto

text \<open>Whole blocks of \<open>n\<close> elements; a shorter rest is dropped (there is none after padding).\<close>

function chunks :: "nat \<Rightarrow> 'a list \<Rightarrow> 'a list list" where
  "chunks n xs =
     (if n = 0 \<or> length xs < n then [] else take n xs # chunks n (drop n xs))"
  by pat_completeness auto
termination
  by (relation "measure (\<lambda>(n, xs). length xs)") auto

declare chunks.simps [simp del]

definition sha_pad :: "byte list \<Rightarrow> byte list" where
  "sha_pad m =
     (let n = length m; z = (119 - n mod 64) mod 64
      in m @ [0x80] @ replicate z 0 @ put_be 8 (word_of_nat (8 * n) :: u64))"

fun sha_words :: "sha_state \<Rightarrow> u32 list" where
  "sha_words (Sha a b c d e f g h) = [a, b, c, d, e, f, g, h]"

definition sha_init :: sha_state where
  "sha_init =
     Sha (sha_h0 ! 0) (sha_h0 ! 1) (sha_h0 ! 2) (sha_h0 ! 3)
         (sha_h0 ! 4) (sha_h0 ! 5) (sha_h0 ! 6) (sha_h0 ! 7)"

definition sha256 :: "byte list \<Rightarrow> byte list" where
  "sha256 m =
     concat (map (put_be 4)
       (sha_words (foldl (\<lambda>st b. sha_block st (map get_be (chunks 4 b))) sha_init
          (chunks 64 (sha_pad m)))))"

lemma length_sha256 [simp]: "length (sha256 m) = 32"
proof -
  have "length (concat (map (put_be 4) (sha_words st))) = 32" for st
    by (cases st) simp
  then show ?thesis by (simp add: sha256_def)
qed

section \<open>HMAC\<close>

definition hmac_key :: "byte list \<Rightarrow> byte list" where
  "hmac_key key =
     (let k = (if 64 < length key then sha256 key else key) in k @ replicate (64 - length k) 0)"

definition hmac_sha256 :: "byte list \<Rightarrow> byte list \<Rightarrow> byte list" where
  "hmac_sha256 key msg =
     (let k = hmac_key key
      in sha256 (map (\<lambda>b. b XOR 0x5c) k @ sha256 (map (\<lambda>b. b XOR 0x36) k @ msg)))"

lemma length_hmac_sha256 [simp]: "length (hmac_sha256 key msg) = 32"
  by (simp add: hmac_sha256_def Let_def)

section \<open>Big-endian round trips\<close>

lemma get_be_snoc: "get_be (bs @ [b]) = push_bit 8 (get_be bs) OR ucast b"
  by (simp add: get_be_def)

lemma put_be_snoc: "put_be (Suc n) w = put_be n (drop_bit 8 w) @ [ucast w]"
proof (induction n)
  case (Suc n)
  then show ?case by (simp add: drop_bit_drop_bit add.commute)
qed simp

lemma ucast_low_byte: "(ucast (ucast w :: byte) :: 'w::len word) = take_bit 8 w"
  by (rule bit_word_eqI) (auto simp: bit_simps)

lemma get_be_put_be:
  fixes w :: "'w::len word"
  shows "get_be (put_be n w) = take_bit (8 * n) w"
proof (induction n arbitrary: w)
  case 0
  then show ?case by (simp add: get_be_def)
next
  case (Suc n)
  have "get_be (put_be (Suc n) w) = push_bit 8 (get_be (put_be n (drop_bit 8 w))) OR ucast (ucast w :: byte)"
    by (simp only: put_be_snoc get_be_snoc)
  also have "\<dots> = push_bit 8 (take_bit (8 * n) (drop_bit 8 w)) OR take_bit 8 w"
    by (simp add: Suc.IH ucast_low_byte)
  also have "\<dots> = take_bit (8 * Suc n) w"
    by (rule bit_word_eqI) (auto simp: bit_simps)
  finally show ?case .
qed

lemma get_be_put_be_full:
  fixes w :: "'w::len word"
  shows "LENGTH('w) = 8 * n \<Longrightarrow> get_be (put_be n w) = w"
  by (simp add: get_be_put_be take_bit_word_eq_self)

lemma put_be_cong:
  fixes x y :: "'w::len word"
  shows "(\<And>i. i < 8 * n \<Longrightarrow> bit x i = bit y i) \<Longrightarrow> put_be n x = put_be n y"
proof (induction n)
  case (Suc n)
  have "ucast (drop_bit (8 * n) x) = (ucast (drop_bit (8 * n) y) :: byte)"
    using Suc.prems by (intro bit_word_eqI) (auto simp: bit_simps)
  moreover have "put_be n x = put_be n y" using Suc by simp
  ultimately show ?case by simp
qed simp

lemma put_be_get_be:
  "8 * length bs \<le> LENGTH('w::len) \<Longrightarrow> put_be (length bs) (get_be bs :: 'w word) = bs"
proof (induction bs rule: rev_induct)
  case Nil
  then show ?case by simp
next
  case (snoc b bs)
  let ?g = "get_be bs :: 'w word"
  let ?w = "push_bit 8 ?g OR ucast b"
  have low: "ucast ?w = b"
    using snoc.prems by (intro bit_word_eqI) (auto simp: bit_simps)
  have "put_be (length bs) (drop_bit 8 ?w) = put_be (length bs) ?g"
    using snoc.prems by (intro put_be_cong) (auto simp: bit_simps dest: bit_imp_le_length)
  also have "\<dots> = bs" using snoc by simp
  finally have "put_be (Suc (length bs)) ?w = bs @ [b]"
    by (simp only: put_be_snoc low)
  then show ?case by (simp only: get_be_snoc length_append_singleton)
qed

end
