(* ===== verification/Host_Key.thy ===== *)
theory Host_Key
  imports Sha256
begin

text \<open>
  Pinning the server, \<open>internal/client/hostkey.go\<close>: parsing and fingerprinting a public key
  line, the \<open>known_hosts\<close> line made of it, and the private directory it is written to.
  Base64 is modelled as in \<open>encoding/base64\<close> (\<open>StdEncoding\<close> for decoding, which drops line
  breaks; \<open>RawStdEncoding\<close> for the fingerprint). The width of \<open>int\<close> is an argument: the
  client also runs on 32-bit routers.
\<close>

section \<open>Base64\<close>

definition b64_char :: "nat \<Rightarrow> char" where
  "b64_char n =
     (if n < 26 then char_of (65 + n) else if n < 52 then char_of (71 + n)
      else if n < 62 then char_of (n - 4) else if n = 62 then CHR ''+'' else CHR ''/'')"

definition b64_val :: "char \<Rightarrow> nat option" where
  "b64_val c =
     (let n = (of_char c :: nat) in
      if 65 \<le> n \<and> n \<le> 90 then Some (n - 65) else if 97 \<le> n \<and> n \<le> 122 then Some (n - 71)
      else if 48 \<le> n \<and> n \<le> 57 then Some (n + 4) else if n = 43 then Some 62
      else if n = 47 then Some 63 else None)"

text \<open>Groups of three bytes and of four characters, as numbers.\<close>

fun b64_encode :: "bool \<Rightarrow> nat list \<Rightarrow> string" where
  "b64_encode pad [] = []"
| "b64_encode pad [a] =
     [b64_char (a div 4), b64_char (a mod 4 * 16)] @ (if pad then ''=='' else [])"
| "b64_encode pad [a, b] =
     [b64_char (a div 4), b64_char (a mod 4 * 16 + b div 16), b64_char (b mod 16 * 4)]
       @ (if pad then ''='' else [])"
| "b64_encode pad (a # b # c # bs) =
     [b64_char (a div 4), b64_char (a mod 4 * 16 + b div 16), b64_char (b mod 16 * 4 + c div 64),
      b64_char (c mod 64)] @ b64_encode pad bs"

fun b64_groups :: "string \<Rightarrow> nat list option" where
  "b64_groups [] = Some []"
| "b64_groups (w # x # y # z # cs) =
     (case (b64_val w, b64_val x) of
        (Some i, Some j) \<Rightarrow>
          (if y = CHR ''='' then
             (if z = CHR ''='' \<and> cs = [] then Some [i * 4 + j div 16] else None)
           else (case b64_val y of
                   None \<Rightarrow> None
                 | Some k \<Rightarrow>
                     (if z = CHR ''='' then
                        (if cs = [] then Some [i * 4 + j div 16, j mod 16 * 16 + k div 4] else None)
                      else (case (b64_val z, b64_groups cs) of
                              (Some l, Some bs) \<Rightarrow>
                                Some ([i * 4 + j div 16, j mod 16 * 16 + k div 4, k mod 4 * 64 + l] @ bs)
                            | _ \<Rightarrow> None))))
      | _ \<Rightarrow> None)"
| "b64_groups _ = None"

definition b64_decode :: "string \<Rightarrow> byte list option" where
  "b64_decode s =
     map_option (map word_of_nat) (b64_groups (filter (\<lambda>c. c \<notin> {CHR 0x0A, CHR 0x0D}) s))"

definition b64_raw :: "byte list \<Rightarrow> string" where
  "b64_raw bs = b64_encode False (map unat bs)"

definition b64_std :: "byte list \<Rightarrow> string" where
  "b64_std bs = b64_encode True (map unat bs)"

section \<open>The key line\<close>

record host_key =
  hk_typ :: string
  hk_b64 :: string
  hk_hash :: string

datatype hk_error = Few_fields nat | Bad_base64 | Too_short | Type_mismatch string

text \<open>Signed integers of \<open>W\<close> bits.\<close>

definition wrap_int :: "nat \<Rightarrow> int \<Rightarrow> int" where
  "wrap_int W i = (let m = i mod 2 ^ W in if m < 2 ^ (W - 1) then m else m - 2 ^ W)"

text \<open>\<open>blob[lo:hi]\<close>; \<open>None\<close> is the panic.\<close>

definition slice :: "'a list \<Rightarrow> int \<Rightarrow> int \<Rightarrow> 'a list option" where
  "slice xs lo hi =
     (if 0 \<le> lo \<and> lo \<le> hi \<and> hi \<le> int (length xs)
      then Some (take (nat (hi - lo)) (drop (nat lo) xs)) else None)"

definition parseHostKey :: "nat \<Rightarrow> string \<Rightarrow> (hk_error + host_key) option" where
  "parseHostKey W line =
     (let f = Fields line in
      if length f < 2 then Some (Inl (Few_fields (length f)))
      else (case b64_decode (f ! 1) of
              None \<Rightarrow> Some (Inl Bad_base64)
            | Some blob \<Rightarrow>
                (if length blob < 4 then Some (Inl Too_short)
                 else
                   let n = wrap_int W (uint (get_be (take 4 blob) :: u32)) in
                   if n \<le> 0 \<or> int (length blob) < wrap_int W (4 + n)
                   then Some (Inl (Type_mismatch (f ! 0)))
                   else (case slice blob 4 (wrap_int W (4 + n)) of
                           None \<Rightarrow> None
                         | Some t \<Rightarrow>
                             (if map char_of_byte t \<noteq> f ! 0 then Some (Inl (Type_mismatch (f ! 0)))
                              else Some (Inr \<lparr>hk_typ = f ! 0, hk_b64 = f ! 1,
                                              hk_hash = ''SHA256:'' @ b64_raw (sha256 blob)\<rparr>))))))"

definition knownHostsEntries :: "host_key \<Rightarrow> string \<Rightarrow> int \<Rightarrow> bool \<Rightarrow> string" where
  "knownHostsEntries k host port bare =
     (let pat = (if port \<noteq> 22 \<and> \<not> bare then ''['' @ host @ '']:'' @ itoa port else host)
      in pat @ '' '' @ hk_typ k @ '' '' @ hk_b64 k @ [CHR 0x0A])"

text \<open>
  What \<open>writeKnownHosts\<close> asks of the file system, in order; \<open>tmp\<close> is the directory that
  \<open>MkdirTemp\<close> made (or its failure), and the flags say whether the next two calls succeed.
\<close>

datatype fs_op = Mkdir string | Write_file string string | Remove_all string

definition writeKnownHosts ::
  "string option \<Rightarrow> bool \<Rightarrow> bool \<Rightarrow> host_key \<Rightarrow> string \<Rightarrow> int \<Rightarrow> bool \<Rightarrow>
     (string \<times> string) option \<times> fs_op list" where
  "writeKnownHosts tmp mkdir_ok write_ok k host port bare =
     (case tmp of
        None \<Rightarrow> (None, [])
      | Some dir \<Rightarrow>
          (let sshDir = dir @ ''/.ssh''; path = sshDir @ ''/known_hosts'';
               ops = [Mkdir sshDir] in
           if \<not> mkdir_ok then (None, ops @ [Remove_all dir])
           else
             let ops = ops @ [Write_file path (knownHostsEntries k host port bare)] in
             if \<not> write_ok then (None, ops @ [Remove_all dir]) else (Some (dir, path), ops)))"

section \<open>Lemmas on base64\<close>

lemma b64_char_val: "n < 64 \<Longrightarrow> b64_val (b64_char n) = Some n"
  by (auto simp: b64_char_def b64_val_def Let_def)

lemma b64_char_plain: "n < 64 \<Longrightarrow> b64_char n \<noteq> CHR ''='' \<and> \<not> is_space (b64_char n)"
proof -
  assume n: "n < 64"
  have eq: "b64_val (CHR ''='') = None" by (simp add: b64_val_def)
  have sp: "b64_val c = None" if "is_space c" for c
    using that by (auto simp: is_space_def b64_val_def Let_def)
  from b64_char_val [OF n] eq sp show ?thesis by fastforce
qed

lemma div_mod_16: "y < 16 \<Longrightarrow> (x * 16 + y) div 16 = x \<and> (x * 16 + y) mod 16 = (y::nat)"
  by simp

lemma div_mod_4: "y < 4 \<Longrightarrow> (x * 4 + y) div 4 = x \<and> (x * 4 + y) mod 4 = (y::nat)"
  by simp

lemma b64_groups_encode:
  "\<forall>n \<in> set ns. n < 256 \<Longrightarrow> b64_groups (b64_encode True ns) = Some ns"
proof (induction "True" ns rule: b64_encode.induct)
  case (2 a)
  then have "a div 4 < 64" "a mod 4 * 16 < 64" by auto
  then show ?case by (simp add: b64_char_val)
next
  case (3 a b)
  then have "a div 4 < 64" "a mod 4 * 16 + b div 16 < 64" "b mod 16 * 4 < 64" "b div 16 < 16" by auto
  then show ?case by (simp add: b64_char_val b64_char_plain div_mod_16)
next
  case (4 a b c bs)
  then have "a div 4 < 64" "a mod 4 * 16 + b div 16 < 64" "b mod 16 * 4 + c div 64 < 64"
    "c mod 64 < 64" "b div 16 < 16" "c div 64 < 4" by auto
  with 4 show ?case by (simp add: b64_char_val b64_char_plain div_mod_16 div_mod_4)
qed simp

lemma b64_encode_no_space: "\<forall>n \<in> set ns. n < 256 \<Longrightarrow> c \<in> set (b64_encode pad ns) \<Longrightarrow> \<not> is_space c"
proof (induction pad ns rule: b64_encode.induct)
  case (2 pad a)
  then have "a div 4 < 64" "a mod 4 * 16 < 64" by auto
  with 2 show ?case using b64_char_plain by (auto simp: is_space_def split: if_splits)
next
  case (3 pad a b)
  then have "a div 4 < 64" "a mod 4 * 16 + b div 16 < 64" "b mod 16 * 4 < 64" by auto
  with 3 show ?case using b64_char_plain by (auto simp: is_space_def split: if_splits)
next
  case (4 pad a b d bs)
  then have "a div 4 < 64" "a mod 4 * 16 + b div 16 < 64" "b mod 16 * 4 + d div 64 < 64" "d mod 64 < 64"
    by auto
  with 4 show ?case using b64_char_plain by auto
qed simp

lemma unat_byte: "unat (b :: byte) < 256"
  using unsigned_less [of b] by simp

lemma b64_decode_std: "b64_decode (b64_std bs) = Some bs"
proof -
  let ?ns = "map unat bs"
  have small: "\<forall>n \<in> set ?ns. n < 256" by (auto simp: unat_byte)
  have "filter (\<lambda>c. c \<notin> {CHR 0x0A, CHR 0x0D}) (b64_std bs) = b64_std bs"
  proof (rule filter_True, rule ballI)
    fix c assume "c \<in> set (b64_std bs)"
    then have "\<not> is_space c" unfolding b64_std_def by (rule b64_encode_no_space [OF small])
    then show "c \<notin> {CHR 0x0A, CHR 0x0D}" by (auto simp: is_space_def)
  qed
  then show ?thesis
    using b64_groups_encode [OF small] by (simp add: b64_decode_def b64_std_def o_def)
qed

lemma b64_std_no_space: "c \<in> set (b64_std bs) \<Longrightarrow> \<not> is_space c"
  unfolding b64_std_def by (rule b64_encode_no_space) (auto simp: unat_byte)

section \<open>Lemmas on slices\<close>

lemma wrap_int_small: "0 \<le> i \<Longrightarrow> i < 2 ^ (W - 1) \<Longrightarrow> 0 < W \<Longrightarrow> wrap_int W i = i"
  by (cases W) (auto simp: wrap_int_def)

section \<open>Properties\<close>

text \<open>
  C38. A key line in the usual form is accepted and fingerprinted as OpenSSH prints it: the
  type, a space, the base64 of a blob that starts with that type as an SSH string, and
  optionally a space and a comment; on 64-bit and on 32-bit machines.
\<close>

theorem parseHostKey_of_printed:
  assumes "W = 32 \<or> W = 64" and "typ \<noteq> []" and "\<forall>c \<in> set typ. \<not> is_space c"
    and "length typ < 2 ^ 30" and "comment = [] \<or> is_space (hd comment)"
    and "blob = put_be 4 (word_of_nat (length typ) :: u32) @ map byte_of_char typ @ key"
  shows "parseHostKey W (typ @ '' '' @ b64_std blob @ comment) =
    Some (Inr \<lparr>hk_typ = typ, hk_b64 = b64_std blob, hk_hash = ''SHA256:'' @ b64_raw (sha256 blob)\<rparr>)"
proof -
  have ne: "b64_std blob \<noteq> []"
  proof
    assume "b64_std blob = []"
    then have "b64_decode (b64_std blob) = Some []" by (simp add: b64_decode_def)
    then have "blob = []" by (simp add: b64_decode_std)
    then have "length blob = 0" by simp
    then show False by (simp add: assms(6))
  qed
  have "Fields (b64_std blob @ comment) = b64_std blob # Fields comment"
    using ne b64_std_no_space assms(5) by (intro fields_cons) auto
  then have f: "Fields (typ @ '' '' @ b64_std blob @ comment) = typ # b64_std blob # Fields comment"
    using assms(2,3) by (subst fields_cons) (auto simp: fields_space is_space_def)
  have "uint (get_be (take 4 blob) :: u32) = int (length typ)"
    using assms(4) by (simp add: assms(6) get_be_put_be_full uint_nat unat_of_nat)
  moreover have "wrap_int W (int (length typ)) = int (length typ)"
    "wrap_int W (4 + int (length typ)) = 4 + int (length typ)"
    using assms(1,4) by (auto intro!: wrap_int_small)
  moreover have "slice blob 4 (4 + int (length typ)) = Some (map byte_of_char typ)"
    by (simp add: slice_def assms(6))
  moreover have "4 \<le> length blob" by (simp add: assms(6))
  moreover have "4 + int (length typ) \<le> int (length blob)" by (simp add: assms(6))
  moreover have "0 < int (length typ)" using assms(2) by simp
  ultimately show ?thesis
    unfolding parseHostKey_def f by (simp add: b64_decode_std Let_def)
qed

text \<open>
  C39. The bounds check is safe on 64 bits, where no line whatever makes the parser panic, and
  not on 32, where the sum of 4 and the length wraps around: a key line whose blob announces
  the largest 31-bit length slices out of range.
\<close>

theorem parseHostKey_panics_only_on_32_bits:
  "(\<forall>line. parseHostKey 64 line \<noteq> None) \<and> parseHostKey 32 ''ssh-ed25519 f////3Nz'' = None"
proof (intro conjI allI)
  fix line
  have w: "wrap_int 64 (uint (x :: u32)) = uint x" "wrap_int 64 (4 + uint x) = 4 + uint x" for x
    using unsigned_less [of x, where ?'a = int] by (auto intro!: wrap_int_small)
  show "parseHostKey 64 line \<noteq> None"
    unfolding parseHostKey_def Let_def w
    by (auto simp: slice_def not_le not_less split: option.splits if_splits)
next
  have "Fields ''ssh-ed25519 f////3Nz'' = [''ssh-ed25519'', ''f////3Nz'']"
    by (simp add: Fields.simps is_space_def)
  moreover have "b64_decode ''f////3Nz'' = Some [127, 255, 255, 255, 115, 115]"
    by (simp add: b64_decode_def b64_val_def)
  ultimately show "parseHostKey 32 ''ssh-ed25519 f////3Nz'' = None"
    by (simp add: parseHostKey_def get_be_def wrap_int_def slice_def)
qed

text \<open>
  No private directory is left behind: whatever the file system answers, either the path
  of a file that holds exactly the pinned line is returned, or the directory that was made,
  if any, is removed as the last step.
\<close>

lemma writeKnownHosts_cleans_up:
  "case writeKnownHosts tmp mkdir_ok write_ok k host port bare of
     (Some (dir, path), ops) \<Rightarrow>
       tmp = Some dir \<and> last ops = Write_file path (knownHostsEntries k host port bare)
       \<and> Remove_all dir \<notin> set ops
   | (None, ops) \<Rightarrow> (case tmp of None \<Rightarrow> ops = [] | Some dir \<Rightarrow> last ops = Remove_all dir)"
  by (simp add: writeKnownHosts_def Let_def split: option.split)

theorem parseHostKey_of_printed_witness:
  "\<exists>k. parseHostKey 32 (''ssh-ed25519'' @ '' '' @
       b64_std (put_be 4 (11 :: u32) @ map byte_of_char ''ssh-ed25519'' @ [1, 2, 3]) @ '' me@host'')
     = Some (Inr k) \<and> hk_typ k = ''ssh-ed25519''"
  using parseHostKey_of_printed [of 32 "''ssh-ed25519''" "'' me@host''"
      "put_be 4 (11 :: u32) @ map byte_of_char ''ssh-ed25519'' @ [1, 2, 3]" "[1, 2, 3]"]
  by (simp add: is_space_def del: put_be.simps)

end
