(* ===== verification/Client_Args.thy ===== *)
theory Client_Args
  imports Config Host_Key
begin

text \<open>
  The ssh command line of the client, \<open>internal/client/client.go\<close> lines 128 to 223, for
  OpenSSH and for Dropbear, and the choice whether to probe the server first. A pinned key is
  the directory and the \<open>known_hosts\<close> file made for it.
\<close>

section \<open>Building the command\<close>

record pinned =
  pin_dir :: string
  pin_knownHosts :: string

definition connectTimeout :: int where "connectTimeout = 20"

definition connectSettle :: duration where "connectSettle = (connectTimeout + 5) * second"

definition hostify :: "string \<Rightarrow> string" where
  "hostify addr = (if has_prefix addr '':'' then ''localhost'' @ addr else addr)"

definition forwards :: "config \<Rightarrow> string list" where
  "forwards cfg =
     concat (map (\<lambda>f. [''-R'', f]) (Forwards cfg))
     @ (if 0 < StatsForwardPort cfg
        then [''-R'', itoa (StatsForwardPort cfg) @ '':'' @ hostify (StatsAddr cfg)] else [])
     @ (if 0 < SpeedtestForwardPort cfg
        then [''-R'', itoa (SpeedtestForwardPort cfg) @ '':'' @ hostify (SpeedtestListen cfg)] else [])"

definition opensshArgs :: "config \<Rightarrow> pinned option \<Rightarrow> string list" where
  "opensshArgs cfg pin =
     (let strict = (case pin of
            None \<Rightarrow> [''-o'', ''StrictHostKeyChecking=accept-new'']
          | Some p \<Rightarrow> [''-o'', ''StrictHostKeyChecking=yes'',
                       ''-o'', ''UserKnownHostsFile='' @ pin_knownHosts p,
                       ''-o'', ''GlobalKnownHostsFile=/dev/null'']);
          args = [''-N'', ''-T'',
                  ''-o'', ''ExitOnForwardFailure=yes'',
                  ''-o'', ''ConnectTimeout='' @ itoa connectTimeout,
                  ''-o'', ''ServerAliveInterval='' @ itoa (ServerAliveInterval cfg),
                  ''-o'', ''ServerAliveCountMax='' @ itoa (ServerAliveCountMax cfg),
                  ''-p'', itoa (SSHPort cfg)];
          args = args @ strict;
          args = (if KeyFile cfg \<noteq> [] then args @ [''-i'', KeyFile cfg] else args);
          args = args @ forwards cfg;
          args = (if ExtraSSHOpts cfg \<noteq> [] then args @ Fields (ExtraSSHOpts cfg) else args)
      in args @ [User cfg @ ''@'' @ Host cfg])"

definition dropbearArgs :: "config \<Rightarrow> pinned option \<Rightarrow> string list" where
  "dropbearArgs cfg pin =
     (let args = [''-N'', ''-T'', ''-p'', itoa (SSHPort cfg)];
          args = (if pin = None then args @ [''-y''] else args);
          args = (if KeyFile cfg \<noteq> [] then args @ [''-i'', KeyFile cfg] else args);
          args = (if 0 < ServerAliveInterval cfg
                  then args @ [''-K'', itoa (ServerAliveInterval cfg)] else args);
          args = args @ forwards cfg;
          args = (if ExtraSSHOpts cfg \<noteq> [] then args @ Fields (ExtraSSHOpts cfg) else args)
      in args @ [User cfg @ ''@'' @ Host cfg])"

text \<open>The command, its arguments, and the \<open>HOME\<close> set for it, if any.\<close>

definition buildSSH :: "config \<Rightarrow> pinned option \<Rightarrow> string \<times> string list \<times> string option" where
  "buildSSH cfg pin =
     (let args = (if SSHImpl cfg = ''dropbear'' then dropbearArgs cfg pin else opensshArgs cfg pin)
      in (SSHCommand cfg, args,
          if SSHImpl cfg = ''dropbear'' then map_option pin_dir pin else None))"

definition precheck_on :: "config \<Rightarrow> bool" where
  "precheck_on cfg \<longleftrightarrow> \<not> NoPrecheck cfg \<and> \<not> contains (to_lower (ExtraSSHOpts cfg)) ''proxy''"

text \<open>
  The start of \<open>Run\<close>: the error that stops it, or the pinned key to use. \<open>parsed\<close> is the
  outcome of parsing a non-empty key line and \<open>written\<close> that of writing it.
\<close>

datatype run_error = Missing_host | Bad_host_key hk_error | Known_hosts_failed

definition pin_for_run ::
  "config \<Rightarrow> (hk_error + host_key) \<Rightarrow> (string \<times> string) option \<Rightarrow> run_error + pinned option" where
  "pin_for_run cfg parsed written =
     (if Host cfg = [] then Inl Missing_host
      else if HostKey cfg = [] then Inr None
      else (case parsed of
              Inl e \<Rightarrow> Inl (Bad_host_key e)
            | Inr k \<Rightarrow>
                (case written of
                   None \<Rightarrow> Inl Known_hosts_failed
                 | Some (dir, path) \<Rightarrow> Inr (Some \<lparr>pin_dir = dir, pin_knownHosts = path\<rparr>))))"

end
