(* ===== verification/Supervisor.thy ===== *)
theory Supervisor
  imports Client_Args
begin

text \<open>
  The client's tunnel state, \<open>internal/stats/stats.go\<close>, and the supervisor loop that keeps
  ssh running, \<open>client.Run\<close> (\<open>internal/client/client.go\<close> lines 83 to 126), with the
  pre-flight probe of \<open>internal/client/probe.go\<close>. The timer that reports a session as
  connected runs its function in a goroutine of its own, so the loop is a step relation.
\<close>

section \<open>The metrics\<close>

record stats =
  st_startedAt :: gotime
  st_connected :: bool
  st_sessionAt :: gotime
  st_reconnects :: int
  st_lastError :: string
  st_lastUptime :: rat
  st_udpSet :: bool
  st_udpOK :: bool
  st_udpRTT :: duration
  st_udpLoss :: rat
  st_udpAt :: gotime
  st_bytesTx :: u64
  st_bytesRx :: u64
  st_speedtestPort :: int

definition stats_New :: "int \<Rightarrow> gotime \<Rightarrow> stats" where
  "stats_New speedtestPort now =
     \<lparr>st_startedAt = now, st_connected = False, st_sessionAt = zero_time, st_reconnects = 0,
      st_lastError = [], st_lastUptime = 0, st_udpSet = False, st_udpOK = False, st_udpRTT = 0,
      st_udpLoss = 0, st_udpAt = zero_time, st_bytesTx = 0, st_bytesRx = 0,
      st_speedtestPort = speedtestPort\<rparr>"

definition SetConnected :: "gotime \<Rightarrow> stats \<Rightarrow> stats" where
  "SetConnected now s = s\<lparr>st_connected := True, st_sessionAt := now\<rparr>"

definition SetConnectedSince :: "gotime \<Rightarrow> stats \<Rightarrow> stats" where
  "SetConnectedSince t s = s\<lparr>st_connected := True, st_sessionAt := t\<rparr>"

definition RecordDisconnect :: "duration \<Rightarrow> string option \<Rightarrow> stats \<Rightarrow> stats" where
  "RecordDisconnect d err s =
     s\<lparr>st_connected := False, st_reconnects := st_reconnects s + 1, st_lastUptime := seconds d,
       st_lastError := (case err of None \<Rightarrow> st_lastError s | Some e \<Rightarrow> e)\<rparr>"

definition SetUDP :: "bool \<Rightarrow> duration \<Rightarrow> rat \<Rightarrow> gotime \<Rightarrow> stats \<Rightarrow> stats" where
  "SetUDP ok rtt lossPct now s =
     s\<lparr>st_udpSet := True, st_udpOK := ok, st_udpRTT := rtt, st_udpLoss := lossPct, st_udpAt := now\<rparr>"

record snapshot =
  sn_Connected :: bool
  sn_UptimeSeconds :: rat
  sn_AgentSeconds :: rat
  sn_Reconnects :: int
  sn_LastUptimeSec :: rat
  sn_LastError :: string
  sn_BytesTx :: u64
  sn_BytesRx :: u64
  sn_SpeedtestPort :: int
  sn_UDP :: "(bool \<times> rat \<times> rat) option"

definition snap :: "gotime \<Rightarrow> stats \<Rightarrow> snapshot" where
  "snap now s =
     \<lparr>sn_Connected = st_connected s,
      sn_UptimeSeconds = (if st_connected s then seconds (time_sub now (st_sessionAt s)) else 0),
      sn_AgentSeconds = seconds (time_sub now (st_startedAt s)),
      sn_Reconnects = st_reconnects s, sn_LastUptimeSec = st_lastUptime s,
      sn_LastError = st_lastError s, sn_BytesTx = st_bytesTx s, sn_BytesRx = st_bytesRx s,
      sn_SpeedtestPort = st_speedtestPort s,
      sn_UDP = (if st_udpSet s
                then Some (st_udpOK s, of_int (microseconds (st_udpRTT s)) / 1000, st_udpLoss s)
                else None)\<rparr>"

text \<open>\<open>/healthz\<close>: the HTTP status.\<close>

definition healthz :: "gotime \<Rightarrow> stats \<Rightarrow> int" where
  "healthz now s = (if sn_Connected (snap now s) then 200 else 503)"

section \<open>The pre-flight probe\<close>

text \<open>What the network shows: no connection, no line before the deadline, or a first line.\<close>

datatype probe_seen = No_connect | No_banner | Banner string

datatype probe_verdict = Probe_connect_failed | Probe_no_banner | Probe_not_ssh string | Probe_ok string

definition client_probe :: "probe_seen \<Rightarrow> probe_verdict" where
  "client_probe seen =
     (case seen of
        No_connect \<Rightarrow> Probe_connect_failed
      | No_banner \<Rightarrow> Probe_no_banner
      | Banner line \<Rightarrow>
          (let line = trim_space line in
           if \<not> has_prefix line ''SSH-'' then Probe_not_ssh line else Probe_ok line))"

section \<open>The supervisor\<close>

text \<open>
  \<open>Idle\<close> is the top of the loop; \<open>Exited t d e\<close> is after \<open>cmd.Wait\<close> and the timer's \<open>Stop\<close>
  and before \<open>RecordDisconnect\<close>. A timer is armed for a session start, or its function has
  been launched and has not run yet, when \<open>Stop\<close> no longer prevents it.
\<close>

datatype sup_phase =
  Idle
| Probed
| Running gotime
| Exited duration "string option"
| Delaying

record supervisor =
  su_now :: gotime
  su_stats :: stats
  su_phase :: sup_phase
  su_armed :: "gotime option"
  su_launched :: "gotime list"

definition sup_start :: "supervisor \<Rightarrow> bool" where
  "sup_start s \<longleftrightarrow>
     (\<exists>port now. s = \<lparr>su_now = now, su_stats = stats_New port now, su_phase = Idle,
                      su_armed = None, su_launched = []\<rparr>)"

inductive sup_step :: "supervisor \<Rightarrow> supervisor \<Rightarrow> bool" where
  sup_time:
    "su_now s \<le> t \<Longrightarrow> sup_step s (s\<lparr>su_now := t\<rparr>)"
| sup_probe_failed:
    "su_phase s = Idle \<Longrightarrow>
       sup_step s (s\<lparr>su_stats := RecordDisconnect 0 (Some e) (su_stats s), su_phase := Delaying\<rparr>)"
| sup_probe_ok:
    "su_phase s = Idle \<Longrightarrow> sup_step s (s\<lparr>su_phase := Probed\<rparr>)"
| sup_start_failed:
    "su_phase s = Probed \<Longrightarrow>
       sup_step s (s\<lparr>su_stats := RecordDisconnect 0 (Some e) (su_stats s), su_phase := Delaying\<rparr>)"
| sup_started:
    "su_phase s = Probed \<Longrightarrow>
       sup_step s (s\<lparr>su_phase := Running (su_now s), su_armed := Some (su_now s)\<rparr>)"
| sup_timer_fires:
    "su_armed s = Some t \<Longrightarrow> t + connectSettle \<le> su_now s \<Longrightarrow>
       sup_step s (s\<lparr>su_armed := None, su_launched := su_launched s @ [t]\<rparr>)"
| sup_callback:
    "t \<in> set (su_launched s) \<Longrightarrow>
       sup_step s (s\<lparr>su_stats := SetConnectedSince t (su_stats s), su_launched := remove1 t (su_launched s)\<rparr>)"
| sup_exit:
    "su_phase s = Running t \<Longrightarrow>
       sup_step s (s\<lparr>su_phase := Exited (time_sub (su_now s) t) e, su_armed := None\<rparr>)"
| sup_record:
    "su_phase s = Exited d e \<Longrightarrow>
       sup_step s (s\<lparr>su_stats := RecordDisconnect d e (su_stats s), su_phase := Delaying\<rparr>)"
| sup_again:
    "su_phase s = Delaying \<Longrightarrow> sup_step s (s\<lparr>su_phase := Idle\<rparr>)"

text \<open>
  Timers are armed only for the running session, and a launched function or a connected
  state is always that of a session that started long enough ago.
\<close>

definition sup_inv :: "supervisor \<Rightarrow> bool" where
  "sup_inv s \<longleftrightarrow>
     (\<forall>t. su_armed s = Some t \<longrightarrow> su_phase s = Running t \<and> t \<le> su_now s)
     \<and> (\<forall>t. su_phase s = Running t \<longrightarrow> t \<le> su_now s)
     \<and> (\<forall>t \<in> set (su_launched s). t + connectSettle \<le> su_now s)
     \<and> (st_connected (su_stats s) \<longrightarrow> st_sessionAt (su_stats s) + connectSettle \<le> su_now s)"

lemma set_remove1_le: "x \<in> set (remove1 t xs) \<Longrightarrow> x \<in> set xs"
  using set_remove1_subset by fast

lemma sup_inv_step: "sup_step s s' \<Longrightarrow> sup_inv s \<Longrightarrow> sup_inv s'"
  by (induction rule: sup_step.induct)
    (auto simp: sup_inv_def RecordDisconnect_def SetConnectedSince_def dest: set_remove1_le)

lemma sup_inv_start: "sup_start s \<Longrightarrow> sup_inv s"
  by (auto simp: sup_start_def sup_inv_def stats_New_def)

interpretation supv: invariant sup_start sup_step sup_inv
  by unfold_locales (rule sup_inv_start, assumption, rule sup_inv_step)

section \<open>Properties\<close>

lemma sup_connected:
  "reach sup_start sup_step s \<Longrightarrow> healthz now (su_stats s) = 200 \<Longrightarrow>
     st_sessionAt (su_stats s) + connectSettle \<le> su_now s"
  using supv.inv_reach [of s] by (simp add: healthz_def snap_def sup_inv_def split: if_splits)

text \<open>
  C23. Health is never reported early: in every reachable state, if \<open>/healthz\<close> answers 200
  then the session it stands for was started at least 25 seconds before, longer than ssh's
  connect timeout, through any sequence of failed probes, failed starts, exits and
  reconnections.
\<close>

theorem healthy_only_after_settling:
  assumes "reach sup_start sup_step s" and "healthz now (su_stats s) = 200"
  shows "st_sessionAt (su_stats s) + 25 * second \<le> su_now s"
  using sup_connected [OF assms] by (simp add: connectSettle_def connectTimeout_def)

text \<open>A session that settles, exits just as its timer fires, and is reported afterwards.\<close>

definition sup0 :: supervisor where
  "sup0 = \<lparr>su_now = 5, su_stats = stats_New 0 5, su_phase = Idle, su_armed = None, su_launched = []\<rparr>"

definition sup_launched :: supervisor where
  "sup_launched = sup0\<lparr>su_phase := Running 5, su_armed := None, su_launched := [5],
                       su_now := 5 + connectSettle\<rparr>"

definition sup_late :: supervisor where
  "sup_late = sup_launched\<lparr>su_phase := Delaying, su_launched := [],
     su_stats := SetConnectedSince 5 (RecordDisconnect connectSettle None (su_stats sup0))\<rparr>"

lemma settle_ns: "connectSettle = 25000000000"
  by (simp add: connectSettle_def connectTimeout_def go_simps)

lemma reach_sup_launched: "reach sup_start sup_step sup_launched"
proof -
  have "reach sup_start sup_step sup0"
    by (rule reach_start) (auto simp: sup_start_def sup0_def)
  then have "reach sup_start sup_step (sup0\<lparr>su_phase := Probed\<rparr>)"
    by (rule reach_step) (rule sup_probe_ok, simp add: sup0_def)
  then have "reach sup_start sup_step (sup0\<lparr>su_phase := Running 5, su_armed := Some 5\<rparr>)"
    by (rule reach_step) (insert sup_started [of "sup0\<lparr>su_phase := Probed\<rparr>"], simp add: sup0_def)
  then have "reach sup_start sup_step
      (sup0\<lparr>su_phase := Running 5, su_armed := Some 5, su_now := 5 + connectSettle\<rparr>)"
    by (rule reach_step)
      (insert sup_time [of "sup0\<lparr>su_phase := Running 5, su_armed := Some 5\<rparr>" "5 + connectSettle"],
       simp add: sup0_def settle_ns)
  then show ?thesis
    by (rule reach_step)
      (insert sup_timer_fires [of "sup0\<lparr>su_phase := Running 5, su_armed := Some 5,
          su_now := 5 + connectSettle\<rparr>" 5], simp add: sup_launched_def sup0_def)
qed

lemma reach_sup_late: "reach sup_start sup_step sup_late"
proof -
  have "reach sup_start sup_step (sup_launched\<lparr>su_phase := Exited connectSettle None\<rparr>)"
    by (rule reach_step [OF reach_sup_launched])
      (insert sup_exit [of sup_launched 5 None],
       simp add: sup_launched_def sup0_def settle_ns time_sub_def go_simps)
  then have "reach sup_start sup_step (sup_launched\<lparr>su_phase := Delaying,
      su_stats := RecordDisconnect connectSettle None (su_stats sup0)\<rparr>)"
    by (rule reach_step)
      (insert sup_record [of "sup_launched\<lparr>su_phase := Exited connectSettle None\<rparr>" connectSettle None],
       simp add: sup_launched_def sup0_def)
  moreover have "sup_step (sup_launched\<lparr>su_phase := Delaying,
      su_stats := RecordDisconnect connectSettle None (su_stats sup0)\<rparr>) sup_late"
    using sup_callback [of 5 "sup_launched\<lparr>su_phase := Delaying,
        su_stats := RecordDisconnect connectSettle None (su_stats sup0)\<rparr>"]
    by (simp add: sup_launched_def sup_late_def sup0_def)
  ultimately show ?thesis by (rule reach_step)
qed

theorem healthy_only_after_settling_witness:
  "healthz 0 (su_stats sup_late) = 200
   \<and> st_sessionAt (su_stats sup_late) + 25 * second \<le> su_now sup_late"
  using healthy_only_after_settling [OF reach_sup_late, of 0]
  by (simp add: healthz_def snap_def sup_late_def SetConnectedSince_def)

text \<open>
  Health can be reported late: stopping the timer does not wait for its function, so
  when ssh exits as the timer fires the disconnection can be recorded first, and the client
  then reports a live tunnel while no ssh is running.
\<close>

lemma healthy_without_ssh:
  "\<exists>s. reach sup_start sup_step s \<and> su_phase s = Delaying \<and> healthz (su_now s) (su_stats s) = 200"
  using reach_sup_late
  by (intro exI [of _ sup_late] conjI) (simp_all add: sup_late_def healthz_def snap_def SetConnectedSince_def)

end
