(* ===== verification/Packet.thy ===== *)
theory Packet
  imports Sha256
begin

text \<open>
  The heartbeat datagram, \<open>internal/heartbeat/packet.go\<close>: the wire layout, which names
  are valid, \<open>encode\<close> and \<open>decode\<close> with their error branches. \<open>decode\<close> is exactly the
  inverse of \<open>encode\<close>: it accepts the images of \<open>encode\<close> and nothing else.
\<close>

section \<open>Constants\<close>

definition magic :: "byte list" where
  "magic = map byte_of_char ''TKHB''"

definition version :: byte where "version = 1"
definition typeReq :: byte where "typeReq = 1"
definition typeRep :: byte where "typeRep = 2"
definition nameLen :: nat where "nameLen = 32"
definition macLen :: nat where "macLen = 16"
definition headLen :: nat where "headLen = 4 + 1 + 1 + 4 + 8 + nameLen"
definition PacketSz :: nat where "PacketSz = headLen + macLen"

lemmas packet_consts = version_def typeReq_def typeRep_def nameLen_def macLen_def
  headLen_def PacketSz_def

section \<open>Packets\<close>

text \<open>\<open>TS\<close> is an \<open>int64\<close>, kept as its 64-bit two's complement pattern.\<close>

record packet =
  Reply :: bool
  Seq :: u32
  TS :: u64
  PName :: string

datatype packet_error = InvalidName | NotHeartbeat | BadSignature | Malformed

definition sign :: "byte list \<Rightarrow> byte list \<Rightarrow> byte list" where
  "sign key head = take macLen (hmac_sha256 key head)"

text \<open>
  The loop of \<open>validName\<close> ranges over runes; a byte of a multi-byte (or invalid) sequence
  is never one of the allowed ASCII characters, so the test by bytes is the same.
\<close>

definition name_char :: "char \<Rightarrow> bool" where
  "name_char c \<longleftrightarrow>
     (CHR ''a'' \<le> c \<and> c \<le> CHR ''z'') \<or> (CHR ''A'' \<le> c \<and> c \<le> CHR ''Z'') \<or>
     (CHR ''0'' \<le> c \<and> c \<le> CHR ''9'') \<or> c \<in> set ''-_.@''"

definition validName :: "string \<Rightarrow> bool" where
  "validName n \<longleftrightarrow> n \<noteq> [] \<and> length n \<le> nameLen \<and> list_all name_char n"

text \<open>\<open>copy(dst[off:], src)\<close>: as many elements as fit.\<close>

definition copy_at :: "nat \<Rightarrow> 'a list \<Rightarrow> 'a list \<Rightarrow> 'a list" where
  "copy_at off src dst =
     take off dst @ take (length dst - off) src @ drop (off + length src) dst"

definition encode :: "packet \<Rightarrow> byte list \<Rightarrow> packet_error + byte list" where
  "encode p key =
     (if \<not> validName (PName p) then Inl InvalidName
      else
        let b = replicate PacketSz 0;
            b = copy_at 0 magic b;
            b = b[4 := version];
            b = b[5 := typeReq];
            b = (if Reply p then b[5 := typeRep] else b);
            b = copy_at 6 (put_be 4 (Seq p)) b;
            b = copy_at 10 (put_be 8 (TS p)) b;
            b = copy_at 18 (take nameLen (map byte_of_char (PName p))) b;
            b = copy_at headLen (sign key (take headLen b)) b
        in Inr b)"

definition decode :: "byte list \<Rightarrow> byte list \<Rightarrow> packet_error + packet" where
  "decode key b =
     (if length b \<noteq> PacketSz \<or> take 4 b \<noteq> magic \<or> b ! 4 \<noteq> version then Inl NotHeartbeat
      else if drop headLen b \<noteq> sign key (take headLen b) then Inl BadSignature
      else
        let name = map char_of_byte (trim_right (\<lambda>x. x = 0) (take nameLen (drop 18 b)))
        in if \<not> validName name \<or> (b ! 5 \<noteq> typeReq \<and> b ! 5 \<noteq> typeRep) then Inl Malformed
           else Inr \<lparr>Reply = (b ! 5 = typeRep),
                     Seq = get_be (take 4 (drop 6 b)),
                     TS = get_be (take 8 (drop 10 b)),
                     PName = name\<rparr>)"

section \<open>The wire layout\<close>

definition kind_byte :: "bool \<Rightarrow> byte" where
  "kind_byte r = (if r then typeRep else typeReq)"

definition name_field :: "string \<Rightarrow> byte list" where
  "name_field n = map byte_of_char n @ replicate (nameLen - length n) 0"

definition head_bytes :: "packet \<Rightarrow> byte list" where
  "head_bytes p =
     magic @ [version, kind_byte (Reply p)] @ put_be 4 (Seq p) @ put_be 8 (TS p)
       @ name_field (PName p)"

lemma length_magic [simp]: "length magic = 4"
  by (simp add: magic_def)

lemma length_sign [simp]: "length (sign key head) = macLen"
  by (simp add: sign_def macLen_def)

lemma length_name_field: "length n \<le> nameLen \<Longrightarrow> length (name_field n) = nameLen"
  by (simp add: name_field_def)

lemma length_head_bytes:
  "validName (PName p) \<Longrightarrow> length (head_bytes p) = headLen"
  by (simp add: head_bytes_def length_name_field validName_def headLen_def)

text \<open>Copying next to what is already written extends the written prefix.\<close>

lemma copy_at_zeros:
  "length pre = off \<Longrightarrow> length src \<le> n \<Longrightarrow>
     copy_at off src (pre @ replicate n 0) = pre @ src @ replicate (n - length src) 0"
  by (auto simp: copy_at_def)

lemma encode_layout:
  assumes "validName (PName p)"
  shows "encode p key = Inr (head_bytes p @ sign key (head_bytes p))"
proof -
  have len: "length (PName p) \<le> 32" using assms by (simp add: validName_def nameLen_def)
  let ?k = "[version, kind_byte (Reply p)]"
  define pre where "pre = magic @ ?k"
  define seq where "seq = pre @ put_be 4 (Seq p)"
  define ts where "ts = seq @ put_be 8 (TS p)"
  have lens: "length pre = 6" "length seq = 10" "length ts = 18"
    by (simp_all add: pre_def seq_def ts_def)
  have 1: "copy_at 0 magic (replicate PacketSz 0) = magic @ replicate 62 0"
    using copy_at_zeros [of "[]" 0 magic 66] by (simp add: packet_consts)
  have 2: "(magic @ replicate 62 0)[4 := version, 5 := k] = magic @ [version, k] @ replicate 60 0"
    "(magic @ [version, k] @ replicate 60 0)[5 := k'] = magic @ [version, k'] @ replicate 60 0"
    for k k' by (simp_all add: list_update_append numeral_eq_Suc)
  have 2: "(if Reply p then (magic @ replicate 62 0)[4 := version, 5 := typeReq, 5 := typeRep]
            else (magic @ replicate 62 0)[4 := version, 5 := typeReq]) = pre @ replicate 60 0"
    by (simp only: 2 pre_def kind_byte_def append_assoc split: if_split) simp
  have 3: "copy_at 6 (put_be 4 (Seq p)) (pre @ replicate 60 0) = seq @ replicate 56 0"
    using copy_at_zeros [of pre 6 "put_be 4 (Seq p)" 60] lens by (simp add: seq_def)
  have 4: "copy_at 10 (put_be 8 (TS p)) (seq @ replicate 56 0) = ts @ replicate 48 0"
    using copy_at_zeros [of seq 10 "put_be 8 (TS p)" 56] lens by (simp add: ts_def)
  have 5: "copy_at 18 (take nameLen (map byte_of_char (PName p))) (ts @ replicate 48 0)
             = head_bytes p @ replicate 16 0"
  proof -
    have "replicate (48 - length (PName p)) (0 :: byte)
        = replicate (32 - length (PName p)) 0 @ replicate 16 0"
      using len by (simp add: replicate_add [symmetric])
    then show ?thesis
      using copy_at_zeros [of ts 18 "map byte_of_char (PName p)" 48] lens len
      by (simp add: head_bytes_def name_field_def ts_def seq_def pre_def packet_consts)
  qed
  have hl: "length (head_bytes p) = headLen" using assms by (rule length_head_bytes)
  have 6: "copy_at headLen (sign key (head_bytes p)) (head_bytes p @ replicate 16 0)
             = head_bytes p @ sign key (head_bytes p)"
    using copy_at_zeros [of "head_bytes p" headLen "sign key (head_bytes p)" 16] hl
    by (simp add: macLen_def)
  have 7: "take headLen (head_bytes p @ replicate 16 0) = head_bytes p" using hl by simp
  show ?thesis
    using assms by (simp only: encode_def Let_def 1 2 3 4 5 6 7 not_True_eq_False if_False)
qed

lemma encode_Inr:
  "encode p key = Inr b \<longleftrightarrow> validName (PName p) \<and> b = head_bytes p @ sign key (head_bytes p)"
proof (cases "validName (PName p)")
  case True
  then show ?thesis by (auto simp: encode_layout)
next
  case False
  then show ?thesis by (simp add: encode_def)
qed

section \<open>Reading the fields back\<close>

lemma name_char_not_nul: "name_char c \<Longrightarrow> byte_of_char c \<noteq> 0"
proof
  assume n: "name_char c" and "byte_of_char c = 0"
  then have "of_char c = (0 :: nat)" using unat_byte_of_char [of c] by simp
  then have "c = char_of (0 :: nat)" by (metis char_of_char)
  with n show False by (simp add: name_char_def char_of_def)
qed

lemma trim_right_zeros:
  "\<forall>x \<in> set xs. x \<noteq> 0 \<Longrightarrow> trim_right (\<lambda>x. x = 0) (xs @ replicate n 0) = xs"
proof -
  assume nz: "\<forall>x \<in> set xs. x \<noteq> 0"
  have "dropWhile (\<lambda>x. x = 0) (rev xs) = rev xs"
    using nz by (cases "rev xs") (auto simp: dropWhile_eq_self_iff hd_rev intro: last_in_set)
  moreover have "dropWhile (\<lambda>x. x = 0) (replicate n 0 @ rev xs) = dropWhile (\<lambda>x. x = 0) (rev xs)"
    by (rule dropWhile_append2) (auto split: if_splits)
  ultimately show ?thesis by (simp add: trim_right_def)
qed

lemma trim_right_pad:
  fixes bs :: "byte list"
  shows "trim_right (\<lambda>x. x = 0) bs
           @ replicate (length bs - length (trim_right (\<lambda>x. x = 0) bs)) 0 = bs"
proof (induction bs rule: rev_induct)
  case (snoc b bs)
  have le: "length (trim_right (\<lambda>x. x = 0) bs) \<le> length bs"
    by (simp add: trim_right_def) (metis length_dropWhile_le length_rev)
  show ?case
  proof (cases "b = 0")
    case True
    then have "trim_right (\<lambda>x. x = 0) (bs @ [b]) = trim_right (\<lambda>x. x = 0) bs"
      by (simp add: trim_right_def)
    with True snoc.IH le show ?thesis
      by (simp add: Suc_diff_le) (metis append_assoc replicate_append_same)
  qed (simp add: trim_right_def)
qed (simp add: trim_right_def)

lemma name_field_read:
  "validName n \<Longrightarrow> map char_of_byte (trim_right (\<lambda>x. x = 0) (name_field n)) = n"
  by (subst name_field_def, subst trim_right_zeros)
    (auto simp: validName_def list_all_iff dest: name_char_not_nul)

lemma packet_slices:
  assumes "length b = PacketSz"
  shows "b = take 4 b @ [b ! 4, b ! 5] @ take 4 (drop 6 b) @ take 8 (drop 10 b)
           @ take nameLen (drop 18 b) @ drop headLen b"
proof -
  have len: "length b = 66" using assms by (simp add: packet_consts)
  have "drop 4 b = [b ! 4, b ! 5] @ drop 6 b"
    using len Cons_nth_drop_Suc [of 4 b] Cons_nth_drop_Suc [of 5 b] by simp
  moreover have "drop 6 b = take 4 (drop 6 b) @ drop 10 b"
    using append_take_drop_id [of 4 "drop 6 b"] by simp
  moreover have "drop 10 b = take 8 (drop 10 b) @ drop 18 b"
    using append_take_drop_id [of 8 "drop 10 b"] by simp
  moreover have "drop 18 b = take nameLen (drop 18 b) @ drop headLen b"
    using append_take_drop_id [of 32 "drop 18 b"] by (simp add: packet_consts)
  ultimately show ?thesis by (metis append_take_drop_id)
qed

lemma kind_byte_read: "k = typeReq \<or> k = typeRep \<Longrightarrow> kind_byte (k = typeRep) = k"
  by (auto simp: kind_byte_def)

lemma kind_byte_cases:
  "(kind_byte r = typeReq) = (\<not> r)" "(kind_byte r = typeRep) = r"
  by (auto simp: kind_byte_def packet_consts)

lemma name_field_write:
  "length bs = nameLen \<Longrightarrow>
     name_field (map char_of_byte (trim_right (\<lambda>x. x = 0) bs)) = bs"
  using trim_right_pad [of bs] by (simp add: name_field_def)

lemma decode_head:
  assumes "validName (PName p)"
  shows "decode key (head_bytes p @ mac) =
    (if length mac \<noteq> macLen then Inl NotHeartbeat
     else if mac \<noteq> sign key (head_bytes p) then Inl BadSignature else Inr p)"
proof -
  define b where b_def: "b = head_bytes p @ mac"
  have hl: "length (head_bytes p) = headLen" using assms by (rule length_head_bytes)
  have nl: "length (name_field (PName p)) = nameLen"
    using assms by (simp add: validName_def length_name_field)
  have b: "b = magic @ [version, kind_byte (Reply p)] @ put_be 4 (Seq p) @ put_be 8 (TS p)
             @ name_field (PName p) @ mac"
    by (simp add: head_bytes_def b_def)
  have fields: "take 4 b = magic" "b ! 4 = version" "b ! 5 = kind_byte (Reply p)"
    "take 4 (drop 6 b) = put_be 4 (Seq p)" "take 8 (drop 10 b) = put_be 8 (TS p)"
    "take nameLen (drop 18 b) = name_field (PName p)"
    using nl by (simp_all add: b nth_append)
  have halves: "take headLen b = head_bytes p" "drop headLen b = mac"
    "length b = headLen + length mac"
    using hl by (simp_all add: b_def)
  have "get_be (put_be 4 (Seq p)) = Seq p" "get_be (put_be 8 (TS p)) = TS p"
    by (simp_all add: get_be_put_be_full)
  then have "decode key b =
    (if length mac \<noteq> macLen then Inl NotHeartbeat
     else if mac \<noteq> sign key (head_bytes p) then Inl BadSignature else Inr p)"
    using assms
    by (simp add: decode_def Let_def fields halves name_field_read kind_byte_cases PacketSz_def)
  then show ?thesis by (simp add: b_def)
qed

lemma decode_Inr:
  assumes "decode key b = Inr p"
  shows "validName (PName p) \<and> b = head_bytes p @ sign key (head_bytes p)"
proof -
  let ?name = "map char_of_byte (trim_right (\<lambda>x. x = 0) (take nameLen (drop 18 b)))"
  have len: "length b = PacketSz" and mag: "take 4 b = magic" and ver: "b ! 4 = version"
    and mac: "drop headLen b = sign key (take headLen b)"
    and valid: "validName ?name" and kind: "b ! 5 = typeReq \<or> b ! 5 = typeRep"
    and p: "p = \<lparr>Reply = (b ! 5 = typeRep), Seq = get_be (take 4 (drop 6 b)),
                 TS = get_be (take 8 (drop 10 b)), PName = ?name\<rparr>"
    using assms by (auto simp: decode_def Let_def split: if_splits)
  have "length (take 4 (drop 6 b)) = 4" "length (take 8 (drop 10 b)) = 8"
    using len by (simp_all add: packet_consts)
  then have "put_be 4 (Seq p) = take 4 (drop 6 b)" "put_be 8 (TS p) = take 8 (drop 10 b)"
    using put_be_get_be [of "take 4 (drop 6 b)", where 'w = 32]
      put_be_get_be [of "take 8 (drop 10 b)", where 'w = 64] by (simp_all add: p)
  moreover have "name_field (PName p) = take nameLen (drop 18 b)"
    using len by (simp add: p name_field_write packet_consts)
  ultimately have "head_bytes p @ drop headLen b = b"
    using packet_slices [OF len] mag ver kind by (simp add: head_bytes_def kind_byte_read p)
  moreover have "length (head_bytes p) = headLen"
    using valid by (intro length_head_bytes) (simp add: p)
  ultimately have "head_bytes p = take headLen b" by (metis append_eq_conv_conj)
  with \<open>head_bytes p @ drop headLen b = b\<close> mac valid show ?thesis by (simp add: p)
qed

lemma decode_iff_encode: "decode key b = Inr p \<longleftrightarrow> encode p key = Inr b"
  using decode_Inr [of key b p] decode_head [of p key "sign key (head_bytes p)"]
  by (auto simp: encode_Inr)

lemma encode_length: "encode p key = Inr b \<Longrightarrow> length b = PacketSz"
  by (auto simp: encode_Inr length_head_bytes PacketSz_def)

section \<open>The codec as an interface\<close>

text \<open>
  What the two ends of the heartbeat rely on: a decoder that accepts exactly what the
  encoder produces under the same key, and datagrams of one fixed size.
\<close>

locale packet_codec =
  fixes enc :: "'p \<Rightarrow> 'k \<Rightarrow> 'e + 'b list"
    and dec :: "'k \<Rightarrow> 'b list \<Rightarrow> 'e + 'p"
    and size_of :: nat
  assumes dec_iff_enc: "dec k b = Inr p \<longleftrightarrow> enc p k = Inr b"
    and enc_size: "enc p k = Inr b \<Longrightarrow> length b = size_of"
begin

lemma dec_enc: "enc p k = Inr b \<Longrightarrow> dec k b = Inr p"
  by (simp add: dec_iff_enc)

lemma dec_size: "dec k b = Inr p \<Longrightarrow> length b = size_of"
  by (simp add: dec_iff_enc enc_size)

lemma enc_inj: "enc p k = Inr b \<Longrightarrow> enc q k = Inr b \<Longrightarrow> p = q"
  by (metis dec_iff_enc sum.inject(2))

text \<open>A packet that was decoded can be sent back, and the copy is the same datagram.\<close>

lemma dec_re_enc: "dec k b = Inr p \<Longrightarrow> enc p k = Inr b"
  by (simp add: dec_iff_enc)

end

interpretation hb: packet_codec encode decode PacketSz
  by unfold_locales (auto simp: decode_iff_encode intro: encode_length)

end
