(* ===== verification/Heartbeat_Server.thy ===== *)
theory Heartbeat_Server
  imports Packet
begin

text \<open>
  The server end of the heartbeat, \<open>internal/heartbeat/server.go\<close>: the table of last
  beats per client name, the echo of an authentic request, the checker that flags silent
  clients, and the callbacks both make. \<open>note\<close> releases its mutex between inserting a new
  client and filling the entry in, so it is two critical sections, and both goroutines make their
  callbacks after releasing it; the step relation at the end of the theory interleaves the critical
  sections and the callbacks of the two.
\<close>

section \<open>State and operations\<close>

definition LostAfter :: duration where
  "LostAfter = 35 * second"

record seen =
  seen_at :: gotime
  seen_ip :: string
  seen_alive :: bool

text \<open>\<open>on_lost\<close> and \<open>on_resume\<close> say whether the callbacks are set.\<close>

record hb_server =
  hb_key :: "byte list"
  on_lost :: bool
  on_resume :: bool
  hb_m :: "(string \<times> seen) list"

datatype hb_event =
    is_OnLost: OnLost (ev_name: string) string duration
  | OnResume (ev_name: string) string duration

definition NewServer :: "string \<Rightarrow> hb_server" where
  "NewServer key = \<lparr>hb_key = map byte_of_char key, on_lost = False, on_resume = False, hb_m = []\<rparr>"

definition Last :: "hb_server \<Rightarrow> string \<Rightarrow> (gotime \<times> string) option" where
  "Last s name = map_option (\<lambda>v. (seen_at v, seen_ip v)) (get (hb_m s) name)"

definition hostOf :: "string \<Rightarrow> string" where
  "hostOf a = (case split_host_port a of Some (h, _) \<Rightarrow> h | None \<Rightarrow> a)"

text \<open>First critical section of \<open>note\<close>: a name not seen before gets an empty entry.\<close>

definition note_enter :: "hb_server \<Rightarrow> string \<Rightarrow> hb_server" where
  "note_enter s name =
     (case get (hb_m s) name of
        Some v \<Rightarrow> s
      | None \<Rightarrow>
          s\<lparr>hb_m := put name \<lparr>seen_at = zero_time, seen_ip = [], seen_alive = True\<rparr> (hb_m s)\<rparr>)"

text \<open>
  Second critical section, through the pointer to the entry (entries are never removed),
  and the callback it decides on, which is made after the mutex is released.
\<close>

definition note_commit :: "hb_server \<Rightarrow> string \<Rightarrow> string \<Rightarrow> gotime \<Rightarrow> hb_server \<times> hb_event list"
  where
  "note_commit s name ip now =
     (case get (hb_m s) name of
        None \<Rightarrow> (s, [])
      | Some v \<Rightarrow>
          (let resumed = \<not> seen_alive v;
               gap = time_sub now (seen_at v)
           in (s\<lparr>hb_m := put name \<lparr>seen_at = now, seen_ip = ip, seen_alive = True\<rparr> (hb_m s)\<rparr>,
               if resumed \<and> on_resume s then [OnResume name ip gap] else [])))"

definition note_hb :: "hb_server \<Rightarrow> string \<Rightarrow> string \<Rightarrow> gotime \<Rightarrow> hb_server \<times> hb_event list" where
  "note_hb s name from now = note_commit (note_enter s name) name (hostOf from) now"

text \<open>One tick of the checker: its critical section, and the callbacks made after it.\<close>

definition silent :: "gotime \<Rightarrow> seen \<Rightarrow> bool" where
  "silent now v \<longleftrightarrow> seen_alive v \<and> LostAfter \<le> time_sub now (seen_at v)"

definition check :: "hb_server \<Rightarrow> gotime \<Rightarrow> hb_server \<times> hb_event list" where
  "check s now =
     (s\<lparr>hb_m := map (\<lambda>(n, v). (n, if silent now v then v\<lparr>seen_alive := False\<rparr> else v)) (hb_m s)\<rparr>,
      if on_lost s then
        map (\<lambda>(n, v). OnLost n (seen_ip v) (time_sub now (seen_at v)))
          (filter (\<lambda>(n, v). silent now v) (hb_m s))
      else [])"

text \<open>
  One turn of the receive loop: the state after it, the callbacks, and the reply with its
  destination, if one is sent. The read buffer holds 2048 bytes.
\<close>

definition serve_datagram ::
  "hb_server \<Rightarrow> byte list \<Rightarrow> string \<Rightarrow> gotime \<Rightarrow>
     hb_server \<times> hb_event list \<times> (byte list \<times> string) option" where
  "serve_datagram s d from now =
     (case decode (hb_key s) (take 2048 d) of
        Inl _ \<Rightarrow> (s, [], None)
      | Inr p \<Rightarrow>
          (if Reply p then (s, [], None)
           else
             (let (s', evs) = note_hb s (PName p) from now
              in (s', evs,
                  case encode \<lparr>Reply = True, Seq = Seq p, TS = TS p, PName = PName p\<rparr> (hb_key s) of
                    Inl _ \<Rightarrow> None
                  | Inr rep \<Rightarrow> Some (rep, from)))))"

section \<open>What one turn does\<close>

lemma note_enter_get:
  "get (hb_m (note_enter s n)) k =
     (if k = n \<and> get (hb_m s) n = None
      then Some \<lparr>seen_at = zero_time, seen_ip = [], seen_alive = True\<rparr> else get (hb_m s) k)"
  by (auto simp: note_enter_def split: option.splits)

lemma note_commit_get:
  "get (hb_m s) n \<noteq> None \<Longrightarrow>
     get (hb_m (fst (note_commit s n ip now))) k =
       (if k = n then Some \<lparr>seen_at = now, seen_ip = ip, seen_alive = True\<rparr> else get (hb_m s) k)"
  by (auto simp: note_commit_def Let_def)

lemma note_hb_get:
  "get (hb_m (fst (note_hb s n from now))) k =
     (if k = n then Some \<lparr>seen_at = now, seen_ip = hostOf from, seen_alive = True\<rparr>
      else get (hb_m s) k)"
  by (simp add: note_hb_def note_commit_get note_enter_get)

lemma check_get:
  "get (hb_m (fst (check s now))) k =
     map_option (\<lambda>v. if silent now v then v\<lparr>seen_alive := False\<rparr> else v) (get (hb_m s) k)"
  by (simp add: check_def get_map_values)

lemma note_hb_fields:
  "hb_key (fst (note_hb s n from now)) = hb_key s" "on_lost (fst (note_hb s n from now)) = on_lost s"
  "on_resume (fst (note_hb s n from now)) = on_resume s"
  by (auto simp: note_hb_def note_commit_def note_enter_def Let_def split: option.splits)

lemma check_fields:
  "hb_key (fst (check s now)) = hb_key s" "on_lost (fst (check s now)) = on_lost s"
  "on_resume (fst (check s now)) = on_resume s"
  by (simp_all add: check_def)

lemma short_datagram: "decode k (take 2048 d) = Inr p \<Longrightarrow> take 2048 d = d"
  using hb.dec_size [of k "take 2048 d" p] by (auto simp: packet_consts min_def split: if_splits)

lemma reply_encodes:
  assumes "decode k d = Inr p"
  obtains r where "encode \<lparr>Reply = True, Seq = Seq p, TS = TS p, PName = PName p\<rparr> k = Inr r"
    and "length r = length d"
proof -
  from assms have "validName (PName p)" by (simp add: decode_iff_encode encode_Inr)
  then obtain r where r: "encode \<lparr>Reply = True, Seq = Seq p, TS = TS p, PName = PName p\<rparr> k = Inr r"
    by (simp add: encode_layout)
  with assms have "length r = length d" by (simp add: hb.enc_size [OF r] hb.dec_size)
  with r show thesis by (rule that)
qed

section \<open>Uninterrupted runs\<close>

datatype hb_input = Datagram "byte list" string gotime | Tick gotime

fun hb_step :: "hb_server \<Rightarrow> hb_input \<Rightarrow> hb_server" where
  "hb_step s (Datagram d from now) = fst (serve_datagram s d from now)"
| "hb_step s (Tick now) = fst (check s now)"

definition hb_run :: "hb_server \<Rightarrow> hb_input list \<Rightarrow> hb_server" where
  "hb_run s ins = foldl hb_step s ins"

text \<open>
  What \<open>Last\<close> promises: the instant and host of the latest authentic request under that
  name, whatever else arrived and however often the checker ran.
\<close>

fun beat_of :: "byte list \<Rightarrow> string \<Rightarrow> hb_input \<Rightarrow> (gotime \<times> string) option" where
  "beat_of key n (Datagram d from now) =
     (case decode key (take 2048 d) of
        Inl _ \<Rightarrow> None
      | Inr p \<Rightarrow> if \<not> Reply p \<and> PName p = n then Some (now, hostOf from) else None)"
| "beat_of key n (Tick now) = None"

definition latest_beat :: "byte list \<Rightarrow> string \<Rightarrow> hb_input list \<Rightarrow> (gotime \<times> string) option" where
  "latest_beat key n ins =
     foldl (\<lambda>acc i. case beat_of key n i of None \<Rightarrow> acc | Some b \<Rightarrow> Some b) None ins"

lemma hb_step_key: "hb_key (hb_step s i) = hb_key s"
  by (cases i) (auto simp: serve_datagram_def check_fields note_hb_fields
      split: sum.splits prod.splits if_splits dest!: arg_cong [where f = fst])

lemma Last_hb_step:
  "Last (hb_step s i) n = (case beat_of (hb_key s) n i of None \<Rightarrow> Last s n | Some b \<Rightarrow> Some b)"
proof (cases i)
  case (Datagram d addr now)
  then show ?thesis
    by (auto simp: serve_datagram_def Last_def note_hb_get split: sum.split prod.split
        dest!: arg_cong [where f = fst])
next
  case (Tick now)
  then show ?thesis
    by (simp add: Last_def check_get option.map_comp comp_def if_distrib cong: if_cong)
qed

lemma hb_run_key: "hb_key (hb_run s ins) = hb_key s"
  by (induction ins arbitrary: s) (simp_all add: hb_run_def hb_step_key)

interpretation hb_last: simulation hb_step
    "\<lambda>acc i. case beat_of key n i of None \<Rightarrow> acc | Some b \<Rightarrow> Some b"
    "\<lambda>s acc. hb_key s = key \<and> Last s n = acc" for key n
  by unfold_locales (simp add: hb_step_key Last_hb_step)

lemma Last_hb_run:
  "Last (hb_run s ins) n =
     foldl (\<lambda>acc i. case beat_of (hb_key s) n i of None \<Rightarrow> acc | Some b \<Rightarrow> Some b) (Last s n) ins"
  using hb_last.sim_run [of s "hb_key s" n "Last s n" ins] by (simp add: hb_run_def)

section \<open>The receive loop and the checker, interleaved\<close>

text \<open>
  The receive goroutine reads the clock, then takes the mutex; for a new name it releases the mutex
  once with the entry still empty (\<open>Inserted\<close>). Both goroutines make their callbacks after releasing
  the mutex: \<open>Calling\<close> and \<open>sys_lost\<close> are the callbacks the receive loop and the checker have decided
  on and not yet made. \<open>sys_decided\<close> records the decisions in the order of the critical sections,
  \<open>sys_log\<close> the callbacks in the order they are made.
\<close>

datatype hb_phase =
    Idle
  | Stamped string string gotime
  | Inserted string string gotime
  | Calling "hb_event list"

record hb_sys =
  sys_srv :: hb_server
  sys_phase :: hb_phase
  sys_lost :: "hb_event list"
  sys_clock :: gotime
  sys_decided :: "hb_event list"
  sys_log :: "hb_event list"

definition then_call :: "hb_event list \<Rightarrow> hb_phase" where
  "then_call evs = (if evs = [] then Idle else Calling evs)"

inductive hb_sys_step :: "hb_sys \<Rightarrow> hb_sys \<Rightarrow> bool" where
  time_passes: "0 \<le> d \<Longrightarrow> hb_sys_step x (x\<lparr>sys_clock := sys_clock x + d\<rparr>)"
| recv: "sys_phase x = Idle \<Longrightarrow> decode (hb_key (sys_srv x)) (take 2048 d) = Inr p \<Longrightarrow> \<not> Reply p \<Longrightarrow>
     hb_sys_step x (x\<lparr>sys_phase := Stamped (PName p) (hostOf from) (sys_clock x)\<rparr>)"
| enter_new: "sys_phase x = Stamped n ip t \<Longrightarrow> get (hb_m (sys_srv x)) n = None \<Longrightarrow>
     hb_sys_step x (x\<lparr>sys_srv := note_enter (sys_srv x) n, sys_phase := Inserted n ip t\<rparr>)"
| enter_known: "sys_phase x = Stamped n ip t \<Longrightarrow> get (hb_m (sys_srv x)) n \<noteq> None \<Longrightarrow>
     note_commit (sys_srv x) n ip t = (s', evs) \<Longrightarrow>
     hb_sys_step x (x\<lparr>sys_srv := s', sys_phase := then_call evs, sys_decided := sys_decided x @ evs\<rparr>)"
| commit: "sys_phase x = Inserted n ip t \<Longrightarrow> note_commit (sys_srv x) n ip t = (s', evs) \<Longrightarrow>
     hb_sys_step x (x\<lparr>sys_srv := s', sys_phase := then_call evs, sys_decided := sys_decided x @ evs\<rparr>)"
| resume_call: "sys_phase x = Calling (e # evs) \<Longrightarrow>
     hb_sys_step x (x\<lparr>sys_phase := then_call evs, sys_log := sys_log x @ [e]\<rparr>)"
| checker: "sys_lost x = [] \<Longrightarrow> check (sys_srv x) (sys_clock x) = (s', evs) \<Longrightarrow>
     hb_sys_step x (x\<lparr>sys_srv := s', sys_lost := evs, sys_decided := sys_decided x @ evs\<rparr>)"
| lost_call: "sys_lost x = e # evs \<Longrightarrow>
     hb_sys_step x (x\<lparr>sys_lost := evs, sys_log := sys_log x @ [e]\<rparr>)"

definition hb_sys_start :: "hb_sys \<Rightarrow> bool" where
  "hb_sys_start x \<longleftrightarrow>
     hb_m (sys_srv x) = [] \<and> on_lost (sys_srv x) \<and> on_resume (sys_srv x) \<and>
     sys_phase x = Idle \<and> sys_lost x = [] \<and> sys_decided x = [] \<and> sys_log x = []"

text \<open>The callbacks the receive loop still has to make.\<close>

fun to_resume :: "hb_phase \<Rightarrow> hb_event list" where
  "to_resume (Calling evs) = evs"
| "to_resume _ = []"

text \<open>Losses and resumptions of one client take turns, a loss first.\<close>

fun alternating :: "bool \<Rightarrow> hb_event list \<Rightarrow> bool" where
  "alternating up [] = True"
| "alternating up (OnLost n ip d # es) = (up \<and> alternating False es)"
| "alternating up (OnResume n ip d # es) = (\<not> up \<and> alternating True es)"

fun up_after :: "bool \<Rightarrow> hb_event list \<Rightarrow> bool" where
  "up_after up [] = up"
| "up_after up (OnLost n ip d # es) = up_after False es"
| "up_after up (OnResume n ip d # es) = up_after True es"

definition events_of :: "string \<Rightarrow> hb_event list \<Rightarrow> hb_event list" where
  "events_of n es = filter (\<lambda>e. ev_name e = n) es"

definition alive_in :: "hb_server \<Rightarrow> string \<Rightarrow> bool" where
  "alive_in s n = (case get (hb_m s) n of None \<Rightarrow> True | Some v \<Rightarrow> seen_alive v)"

definition lost_events :: "hb_event list \<Rightarrow> hb_event list" where
  "lost_events es = filter is_OnLost es"

definition resume_events :: "hb_event list \<Rightarrow> hb_event list" where
  "resume_events es = filter (\<lambda>e. \<not> is_OnLost e) es"

text \<open>Each goroutine makes the callbacks it decided on, in order.\<close>

definition calls_ok :: "hb_sys \<Rightarrow> bool" where
  "calls_ok x \<longleftrightarrow>
     lost_events (sys_decided x) = lost_events (sys_log x) @ sys_lost x \<and>
     resume_events (sys_decided x) = resume_events (sys_log x) @ to_resume (sys_phase x) \<and>
     list_all is_OnLost (sys_lost x) \<and> list_all (\<lambda>e. \<not> is_OnLost e) (to_resume (sys_phase x))"

definition hb_inv :: "hb_sys \<Rightarrow> bool" where
  "hb_inv x \<longleftrightarrow>
     keys_ok (hb_m (sys_srv x)) \<and> on_lost (sys_srv x) \<and> on_resume (sys_srv x) \<and>
     (\<forall>n. alternating True (events_of n (sys_decided x)) \<and>
          up_after True (events_of n (sys_decided x)) = alive_in (sys_srv x) n) \<and> calls_ok x"

lemma alternating_append:
  "alternating up (es @ fs) = (alternating up es \<and> alternating (up_after up es) fs)"
  by (induction up es rule: alternating.induct) auto

lemma up_after_append: "up_after up (es @ fs) = up_after (up_after up es) fs"
  by (induction up es rule: up_after.induct) auto

lemma events_of_append: "events_of n (es @ fs) = events_of n es @ events_of n fs"
  by (simp add: events_of_def)

text \<open>The events a critical section emits are what its change of \<open>alive\<close> calls for.\<close>

definition emits :: "hb_server \<Rightarrow> hb_event list \<Rightarrow> hb_server \<Rightarrow> bool" where
  "emits s evs s' \<longleftrightarrow>
     (\<forall>n. alternating (alive_in s n) (events_of n evs) \<and>
          up_after (alive_in s n) (events_of n evs) = alive_in s' n)"

lemma note_commit_emits:
  assumes "on_resume s" and "note_commit s m ip now = (s', evs)"
  shows "emits s evs s'"
  using assms
  by (auto simp: emits_def note_commit_def alive_in_def events_of_def Let_def
      split: option.splits if_splits)

lemma events_of_lost:
  assumes "keys_ok m"
  shows "events_of n (map (\<lambda>(n, v). OnLost n (f v) (g v)) (filter (\<lambda>(n, v). P v) m))
           = (case get m n of None \<Rightarrow> [] | Some v \<Rightarrow> if P v then [OnLost n (f v) (g v)] else [])"
  using assms
proof (induction m)
  case Nil
  then show ?case by (simp add: events_of_def)
next
  case (Cons x m)
  obtain k v where x: "x = (k, v)" by (cases x)
  have "get m k = None" using Cons.prems x by (simp add: map_of_eq_None_iff)
  with Cons x show ?case by (auto simp: events_of_def)
qed

lemma check_emits:
  assumes "on_lost s" and "keys_ok (hb_m s)" and "check s now = (s', evs)"
  shows "emits s evs s'"
proof -
  have s': "s' = fst (check s now)" and evs: "evs = snd (check s now)" using assms(3) by simp_all
  have "events_of n evs =
     (case get (hb_m s) n of None \<Rightarrow> []
      | Some v \<Rightarrow> if silent now v then [OnLost n (seen_ip v) (time_sub now (seen_at v))] else [])" for n
    using assms(1,2) by (simp add: evs check_def events_of_lost)
  then show ?thesis
    by (auto simp: emits_def s' alive_in_def check_get silent_def split: option.splits)
qed

lemma note_enter_alive: "alive_in (note_enter s n) k = alive_in s k"
  by (auto simp: alive_in_def note_enter_get split: option.splits)

lemma hb_inv_emits:
  assumes "hb_inv x" and "emits (sys_srv x) evs (sys_srv y)"
    and "keys_ok (hb_m (sys_srv y))" "on_lost (sys_srv y)" "on_resume (sys_srv y)"
    and "sys_decided y = sys_decided x @ evs" and "calls_ok y"
  shows "hb_inv y"
  using assms
  by (simp add: hb_inv_def emits_def events_of_append alternating_append up_after_append)

lemma to_resume_then_call [simp]: "to_resume (then_call evs) = evs"
  by (simp add: then_call_def)

lemma note_commit_resumes: "note_commit s n ip now = (s', evs) \<Longrightarrow> list_all (\<lambda>e. \<not> is_OnLost e) evs"
  by (auto simp: note_commit_def Let_def split: option.splits if_splits)

lemma check_losses: "check s now = (s', evs) \<Longrightarrow> list_all is_OnLost evs"
  by (auto simp: check_def list_all_iff split: if_splits)

lemma event_filters:
  "list_all is_OnLost es \<Longrightarrow> lost_events es = es \<and> resume_events es = []"
  "list_all (\<lambda>e. \<not> is_OnLost e) es \<Longrightarrow> resume_events es = es \<and> lost_events es = []"
  "lost_events (es @ fs) = lost_events es @ lost_events fs"
  "resume_events (es @ fs) = resume_events es @ resume_events fs"
  by (induction es) (auto simp: lost_events_def resume_events_def list_all_iff filter_id_conv)

lemma note_commit_frame:
  "note_commit s n ip now = (s', evs) \<Longrightarrow> keys_ok (hb_m s) \<Longrightarrow>
     keys_ok (hb_m s') \<and> on_lost s' = on_lost s \<and> on_resume s' = on_resume s"
  by (auto simp: note_commit_def Let_def keys_ok_put split: option.splits)

lemma note_enter_frame:
  "keys_ok (hb_m s) \<Longrightarrow>
     keys_ok (hb_m (note_enter s n)) \<and> on_lost (note_enter s n) = on_lost s \<and>
     on_resume (note_enter s n) = on_resume s"
  by (auto simp: note_enter_def keys_ok_put split: option.splits)

lemma check_frame:
  "check s now = (s', evs) \<Longrightarrow> keys_ok (hb_m s) \<Longrightarrow>
     keys_ok (hb_m s') \<and> on_lost s' = on_lost s \<and> on_resume s' = on_resume s"
  by (auto simp: check_def keys_map_values simp del: map_map)

lemma hb_inv_step: "hb_sys_step x y \<Longrightarrow> hb_inv x \<Longrightarrow> hb_inv y"
proof (induction rule: hb_sys_step.induct)
  case (time_passes d x)
  then show ?case by (simp add: hb_inv_def calls_ok_def)
next
  case (recv x d p addr)
  then show ?case by (simp add: hb_inv_def calls_ok_def)
next
  case (enter_new x n ip t)
  then show ?case
    using note_enter_frame [of "sys_srv x" n] by (simp add: hb_inv_def calls_ok_def note_enter_alive)
next
  case (enter_known x n ip t s' evs)
  note f = note_commit_frame [OF enter_known(3)] note_commit_emits [OF _ enter_known(3)]
    and r = note_commit_resumes [OF enter_known(3)]
  show ?case
    by (rule hb_inv_emits [OF enter_known(4), of evs])
      (use f enter_known r in \<open>auto simp: hb_inv_def calls_ok_def event_filters\<close>)
next
  case (commit x n ip t s' evs)
  note f = note_commit_frame [OF commit(2)] note_commit_emits [OF _ commit(2)]
    and r = note_commit_resumes [OF commit(2)]
  show ?case
    by (rule hb_inv_emits [OF commit(3), of evs])
      (use f commit r in \<open>auto simp: hb_inv_def calls_ok_def event_filters\<close>)
next
  case (resume_call x e evs)
  then show ?case by (simp add: hb_inv_def calls_ok_def event_filters lost_events_def resume_events_def)
next
  case (checker x s' evs)
  note f = check_frame [OF checker(2)] check_emits [OF _ _ checker(2)] and r = check_losses [OF checker(2)]
  show ?case
    by (rule hb_inv_emits [OF checker(3), of evs])
      (use f checker r in \<open>auto simp: hb_inv_def calls_ok_def event_filters\<close>)
next
  case (lost_call x e evs)
  then show ?case by (simp add: hb_inv_def calls_ok_def event_filters lost_events_def resume_events_def)
qed

lemma hb_inv_start: "hb_sys_start x \<Longrightarrow> hb_inv x"
  by (simp add: hb_sys_start_def hb_inv_def events_of_def alive_in_def calls_ok_def lost_events_def
      resume_events_def)

interpretation hb_sys: invariant hb_sys_start hb_sys_step hb_inv
  by unfold_locales (auto intro: hb_inv_start hb_inv_step)

section \<open>Properties\<close>

lemma packet_reply_upd:
  "p\<lparr>Reply := True\<rparr> = \<lparr>Reply = True, Seq = Seq p, TS = TS p, PName = PName p\<rparr>"
  by (cases p) simp

text \<open>
  C18. The echo answers authentic requests and nothing else. A turn of the receive loop sends
  a reply exactly when the datagram is what \<open>encode\<close> makes of some request under the
  server's key; the reply is the encoding of the same packet with the reply bit set, goes
  to the sender, is exactly as long as the request, and the beat has been recorded. In every
  other case the turn changes nothing, calls nothing and sends nothing.
\<close>

theorem serve_datagram_iff:
  "(serve_datagram s d from now = (s', evs, Some (r, dest)) \<longleftrightarrow>
      (\<exists>p. encode p (hb_key s) = Inr d \<and> \<not> Reply p \<and> (s', evs) = note_hb s (PName p) from now \<and>
           encode (p\<lparr>Reply := True\<rparr>) (hb_key s) = Inr r \<and> length r = length d \<and> dest = from \<and>
           Last s' (PName p) = Some (now, hostOf from))) \<and>
   (serve_datagram s d from now = (s', evs, None) \<longleftrightarrow>
      s' = s \<and> evs = [] \<and> \<not> (\<exists>p. encode p (hb_key s) = Inr d \<and> \<not> Reply p))"
proof (cases "\<exists>p. decode (hb_key s) (take 2048 d) = Inr p \<and> \<not> Reply p")
  case True
  then obtain p where dec: "decode (hb_key s) (take 2048 d) = Inr p" and req: "\<not> Reply p" by blast
  then have d: "take 2048 d = d" using short_datagram by blast
  then have enc: "encode p (hb_key s) = Inr d" using dec hb.dec_re_enc by metis
  obtain r' where r': "encode (p\<lparr>Reply := True\<rparr>) (hb_key s) = Inr r'" and len: "length r' = length d"
    using reply_encodes [OF dec] d by (metis packet_reply_upd)
  have turn: "serve_datagram s d from now =
      (fst (note_hb s (PName p) from now), snd (note_hb s (PName p) from now), Some (r', from))"
    using dec req r' by (simp add: serve_datagram_def packet_reply_upd split: prod.split)
  have last: "Last (fst (note_hb s (PName p) from now)) (PName p) = Some (now, hostOf from)"
    by (simp add: Last_def note_hb_get)
  have "serve_datagram s d from now = (s', evs, Some (r, dest)) \<longleftrightarrow>
      (s', evs) = note_hb s (PName p) from now \<and> r = r' \<and> dest = from"
    by (cases "note_hb s (PName p) from now") (auto simp: turn)
  also have "\<dots> \<longleftrightarrow> (\<exists>q. encode q (hb_key s) = Inr d \<and> \<not> Reply q \<and> (s', evs) = note_hb s (PName q) from now \<and>
           encode (q\<lparr>Reply := True\<rparr>) (hb_key s) = Inr r \<and> length r = length d \<and> dest = from \<and>
           Last s' (PName q) = Some (now, hostOf from))" (is "_ \<longleftrightarrow> (\<exists>q. ?Q q)")
  proof
    assume h: "(s', evs) = note_hb s (PName p) from now \<and> r = r' \<and> dest = from"
    then have "s' = fst (note_hb s (PName p) from now)" by (metis fst_conv)
    with h last enc req r' len have "?Q p" by simp
    then show "\<exists>q. ?Q q" ..
  next
    assume "\<exists>q. ?Q q"
    then obtain q where q: "?Q q" ..
    then have "q = p" using hb.enc_inj enc by blast
    with q r' show "(s', evs) = note_hb s (PName p) from now \<and> r = r' \<and> dest = from" by simp
  qed
  finally show ?thesis using turn enc req by auto
next
  case False
  have none: "\<not> (\<exists>p. encode p (hb_key s) = Inr d \<and> \<not> Reply p)"
  proof
    assume "\<exists>p. encode p (hb_key s) = Inr d \<and> \<not> Reply p"
    then obtain p where p: "encode p (hb_key s) = Inr d" and "\<not> Reply p" by blast
    moreover from p have "take 2048 d = d" using hb.enc_size [OF p] by (simp add: packet_consts)
    ultimately show False using False hb.dec_enc by metis
  qed
  have "serve_datagram s d from now = (s, [], None)"
    using False by (auto simp: serve_datagram_def split: sum.split)
  with none show ?thesis by auto
qed

text \<open>
  C20. \<open>Last\<close> is exact: after any uninterrupted sequence of datagrams and checker ticks from
  a fresh server, it returns the instant and host of the latest authentic request under that
  name, and nothing for a name that never sent one.
\<close>

theorem Last_is_latest_beat:
  "Last (hb_run (NewServer key) ins) n = latest_beat (map byte_of_char key) n ins"
  by (simp add: Last_hb_run latest_beat_def) (simp add: Last_def NewServer_def)

text \<open>
  C19. What the heartbeat server decides of a client takes turns, and it reports what it decides.
  However the critical sections and callbacks of the receive loop and the checker interleave, the
  decisions made for any one client under the mutex alternate, a loss first: no client is decided
  lost twice in a row, none resumes that was not lost. And the callbacks are these decisions, each made
  once: the losses in the order they were decided, less those the checker has yet to report, and the
  resumptions in the order they were decided, less those the receive loop has yet to report. Between
  the two goroutines the order may differ, because the callbacks run outside the mutex.
\<close>

theorem callbacks_alternate:
  assumes "reach hb_sys_start hb_sys_step x"
  shows "alternating True (events_of n (sys_decided x))
       \<and> filter is_OnLost (sys_log x) @ sys_lost x = filter is_OnLost (sys_decided x)
       \<and> filter (\<lambda>e. \<not> is_OnLost e) (sys_log x) @ to_resume (sys_phase x)
           = filter (\<lambda>e. \<not> is_OnLost e) (sys_decided x)"
  using hb_sys.inv_reach [OF assms] by (simp add: hb_inv_def calls_ok_def lost_events_def resume_events_def)

lemma hb_step_keys: "keys_ok (hb_m s) \<Longrightarrow> keys_ok (hb_m (hb_step s i))"
proof (cases i)
  case (Datagram d addr now)
  assume k: "keys_ok (hb_m s)"
  have "keys_ok (hb_m (fst (note_hb s n a now)))" for n a
    using note_enter_frame [OF k, of n] note_commit_frame [of "note_enter s n" n "hostOf a" now]
    by (cases "note_commit (note_enter s n) n (hostOf a) now") (simp add: note_hb_def)
  with k Datagram show ?thesis
    by (auto simp: serve_datagram_def split: sum.split prod.split dest!: arg_cong [where f = fst])
next
  case (Tick now)
  assume "keys_ok (hb_m s)"
  with Tick show ?thesis by (simp add: check_def keys_map_values del: map_map)
qed

lemma hb_run_keys: "keys_ok (hb_m s) \<Longrightarrow> keys_ok (hb_m (hb_run s ins))"
  by (induction ins arbitrary: s) (simp_all add: hb_run_def hb_step_keys)

lemma hb_step_on_lost: "on_lost (hb_step s i) = on_lost s"
  by (cases i) (auto simp: serve_datagram_def check_fields note_hb_fields
      split: sum.splits prod.splits if_splits dest!: arg_cong [where f = fst])

lemma hb_run_on_lost: "on_lost (hb_run s ins) = on_lost s"
  by (induction ins arbitrary: s) (simp_all add: hb_run_def hb_step_on_lost)

lemma check_lost_iff:
  assumes "keys_ok (hb_m s)" and "on_lost s"
  shows "OnLost n ip ago \<in> set (snd (check s now)) \<longleftrightarrow>
     (\<exists>t. Last s n = Some (t, ip) \<and> LostAfter \<le> time_sub now t \<and> ago = time_sub now t \<and> alive_in s n)"
proof -
  have "OnLost n ip ago \<in> set (snd (check s now)) \<longleftrightarrow>
      (\<exists>v. (n, v) \<in> set (hb_m s) \<and> silent now v \<and> ip = seen_ip v \<and> ago = time_sub now (seen_at v))"
    using assms(2) by (auto simp: check_def image_iff)
  also have "\<dots> \<longleftrightarrow>
      (\<exists>v. get (hb_m s) n = Some v \<and> silent now v \<and> ip = seen_ip v \<and> ago = time_sub now (seen_at v))"
    using assms(1) by (simp add: map_of_eq_Some_iff)
  finally show ?thesis
    by (cases "get (hb_m s) n") (auto simp: Last_def silent_def alive_in_def)
qed

lemma check_alive_iff:
  "alive_in (fst (check s now)) n \<longleftrightarrow>
     alive_in s n \<and> \<not> (\<exists>t ip. Last s n = Some (t, ip) \<and> LostAfter \<le> time_sub now t)"
  by (auto simp: alive_in_def check_get Last_def silent_def split: option.splits if_splits)

lemma LostAfter_sub: "LostAfter \<le> time_sub t u \<longleftrightarrow> LostAfter \<le> t - u"
  by (rule time_sub_ge_iff) (simp_all add: LostAfter_def go_simps)

definition hb_started :: "string \<Rightarrow> hb_server" where
  "hb_started key = (NewServer key)\<lparr>on_lost := True, on_resume := True\<rparr>"

text \<open>
  C31. Loss reports are true and complete when \<open>note\<close> is not interrupted. After any sequence
  of inputs, a tick of the checker at \<open>now\<close> reports a client lost exactly when the client
  counts as alive and its latest beat is at least \<open>LostAfter\<close> old, with that beat's host and
  age; and after the tick no client with a beat that old counts as alive.
\<close>

theorem check_reports_silence:
  "(OnLost n ip ago \<in> set (snd (check (hb_run (hb_started key) ins) now)) \<longleftrightarrow>
      (\<exists>t. latest_beat (map byte_of_char key) n ins = Some (t, ip) \<and> LostAfter \<le> now - t \<and>
           ago = time_sub now t \<and> alive_in (hb_run (hb_started key) ins) n)) \<and>
   \<not> (\<exists>t host. latest_beat (map byte_of_char key) n ins = Some (t, host) \<and> LostAfter \<le> now - t \<and>
           alive_in (fst (check (hb_run (hb_started key) ins) now)) n)"
proof -
  let ?s = "hb_run (hb_started key) ins"
  have "hb_m (hb_started key) = []" "hb_key (hb_started key) = map byte_of_char key"
    "on_lost (hb_started key)"
    by (simp_all add: hb_started_def NewServer_def)
  moreover from this have "Last (hb_started key) n = None" by (simp add: Last_def)
  ultimately have "Last ?s n = latest_beat (map byte_of_char key) n ins" "keys_ok (hb_m ?s)" "on_lost ?s"
    by (simp_all add: Last_hb_run latest_beat_def hb_run_keys hb_run_on_lost)
  then show ?thesis by (simp add: check_lost_iff check_alive_iff LostAfter_sub) blast
qed

section \<open>The windows without the mutex\<close>

text \<open>
  The first heartbeat of a client, with the checker running between the two critical sections of
  \<open>note\<close>: the state before it, after the checker's decision, and after the second critical section.
\<close>

abbreviation race_name :: string where "race_name \<equiv> ''tk-a-web''"
abbreviation race_ip :: string where "race_ip \<equiv> ''10.0.0.1''"
abbreviation race_time :: gotime where "race_time \<equiv> 63871372800 * second"
abbreviation race_lost :: hb_event where "race_lost \<equiv> OnLost race_name '''' max_duration"
abbreviation race_resume :: hb_event where "race_resume \<equiv> OnResume race_name race_ip max_duration"

definition race_start :: hb_sys where
  "race_start =
     \<lparr>sys_srv = hb_started [], sys_phase = Idle, sys_lost = [], sys_clock = race_time,
      sys_decided = [], sys_log = []\<rparr>"

definition race_mid :: hb_sys where
  "race_mid = race_start
     \<lparr>sys_srv := (hb_started [])\<lparr>hb_m :=
        [(race_name, \<lparr>seen_at = zero_time, seen_ip = [], seen_alive = False\<rparr>)]\<rparr>,
      sys_phase := Inserted race_name race_ip race_time, sys_lost := [race_lost], sys_decided := [race_lost]\<rparr>"

definition race_both :: hb_sys where
  "race_both = race_start
     \<lparr>sys_srv := (hb_started [])\<lparr>hb_m :=
        [(race_name, \<lparr>seen_at = race_time, seen_ip = race_ip, seen_alive = True\<rparr>)]\<rparr>,
      sys_phase := Calling [race_resume], sys_lost := [race_lost], sys_decided := [race_lost, race_resume]\<rparr>"

definition race_end :: "hb_event list \<Rightarrow> hb_sys" where
  "race_end es = race_both\<lparr>sys_phase := Idle, sys_lost := [], sys_log := es\<rparr>"

lemma race_reach_mid: "reach (\<lambda>z. z = race_start) hb_sys_step race_mid"
proof -
  let ?s0 = "hb_started []"
  define p where "p = \<lparr>Reply = False, Seq = 1, TS = 0, PName = race_name\<rparr>"
  have "validName race_name" by (simp add: validName_def nameLen_def name_char_def)
  then have "encode p [] = Inr (head_bytes p @ sign [] (head_bytes p))" (is "_ = Inr ?d")
    by (simp add: encode_layout p_def)
  then have "take 2048 ?d = ?d" and "decode [] ?d = Inr p"
    using hb.enc_size [of p "[]" ?d] hb.dec_enc [of p "[]" ?d] by (simp_all add: packet_consts)
  then have dec: "decode (hb_key ?s0) (take 2048 ?d) = Inr p"
    by (simp add: hb_started_def NewServer_def)
  have host: "hostOf ''10.0.0.1:40000'' = race_ip"
    by (simp add: hostOf_def split_host_port_def last_index_byte_def Let_def)
  let ?x1 = "race_start\<lparr>sys_phase := Stamped race_name race_ip race_time\<rparr>"
  let ?x2 = "?x1\<lparr>sys_srv := note_enter ?s0 race_name, sys_phase := Inserted race_name race_ip race_time\<rparr>"
  have s1: "hb_sys_step race_start ?x1"
    using hb_sys_step.recv [of race_start ?d p "''10.0.0.1:40000''"] dec
    by (simp add: race_start_def p_def host)
  have s2: "hb_sys_step ?x1 ?x2"
    using hb_sys_step.enter_new [of ?x1 race_name race_ip race_time]
    by (simp add: race_start_def hb_started_def NewServer_def)
  have s3: "hb_sys_step ?x2 race_mid"
    using hb_sys_step.checker [of ?x2 "sys_srv race_mid" "[race_lost]"]
    by (simp add: race_start_def race_mid_def hb_started_def NewServer_def note_enter_def check_def silent_def
        LostAfter_def time_sub_def go_simps)
  have "reach (\<lambda>z. z = race_start) hb_sys_step race_start" by (rule reach_start) simp
  then show ?thesis using s1 s2 s3 by (meson reach_step)
qed

lemma race_reach_both: "reach (\<lambda>z. z = race_start) hb_sys_step race_both"
proof (rule reach_step [OF race_reach_mid])
  show "hb_sys_step race_mid race_both"
    using hb_sys_step.commit [of race_mid race_name race_ip race_time "sys_srv race_both" "[race_resume]"]
    by (simp add: race_start_def race_mid_def race_both_def hb_started_def NewServer_def
        note_commit_def then_call_def LostAfter_def time_sub_def go_simps)
qed

text \<open>From there the two callbacks may be made in either order.\<close>

lemma race_reach_end:
  assumes "es = [race_lost, race_resume] \<or> es = [race_resume, race_lost]"
  shows "reach (\<lambda>z. z = race_start) hb_sys_step (race_end es)"
proof -
  let ?l = "race_both\<lparr>sys_lost := [], sys_log := [race_lost]\<rparr>"
  let ?r = "race_both\<lparr>sys_phase := Idle, sys_log := [race_resume]\<rparr>"
  have "hb_sys_step race_both ?l" "hb_sys_step ?r (race_end [race_resume, race_lost])"
    using hb_sys_step.lost_call [of race_both race_lost "[]"] hb_sys_step.lost_call [of ?r race_lost "[]"]
    by (simp_all add: race_both_def race_start_def race_end_def)
  moreover have "hb_sys_step race_both ?r" "hb_sys_step ?l (race_end [race_lost, race_resume])"
    using hb_sys_step.resume_call [of race_both race_resume "[]"]
      hb_sys_step.resume_call [of ?l race_resume "[]"]
    by (simp_all add: race_both_def race_start_def race_end_def then_call_def)
  ultimately show ?thesis using assms race_reach_both by (meson reach_step)
qed

lemma race_starts: "hb_sys_start race_start"
  by (simp add: race_start_def hb_sys_start_def hb_started_def NewServer_def)

text \<open>
  The window between the two critical sections of \<open>note\<close> is observable: there is an
  interleaving, in which no time passes at all, where the very first heartbeat of a client
  makes the server report that client lost, silent for the longest \<open>Duration\<close> there is,
  and then resumed.
\<close>

lemma first_beat_spurious_loss:
  "\<exists>x y. hb_sys_start x \<and> reach (\<lambda>z. z = x) hb_sys_step y \<and> sys_clock y = sys_clock x \<and>
         sys_log y = [OnLost ''tk-a-web'' '''' max_duration,
                      OnResume ''tk-a-web'' ''10.0.0.1'' max_duration]"
  using race_reach_end race_starts
  by (intro exI [of _ race_start] exI [of _ "race_end [race_lost, race_resume]"])
    (simp add: race_end_def race_both_def race_start_def)

text \<open>
  The windows after the critical sections are too: the resumption can be reported before the loss it
  answers, so that the last thing reported of a client whose beats arrive is that it is lost.
\<close>

lemma resume_reported_before_loss:
  "\<exists>x y. hb_sys_start x \<and> reach (\<lambda>z. z = x) hb_sys_step y \<and> alive_in (sys_srv y) ''tk-a-web'' \<and>
         sys_lost y = [] \<and> sys_phase y = Idle \<and>
         sys_log y = [OnResume ''tk-a-web'' ''10.0.0.1'' max_duration,
                      OnLost ''tk-a-web'' '''' max_duration]"
  using race_reach_end race_starts
  by (intro exI [of _ race_start] exI [of _ "race_end [race_resume, race_lost]"])
    (simp add: race_end_def race_both_def race_start_def alive_in_def)

theorem callbacks_alternate_witness:
  "reach hb_sys_start hb_sys_step race_both \<and>
   alternating True (events_of ''tk-a-web'' (sys_decided race_both)) \<and> length (sys_decided race_both) = 2"
proof -
  have "reach hb_sys_start hb_sys_step race_both"
    by (rule reach_mono [OF race_reach_both]) (simp add: race_starts)
  then have "reach hb_sys_start hb_sys_step race_both \<and>
      alternating True (events_of ''tk-a-web'' (sys_decided race_both))"
    using callbacks_alternate [of race_both] by simp
  moreover have "length (sys_decided race_both) = 2" by (simp add: race_both_def)
  ultimately show ?thesis by simp
qed

end
