(* ===== verification/Heartbeat_Client.thy ===== *)
theory Heartbeat_Client
  imports Heartbeat_Server
begin

text \<open>
  The sending end of the heartbeat, \<open>RunClient\<close> of \<open>internal/heartbeat/client.go\<close>: one
  beat per interval, the replies that arrive while waiting, and after each interval the
  beats given up as lost. Dialling and writing are outcomes given to the steps; a step
  returns the datagram sent, the outcomes recorded and what is reported to the metrics.
\<close>

section \<open>State\<close>

definition missedBeforeWarn :: int where "missedBeforeWarn = 3"
definition window :: nat where "window = 30"
definition replyWait :: duration where "replyWait = 5 * second"

record hb_client =
  hc_conn :: bool
  hc_seq :: u32
  hc_sent :: "(u32 \<times> gotime) list"
  hc_hist :: "bool list"
  hc_missed :: int
  hc_downFrom :: gotime
  hc_lastRTT :: duration

definition hc_start :: hb_client where
  "hc_start = \<lparr>hc_conn = False, hc_seq = 0, hc_sent = [], hc_hist = [], hc_missed = 0,
               hc_downFrom = zero_time, hc_lastRTT = 0\<rparr>"

text \<open>The interval used, or \<open>None\<close> when the name is not valid and the client does not run.\<close>

definition client_interval :: "string \<Rightarrow> duration \<Rightarrow> duration option" where
  "client_interval name interval =
     (if \<not> validName name then None else Some (if interval \<le> 0 then 10 * second else interval))"

definition hc_record :: "hb_client \<Rightarrow> bool \<Rightarrow> hb_client" where
  "hc_record s ok = s\<lparr>hc_hist := push_window window (hc_hist s) ok\<rparr>"

definition hc_loss :: "hb_client \<Rightarrow> rat" where
  "hc_loss s = 100 * of_nat (length (filter Not (hc_hist s))) / of_nat (length (hc_hist s))"

text \<open>A call of \<open>SetUDP\<close>, with the length of the history its percentage was divided by.\<close>

record report =
  rp_ok :: bool
  rp_rtt :: duration
  rp_loss :: rat
  rp_over :: nat

definition report_of :: "bool \<Rightarrow> hb_client \<Rightarrow> report" where
  "report_of ok s = \<lparr>rp_ok = ok, rp_rtt = hc_lastRTT s, rp_loss = hc_loss s, rp_over = length (hc_hist s)\<rparr>"

record hc_out =
  ho_dgram :: "byte list list"
  ho_outcomes :: "bool list"
  ho_reports :: "report list"

definition no_out :: hc_out where
  "no_out = \<lparr>ho_dgram = [], ho_outcomes = [], ho_reports = []\<rparr>"

section \<open>Steps\<close>

text \<open>\<open>dial\<close>: an old connection is closed first, so that afterwards there is one only if dialling worked.\<close>

definition hc_dial :: "hb_client \<Rightarrow> bool \<Rightarrow> hb_client" where
  "hc_dial s dial_ok = s\<lparr>hc_conn := dial_ok\<rparr>"

declare hc_dial_def [simp]

text \<open>
  The top of the loop at \<open>now\<close>: re-dial if needed, and send a beat when there is a
  connection. \<open>TS\<close> counts from 1970.
\<close>

definition unix_nano :: "gotime \<Rightarrow> u64" where
  "unix_nano t = word_of_int (t - 62135596800 * second)"

definition hc_beat ::
  "byte list \<Rightarrow> string \<Rightarrow> hb_client \<Rightarrow> bool \<Rightarrow> bool \<Rightarrow> gotime \<Rightarrow> hb_client \<times> hc_out" where
  "hc_beat key name s dial_ok write_ok now =
     (let s = (if hc_conn s then s else hc_dial s dial_ok) in
      if \<not> hc_conn s then (s, no_out)
      else
        let s = s\<lparr>hc_seq := hc_seq s + 1\<rparr> in
        (case encode \<lparr>Reply = False, Seq = hc_seq s, TS = unix_nano now, PName = name\<rparr> key of
           Inl _ \<Rightarrow> (s, no_out)
         | Inr b \<Rightarrow>
             (s\<lparr>hc_sent := put (hc_seq s) now (hc_sent s), hc_conn := write_ok\<rparr>,
              no_out\<lparr>ho_dgram := [b]\<rparr>)))"

text \<open>The reader: the sequence number of an authentic reply to this client.\<close>

definition accept_reply :: "byte list \<Rightarrow> string \<Rightarrow> byte list \<Rightarrow> u32 option" where
  "accept_reply key name buf =
     (case decode key (take 2048 buf) of
        Inl _ \<Rightarrow> None
      | Inr p \<Rightarrow> (if Reply p \<and> PName p = name then Some (Seq p) else None))"

text \<open>
  The reader of a connection puts what it accepts, and when, in a channel of 16 entries, and
  drops it when the channel is full.
\<close>

definition replies_cap :: nat where "replies_cap = 16"

definition hc_read ::
  "byte list \<Rightarrow> string \<Rightarrow> (u32 \<times> gotime) list \<Rightarrow> byte list \<Rightarrow> gotime \<Rightarrow> (u32 \<times> gotime) list" where
  "hc_read key name q buf now =
     (case accept_reply key name buf of
        None \<Rightarrow> q
      | Some s \<Rightarrow> if length q < replies_cap then q @ [(s, now)] else q)"

lemma hc_read_bounded: "length q \<le> replies_cap \<Longrightarrow> length (hc_read key name q buf now) \<le> replies_cap"
  by (auto simp: hc_read_def replies_cap_def split: option.split)

definition hc_reply :: "hb_client \<Rightarrow> u32 \<Rightarrow> gotime \<Rightarrow> hb_client \<times> hc_out" where
  "hc_reply s seq rat =
     (case get (hc_sent s) seq of
        None \<Rightarrow> (s, no_out)
      | Some t0 \<Rightarrow>
          (let s = s\<lparr>hc_sent := AList.delete seq (hc_sent s), hc_lastRTT := time_sub rat t0\<rparr>;
               s = (hc_record s True)\<lparr>hc_missed := 0\<rparr>
           in (s, no_out\<lparr>ho_outcomes := [True], ho_reports := [report_of True s]\<rparr>)))"

text \<open>One beat given up.\<close>

definition hc_lose :: "hb_client \<Rightarrow> u32 \<Rightarrow> gotime \<Rightarrow> hb_client" where
  "hc_lose s q t =
     (let s = hc_record (s\<lparr>hc_sent := AList.delete q (hc_sent s)\<rparr>) False;
          s = s\<lparr>hc_missed := hc_missed s + 1\<rparr>
      in if hc_missed s = missedBeforeWarn then s\<lparr>hc_downFrom := t\<rparr> else s)"

fun hc_expire :: "gotime \<Rightarrow> (u32 \<times> gotime) list \<Rightarrow> hb_client \<Rightarrow> hb_client \<times> bool list \<times> report list" where
  "hc_expire now [] s = (s, [], [])"
| "hc_expire now ((q, t) # es) s =
     (if replyWait \<le> time_sub now t \<and> q \<noteq> hc_seq s then
        let s = hc_lose s q t; (s', os, rs) = hc_expire now es s
        in (s', False # os, report_of (hc_missed s < missedBeforeWarn) s # rs)
      else hc_expire now es s)"

definition hc_deadline :: "hb_client \<Rightarrow> gotime \<Rightarrow> hb_client \<times> hc_out" where
  "hc_deadline s now =
     (let (s', os, rs) = hc_expire now (hc_sent s) s
      in (s', no_out\<lparr>ho_outcomes := os, ho_reports := rs\<rparr>))"

datatype hc_event = Beat bool bool gotime | Got u32 gotime | Deadline gotime

fun hc_step :: "byte list \<Rightarrow> string \<Rightarrow> hb_client \<Rightarrow> hc_event \<Rightarrow> hb_client \<times> hc_out" where
  "hc_step key name s (Beat dial_ok write_ok now) = hc_beat key name s dial_ok write_ok now"
| "hc_step key name s (Got seq rat) = hc_reply s seq rat"
| "hc_step key name s (Deadline now) = hc_deadline s now"

fun hc_run :: "byte list \<Rightarrow> string \<Rightarrow> hb_client \<Rightarrow> hc_event list \<Rightarrow> hb_client \<times> hc_out" where
  "hc_run key name s [] = (s, no_out)"
| "hc_run key name s (e # es) =
     (let (s1, o1) = hc_step key name s e; (s2, o2) = hc_run key name s1 es
      in (s2, \<lparr>ho_dgram = ho_dgram o1 @ ho_dgram o2, ho_outcomes = ho_outcomes o1 @ ho_outcomes o2,
               ho_reports = ho_reports o1 @ ho_reports o2\<rparr>))"

interpretation hb_window: bounded_log window hc_record hc_hist "\<lambda>ok. [ok]"
  by unfold_locales (simp add: hc_record_def window_simps)

section \<open>The account of the beats\<close>

text \<open>The losses since the last answered beat.\<close>

definition trailing :: "bool list \<Rightarrow> int" where
  "trailing os = int (length (takeWhile Not (rev os)))"

text \<open>
  After \<open>n\<close> datagrams, with the outcomes \<open>os\<close>: every beat is answered, lost or outstanding,
  and the history and the count of misses are functions of the outcomes.
\<close>

definition hc_ok :: "hb_client \<Rightarrow> nat \<Rightarrow> bool list \<Rightarrow> bool" where
  "hc_ok s n os \<longleftrightarrow>
     keys_ok (hc_sent s) \<and> length os + length (hc_sent s) = n
     \<and> (\<forall>q \<in> set (map fst (hc_sent s)). q \<le> hc_seq s)
     \<and> hc_hist s = keep_last window os \<and> hc_missed s = trailing os"

lemma trailing_snoc [simp]:
  "trailing [] = 0" "trailing (os @ [True]) = 0" "trailing (os @ [False]) = trailing os + 1"
  by (simp_all add: trailing_def)

lemma length_filter_key:
  "keys_ok m \<Longrightarrow> k \<in> set (map fst m) \<Longrightarrow> Suc (length (filter (\<lambda>p. k \<noteq> fst p) m)) = length m"
proof (induction m)
  case (Cons p m)
  show ?case
  proof (cases "k = fst p")
    case True
    with Cons.prems(1) have "k \<notin> fst ` set m" by simp
    then have "\<forall>p \<in> set m. k \<noteq> fst p" by blast
    then have "filter (\<lambda>p. k \<noteq> fst p) m = m" by (rule filter_True)
    with True show ?thesis by simp
  next
    case False
    with Cons.prems have "k \<in> set (map fst m)" "keys_ok m" by simp_all
    with False Cons.IH show ?thesis by simp
  qed
qed simp

lemma length_delete: "keys_ok m \<Longrightarrow> get m k \<noteq> None \<Longrightarrow> Suc (length (AList.delete k m)) = length m"
  using length_filter_key [of m k]
  by (simp add: AList.delete_eq case_prod_unfold map_of_eq_None_iff)

lemma length_update_fresh: "k \<notin> set (map fst m) \<Longrightarrow> length (put k v m) = Suc (length m)"
  by (induction m) auto

lemma keys_delete: "set (map fst (AList.delete k m)) \<subseteq> set (map fst m)"
  by (auto simp: AList.delete_eq)

lemma keys_ok_delete: "keys_ok m \<Longrightarrow> keys_ok (AList.delete k m)"
  by (simp add: AList.delete_eq distinct_map_filter)

lemma hist_record:
  "hc_hist s = keep_last window os \<Longrightarrow> hc_hist (hc_record s ok) = keep_last window (os @ [ok])"
  by (simp add: hc_record_def window_simps keep_last_append)

lemma hc_ok_settle:
  assumes "hc_ok s n os" and "get (hc_sent s) q \<noteq> None"
    and "hc_sent s' = AList.delete q (hc_sent s)" "hc_seq s' = hc_seq s"
    and "hc_hist s' = keep_last window (os @ [ok])" "hc_missed s' = trailing (os @ [ok])"
  shows "hc_ok s' n (os @ [ok])"
proof -
  have "\<forall>r \<in> set (map fst (hc_sent s')). r \<le> hc_seq s'"
  proof
    fix r assume "r \<in> set (map fst (hc_sent s'))"
    then have "r \<in> set (map fst (hc_sent s))"
      unfolding assms(3) by (rule subsetD [OF keys_delete])
    with assms(1,4) show "r \<le> hc_seq s'" by (auto simp: hc_ok_def)
  qed
  moreover have "length (os @ [ok]) + length (hc_sent s') = n"
    using assms(1-3) length_delete [of "hc_sent s" q] unfolding hc_ok_def by simp
  ultimately show ?thesis
    using assms keys_ok_delete [of "hc_sent s" q] unfolding hc_ok_def by simp
qed

lemma hc_ok_reply:
  assumes "hc_ok s n os"
  shows "hc_ok (fst (hc_reply s q t)) n (os @ ho_outcomes (snd (hc_reply s q t)))"
proof (cases "get (hc_sent s) q")
  case None
  with assms show ?thesis by (simp add: hc_reply_def no_out_def)
next
  case (Some t0)
  have h: "hc_hist s = keep_last window os" using assms by (simp add: hc_ok_def)
  have "hc_ok (fst (hc_reply s q t)) n (os @ [True])"
    using Some assms h
    by (intro hc_ok_settle [of s n os q])
      (simp_all add: hc_reply_def Let_def hc_record_def window_simps keep_last_append)
  with Some show ?thesis by (simp add: hc_reply_def Let_def no_out_def)
qed

lemma hc_ok_lose:
  assumes "hc_ok s n os" and "get (hc_sent s) q \<noteq> None"
  shows "hc_ok (hc_lose s q t) n (os @ [False])"
  using assms
  by (intro hc_ok_settle [of s n os q])
    (simp_all add: hc_lose_def Let_def hc_record_def window_simps keep_last_append hc_ok_def)

lemma hc_lose_sent: "hc_sent (hc_lose s q t) = AList.delete q (hc_sent s)"
  by (simp add: hc_lose_def Let_def hc_record_def)

lemma hc_ok_expire:
  "hc_ok s n os \<Longrightarrow> keys_ok es \<Longrightarrow> \<forall>q \<in> set (map fst es). get (hc_sent s) q \<noteq> None \<Longrightarrow>
     hc_expire now es s = (s', os', rs) \<Longrightarrow> hc_ok s' n (os @ os')"
proof (induction es arbitrary: s os s' os' rs)
  case (Cons e es)
  obtain q t where e: "e = (q, t)" by (cases e)
  show ?case
  proof (cases "replyWait \<le> time_sub now t \<and> q \<noteq> hc_seq s")
    case False
    with Cons e show ?thesis by auto
  next
    case True
    obtain os2 rs2 where r: "hc_expire now es (hc_lose s q t) = (s', os2, rs2)" and os': "os' = False # os2"
      using Cons.prems(4) True by (auto simp: e Let_def split: prod.splits)
    have "hc_ok (hc_lose s q t) n (os @ [False])"
      using Cons.prems by (intro hc_ok_lose) (auto simp: e)
    moreover have "\<forall>r \<in> set (map fst es). get (hc_sent (hc_lose s q t)) r \<noteq> None"
      using Cons.prems by (auto simp: e hc_lose_sent delete_conv')
    moreover have "keys_ok es" using Cons.prems(2) by (simp add: e)
    ultimately have "hc_ok s' n ((os @ [False]) @ os2)"
      using r Cons.IH [of "hc_lose s q t" "os @ [False]" s' os2 rs2] by blast
    then show ?thesis by (simp add: os')
  qed
qed simp

lemma hc_ok_deadline:
  assumes "hc_ok s n os"
  shows "hc_ok (fst (hc_deadline s now)) n (os @ ho_outcomes (snd (hc_deadline s now)))"
proof -
  obtain s' os' rs where r: "hc_expire now (hc_sent s) s = (s', os', rs)"
    by (cases "hc_expire now (hc_sent s) s") auto
  have "hc_ok s' n (os @ os')"
    using assms r by (intro hc_ok_expire [of s n os "hc_sent s" now]) (auto simp: hc_ok_def map_of_eq_None_iff)
  with r show ?thesis by (simp add: hc_deadline_def no_out_def)
qed

lemma hc_ok_beat:
  assumes ok: "hc_ok s n os" and room: "unat (hc_seq s) + 1 < 2 ^ 32" and valid: "validName name"
  shows "hc_ok (fst (hc_beat key name s d w now)) (n + length (ho_dgram (snd (hc_beat key name s d w now)))) os
       \<and> ho_outcomes (snd (hc_beat key name s d w now)) = []
       \<and> (hc_seq (fst (hc_beat key name s d w now)) = hc_seq s
          \<or> hc_seq (fst (hc_beat key name s d w now)) = hc_seq s + 1)"
proof (cases "hc_conn s \<or> d")
  case False
  with ok show ?thesis by (auto simp: hc_beat_def hc_ok_def no_out_def)
next
  case True
  have "unat (hc_seq s + 1) = unat (hc_seq s) + 1" using room by (simp add: unat_word_ariths)
  then have lt: "hc_seq s < hc_seq s + 1" by (simp add: word_less_nat_alt)
  have le: "\<forall>q \<in> set (map fst (hc_sent s)). q \<le> hc_seq s" using ok by (simp add: hc_ok_def)
  then have fresh: "hc_seq s + 1 \<notin> set (map fst (hc_sent s))"
    using lt by (meson leD)
  have "q \<le> hc_seq s + 1" if "q \<in> set (map fst (hc_sent s))" for q
    using that le lt by (meson less_imp_le order_trans)
  then have keys: "\<forall>q \<in> set (map fst (put (hc_seq s + 1) now (hc_sent s))). q \<le> hc_seq s + 1"
    by (simp add: dom_update)
  obtain b where enc: "encode \<lparr>Reply = False, Seq = hc_seq s + 1, TS = unix_nano now, PName = name\<rparr> key = Inr b"
    using valid by (auto simp: encode_Inr)
  have res: "hc_beat key name s d w now =
      ((if hc_conn s then s else s\<lparr>hc_conn := d\<rparr>)\<lparr>hc_seq := hc_seq s + 1,
          hc_sent := put (hc_seq s + 1) now (hc_sent s), hc_conn := w\<rparr>, no_out\<lparr>ho_dgram := [b]\<rparr>)"
    using True enc by (auto simp: hc_beat_def Let_def)
  have "hc_ok (fst (hc_beat key name s d w now)) (Suc n) os"
    using ok keys length_update_fresh [OF fresh, of now] keys_ok_put [of "hc_sent s"]
    unfolding res hc_ok_def by auto
  then show ?thesis by (simp add: res no_out_def)
qed

lemma hc_lose_seq: "hc_seq (hc_lose s q t) = hc_seq s"
  by (simp add: hc_lose_def Let_def hc_record_def)

lemma hc_expire_seq: "hc_seq (fst (hc_expire now es s)) = hc_seq s"
proof (induction es arbitrary: s)
  case (Cons e es)
  show ?case using Cons.IH [of s] Cons.IH [of "hc_lose s (fst e) (snd e)"]
    by (cases e; cases "hc_expire now es (hc_lose s (fst e) (snd e))") (simp add: hc_lose_seq Let_def)
qed simp

lemma hc_seq_other:
  "hc_seq (fst (hc_reply s q t)) = hc_seq s" "hc_seq (fst (hc_deadline s now)) = hc_seq s"
  using hc_expire_seq [of now "hc_sent s" s]
  by (auto simp: hc_reply_def hc_deadline_def Let_def hc_record_def split: option.split prod.split)

lemma hc_run_ok:
  "hc_ok s n os \<Longrightarrow> validName name \<Longrightarrow> unat (hc_seq s) + length (filter (\<lambda>e. \<exists>d w t. e = Beat d w t) es) < 2 ^ 32 \<Longrightarrow>
     hc_run key name s es = (s', r) \<Longrightarrow>
     hc_ok s' (n + length (ho_dgram r)) (os @ ho_outcomes r)"
proof (induction es arbitrary: s n os r)
  case Nil
  then show ?case by (auto simp: no_out_def)
next
  case (Cons e es)
  obtain s1 o1 where st: "hc_step key name s e = (s1, o1)" by (cases "hc_step key name s e")
  obtain r2 where run: "hc_run key name s1 es = (s', r2)"
    and r: "ho_dgram r = ho_dgram o1 @ ho_dgram r2" "ho_outcomes r = ho_outcomes o1 @ ho_outcomes r2"
    using Cons.prems(4) st by (auto split: prod.splits)
  have "hc_ok s1 (n + length (ho_dgram o1)) (os @ ho_outcomes o1)
      \<and> unat (hc_seq s1) + length (filter (\<lambda>e. \<exists>d w t. e = Beat d w t) es) < 2 ^ 32"
  proof (cases e)
    case (Beat d w t)
    have room: "unat (hc_seq s) + 1 < 2 ^ 32" using Cons.prems(3) Beat by simp
    then have one: "unat (hc_seq s + 1) = unat (hc_seq s) + 1"
      by (simp add: unat_word_ariths)
    have b: "hc_beat key name s d w t = (s1, o1)" using st Beat by simp
    have "hc_ok s1 (n + length (ho_dgram o1)) os" "ho_outcomes o1 = []"
      "hc_seq s1 = hc_seq s \<or> hc_seq s1 = hc_seq s + 1"
      using hc_ok_beat [OF Cons.prems(1) room Cons.prems(2), of key d w t] by (simp_all add: b)
    moreover from this(3) one have "unat (hc_seq s1) \<le> unat (hc_seq s) + 1" by auto
    ultimately show ?thesis using Cons.prems(3) Beat by simp
  next
    case (Got q t)
    then have b: "hc_reply s q t = (s1, o1)" using st by simp
    have "ho_dgram o1 = []"
      using b by (auto simp: hc_reply_def no_out_def Let_def split: option.splits)
    then show ?thesis
      using hc_ok_reply [OF Cons.prems(1), of q t] hc_seq_other(1) [of s q t] Cons.prems(3) Got
      by (simp add: b)
  next
    case (Deadline t)
    then have b: "hc_deadline s t = (s1, o1)" using st by simp
    have "ho_dgram o1 = []" using b by (auto simp: hc_deadline_def no_out_def split: prod.splits)
    then show ?thesis
      using hc_ok_deadline [OF Cons.prems(1), of t] hc_seq_other(2) [of s t] Cons.prems(3) Deadline
      by (simp add: b)
  qed
  then show ?case using Cons.IH [of s1 "n + length (ho_dgram o1)" "os @ ho_outcomes o1" r2] run r Cons.prems(2)
    by (simp add: add.assoc)
qed

section \<open>Properties\<close>

lemma hc_ok_start: "hc_ok hc_start 0 []"
  by (simp add: hc_ok_def hc_start_def keep_last_def)

text \<open>
  C21. The client's view of the path is a function of what happened to its beats: as long as
  the sequence numbers have not wrapped around, every datagram sent is counted exactly once
  as answered or lost or is still outstanding, whatever the order, lateness or duplication of
  the replies; the history is that of the last 30 outcomes, and the count that decides
  whether the path is reported down is the number of losses since the last answer.
\<close>

theorem every_beat_is_accounted:
  assumes "hc_run key name hc_start es = (s, r)" and "validName name"
    and "length (filter (\<lambda>e. \<exists>d w t. e = Beat d w t) es) < 2 ^ 32"
  shows "length (ho_outcomes r) + length (hc_sent s) = length (ho_dgram r)
       \<and> hc_hist s = keep_last 30 (ho_outcomes r)
       \<and> hc_missed s = int (length (takeWhile Not (rev (ho_outcomes r))))"
  using hc_run_ok [OF hc_ok_start assms(2) _ assms(1)] assms(3)
  by (simp add: hc_ok_def trailing_def window_def hc_start_def)

theorem every_beat_is_accounted_witness:
  "\<exists>s r. hc_run [1, 2] ''tk-a-web'' hc_start
         [Beat True True (60 * second), Got 1 (61 * second), Got 1 (62 * second), Deadline (70 * second),
          Beat True True (70 * second), Deadline (80 * second), Beat False False (80 * second)] = (s, r)
   \<and> length (ho_outcomes r) + length (hc_sent s) = length (ho_dgram r) \<and> ho_outcomes r = [True]"
proof -
  let ?es = "[Beat True True (60 * second), Got 1 (61 * second), Got 1 (62 * second),
    Deadline (70 * second), Beat True True (70 * second), Deadline (80 * second),
    Beat False False (80 * second)]"
  have v: "validName ''tk-a-web''" by (simp add: validName_def nameLen_def name_char_def)
  obtain s r where run: "hc_run [1, 2] ''tk-a-web'' hc_start ?es = (s, r)" by fastforce
  have "length (ho_outcomes r) + length (hc_sent s) = length (ho_dgram r)"
    using every_beat_is_accounted [OF run v] by simp
  moreover have "ho_outcomes r = [True]"
    using run v
    by (auto simp: hc_start_def hc_beat_def encode_layout hc_reply_def hc_deadline_def no_out_def
        hc_record_def window_simps keep_last_def window_def Let_def split: sum.splits)
  ultimately show ?thesis using run by blast
qed

definition report_sane :: "report \<Rightarrow> bool" where
  "report_sane rp \<longleftrightarrow> 0 < rp_over rp \<and> rp_over rp \<le> 30 \<and> 0 \<le> rp_loss rp \<and> rp_loss rp \<le> 100"

lemma report_sane_record:
  assumes "hc_hist s = push_window window h ok"
  shows "report_sane (report_of b s)"
proof -
  have len: "length (hc_hist s) = min 30 (Suc (length h))"
    using assms by (simp add: window_simps window_def)
  have "length (filter Not (hc_hist s)) \<le> length (hc_hist s)" by simp
  then have "(of_nat (length (filter Not (hc_hist s))) :: rat) \<le> of_nat (length (hc_hist s))"
    by (simp only: of_nat_le_iff)
  with len show ?thesis
    by (simp add: report_sane_def report_of_def hc_loss_def pos_divide_le_eq del: of_nat_le_iff)
qed

lemma reports_expire: "list_all report_sane (snd (snd (hc_expire now es s)))"
proof (induction es arbitrary: s)
  case (Cons e es)
  have h: "hc_hist (hc_lose s q t) = push_window window (hc_hist s) False" for q t
    by (simp add: hc_lose_def Let_def hc_record_def)
  show ?case
    using Cons.IH [of s] Cons.IH [of "hc_lose s (fst e) (snd e)"] report_sane_record [OF h]
    by (cases e; cases "hc_expire now es (hc_lose s (fst e) (snd e))") (simp add: Let_def)
qed simp

lemma reports_step: "list_all report_sane (ho_reports (snd (hc_step key name s e)))"
proof (cases e)
  case (Beat d w t)
  then show ?thesis by (auto simp: hc_beat_def Let_def no_out_def split: sum.split)
next
  case (Got q t)
  then show ?thesis
    by (auto simp: hc_reply_def Let_def no_out_def hc_record_def intro!: report_sane_record
        split: option.split)
next
  case (Deadline t)
  then show ?thesis using reports_expire [of t "hc_sent s" s]
    by (cases "hc_expire t (hc_sent s) s") (simp add: hc_deadline_def no_out_def)
qed

lemma reports_run: "list_all report_sane (ho_reports (snd (hc_run key name s es)))"
proof (induction es arbitrary: s)
  case (Cons e es)
  show ?case
    using reports_step [of key name s e] Cons.IH [of "fst (hc_step key name s e)"]
    by (cases "hc_step key name s e"; cases "hc_run key name (fst (hc_step key name s e)) es") simp
qed (simp add: no_out_def)

text \<open>
  C37. What is reported makes sense: in every run each report's loss is a percentage between 0
  and 100 over at least one and at most 30 beats, so the division is never by zero.
\<close>

theorem reported_loss_is_a_percentage:
  "list_all (\<lambda>rp. 0 < rp_over rp \<and> rp_over rp \<le> 30 \<and> 0 \<le> rp_loss rp \<and> rp_loss rp \<le> 100)
     (ho_reports (snd (hc_run key name s es)))"
  using reports_run [of key name s es] by (simp add: report_sane_def [abs_def])

lemma small_packet: "encode p key = Inr b \<Longrightarrow> take 2048 b = b"
  using encode_length [of p key b] by (simp add: packet_consts)

lemma echo_of_request:
  assumes "encode p key = Inr b" and "\<not> Reply p"
  shows "\<exists>srv' evs rep. serve_datagram (srv\<lparr>hb_key := key\<rparr>) b from t = (srv', evs, Some (rep, from))
           \<and> accept_reply key (PName p) rep = Some (Seq p)"
proof -
  let ?q = "\<lparr>Reply = True, Seq = Seq p, TS = TS p, PName = PName p\<rparr>"
  have d: "decode key (take 2048 b) = Inr p"
    using assms(1) by (simp add: small_packet decode_iff_encode)
  have "validName (PName p)" using assms(1) by (simp add: encode_Inr)
  then obtain rep where rep: "encode ?q key = Inr rep" by (auto simp: encode_Inr)
  then have "decode key (take 2048 rep) = Inr ?q" by (simp add: small_packet decode_iff_encode)
  then have "accept_reply key (PName p) rep = Some (Seq p)" by (simp add: accept_reply_def)
  with d rep assms(2) show ?thesis by (simp add: serve_datagram_def split: prod.split)
qed

lemma beat_datagram:
  "b \<in> set (ho_dgram (snd (hc_beat key name s d w now))) \<Longrightarrow>
     encode \<lparr>Reply = False, Seq = hc_seq (fst (hc_beat key name s d w now)), TS = unix_nano now, PName = name\<rparr> key
       = Inr b"
  by (auto simp: hc_beat_def Let_def no_out_def split: sum.splits if_splits)

text \<open>
  C22. Client and server agree. Every beat the client sends is echoed by a server with the
  same key, to where it came from and without regard to what the server has seen before, and
  the client takes that echo as the reply to that beat.
\<close>

theorem echo_answers_the_beat:
  "list_all (\<lambda>b. \<exists>srv' evs rep.
       serve_datagram (srv\<lparr>hb_key := key\<rparr>) b from now' = (srv', evs, Some (rep, from))
       \<and> accept_reply key name rep = Some (hc_seq (fst (hc_beat key name s d w now))))
     (ho_dgram (snd (hc_beat key name s d w now)))"
  unfolding list_all_iff
proof
  fix b assume "b \<in> set (ho_dgram (snd (hc_beat key name s d w now)))"
  from echo_of_request [OF beat_datagram [OF this], of srv "from" now']
  show "\<exists>srv' evs rep.
       serve_datagram (srv\<lparr>hb_key := key\<rparr>) b from now' = (srv', evs, Some (rep, from))
       \<and> accept_reply key name rep = Some (hc_seq (fst (hc_beat key name s d w now)))"
    by simp
qed

end
