(* ===== verification/Server_Run.thy ===== *)
theory Server_Run
  imports Auth
begin

text \<open>
  What the tunnel server does around its sessions, \<open>internal/tunnelserver/server.go\<close>: the tunables,
  the host key it loads or creates, the callback that turns a key into permissions, and the
  keepalive of a session over the times its probes are sent and answered.
\<close>

section \<open>Tunables\<close>

record tunables =
  KeepaliveInterval :: duration
  KeepaliveTimeout :: duration
  EvictWait :: duration
  HandshakeTimeout :: duration

definition tun :: tunables where
  "tun = \<lparr>KeepaliveInterval = 20 * second, KeepaliveTimeout = 30 * second, EvictWait = 5 * second,
          HandshakeTimeout = 15 * second\<rparr>"

text \<open>The new value, and what the returned function restores.\<close>

definition setTunables :: "(tunables \<Rightarrow> tunables) \<Rightarrow> tunables \<Rightarrow> tunables \<times> (tunables \<Rightarrow> tunables)" where
  "setTunables f old = (f old, \<lambda>_. old)"

text \<open>A snapshot under the read lock.\<close>

definition getTunables :: "tunables \<Rightarrow> tunables" where
  "getTunables t = t"

section \<open>Waiting for the evicted session\<close>

text \<open>
  The end of \<open>register\<close>: \<open>ended\<close> is how long after its connection was closed the old session is done,
  if ever; no session is waited for when there was none, or it is the same. The result is how long \<open>register\<close>
  takes, and whether the ports are known to be free.
\<close>

definition evict_wait :: "tunables \<Rightarrow> bool \<Rightarrow> duration option \<Rightarrow> duration \<times> bool" where
  "evict_wait tn stale ended =
     (if \<not> stale then (0, True)
      else
        let ew = EvictWait (getTunables tn) in
        case ended of
          None \<Rightarrow> (ew, False)
        | Some d \<Rightarrow> if d < ew then (d, True) else (ew, False))"

text \<open>A reconnecting client is not held up for more than five seconds by the session it replaces.\<close>

lemma evict_wait_bounded:
  assumes "case ended of None \<Rightarrow> True | Some d \<Rightarrow> 0 \<le> d"
  shows "0 \<le> fst (evict_wait tun stale ended)" "fst (evict_wait tun stale ended) \<le> 5 * second"
    "snd (evict_wait tun True ended) \<longleftrightarrow> (\<exists>d. ended = Some d \<and> d < 5 * second)"
  using assms by (auto simp: evict_wait_def getTunables_def Let_def tun_def second_def split: option.splits)

section \<open>The host key\<close>

text \<open>
  \<open>file\<close> is the content of the key file if it can be read; \<open>gen\<close> and \<open>marshal\<close> are the fresh key and
  its encoding, if they succeed. The result is the signer, and what is written to the file.
\<close>

definition loadOrCreateHostKey ::
  "(string \<Rightarrow> 's option) \<Rightarrow> ('p \<Rightarrow> 's option) \<Rightarrow> 'p option \<Rightarrow> ('p \<Rightarrow> string option) \<Rightarrow> string \<Rightarrow>
     string option \<Rightarrow> 's option \<times> string option" where
  "loadOrCreateHostKey parse signer gen marshal path file =
     (case file of
        Some data \<Rightarrow> (parse data, None)
      | None \<Rightarrow>
          (case gen of
             None \<Rightarrow> (None, None)
           | Some priv \<Rightarrow>
               (case marshal priv of
                  None \<Rightarrow> (None, None)
                | Some block \<Rightarrow> (signer priv, if path \<noteq> [] then Some block else None))))"

text \<open>What is written at the first start is the same key at the next.\<close>

lemma host_key_is_kept:
  assumes "\<And>priv block. marshal priv = Some block \<Longrightarrow> parse block = signer priv"
    and "loadOrCreateHostKey parse signer gen marshal path None = (k, Some block)"
  shows "loadOrCreateHostKey parse signer gen' marshal path (Some block) = (k, None)"
  using assms by (auto simp: loadOrCreateHostKey_def split: option.splits if_splits)

section \<open>The key callback\<close>

record permissions =
  pe_ports :: string
  pe_name :: string

definition PublicKeyCallback ::
  "(string \<Rightarrow> ('k \<times> string \<times> string list \<times> string) option) \<Rightarrow> ('k \<Rightarrow> string) \<Rightarrow> auth_store \<Rightarrow>
     gotime option \<Rightarrow> string option \<Rightarrow> 'k \<Rightarrow> (auth_store \<times> permissions option) option" where
  "PublicKeyCallback parse fp a st data key =
     map_option (\<lambda>(a', info, lg).
        (a', map_option (\<lambda>i. \<lparr>pe_ports = ki_Ports i, pe_name = ki_Name i\<rparr>) info))
       (auth_lookup parse fp a st data (fp key))"

text \<open>The entries of a file, in the order its lines are parsed.\<close>

inductive in_file ::
  "(string \<Rightarrow> ('k \<times> string \<times> string list \<times> string) option) \<Rightarrow> string \<Rightarrow> 'k \<times> string \<times> string list \<Rightarrow> bool"
  for parse where
  in_file_here: "data \<noteq> [] \<Longrightarrow> parse data = Some (k, c, os, r) \<Longrightarrow> in_file parse data (k, c, os)"
| in_file_later: "data \<noteq> [] \<Longrightarrow> parse data = Some (k, c, os, r) \<Longrightarrow> in_file parse r x \<Longrightarrow> in_file parse data x"

inductive_cases in_fileE: "in_file parse data (k, c, os)"

lemma load_loop_in_file:
  assumes "shrinks parse"
  shows "load_loop parse fp data out = Some ks \<Longrightarrow> get ks q = Some info \<Longrightarrow>
     get out q = Some info
     \<or> (\<exists>k c os. in_file parse data (k, c, os) \<and> fp k = q \<and> info = info_of os c)"
proof (induction data arbitrary: out rule: measure_induct_rule [of length])
  case (less data)
  show ?case
  proof (cases "data = [] \<or> parse data = None")
    case True
    with less.prems show ?thesis by (auto simp: load_loop.simps [of parse fp data] split: if_splits)
  next
    case False
    then obtain k c os r where p: "parse data = Some (k, c, os, r)" by auto
    with assms have "length r < length data" by (auto simp: shrinks_def)
    moreover have "load_loop parse fp r (put (fp k) (info_of os c) out) = Some ks"
      using less.prems(1) False p by (simp add: load_loop.simps [of parse fp data])
    ultimately consider "get (put (fp k) (info_of os c) out) q = Some info"
      | k' c' os' where "in_file parse r (k', c', os')" "fp k' = q" "info = info_of os' c'"
      using less.IH less.prems(2) by blast
    then show ?thesis
    proof cases
      case 1
      then show ?thesis using False p by (auto split: if_splits intro: in_file_here)
    next
      case 2
      then show ?thesis using False p by (blast intro: in_file_later)
    qed
  qed
qed

text \<open>
  C7. A key is let in only for what the file says of it: after any history of lookups, the name and
  the ports a client is given are those of a line of the \<open>authorized_keys\<close> content in force, the one
  last read when every edit changes the modification time (\<open>in_force\<close> of \<open>Auth\<close>), whose
  key has the fingerprint of the client's; the ports are exactly those of its \<open>permitlisten\<close>
  options, and nothing is granted while no content could be read.
\<close>

theorem permissions_are_in_the_file:
  assumes "\<forall>d k c os r. parse d = Some (k, c, os, r) \<longrightarrow> length r < length d"
    and "auth_run parse fp obs NewAuth = Some a"
    and "PublicKeyCallback parse fp a (map_option fst ob) (Option.bind ob snd) key = Some (a', Some perm)"
  shows "\<exists>m d k c os. in_force (map fst obs @ [ob]) = Some (m, d)
       \<and> in_file parse d (k, c, os) \<and> fp k = fp key \<and> pe_name perm = c
       \<and> set (parsePorts (pe_ports perm)) =
           {word_of_int n | opt v n. opt \<in> set os \<and> option_port opt = Some v \<and> atoi v = Some n}"
proof -
  have sh: "shrinks parse" using assms(1) by (simp add: shrinks_def)
  let ?acc = "in_force (map fst obs @ [ob])"
  have sy: "auth_sync parse fp a (in_force (map fst obs))"
    using auth_run_sync [OF sh auth_sync_start, of fp obs] assms(2) by simp
  obtain info where info: "get (keys_at parse fp ?acc) (fp key) = Some info"
    and perm: "pe_ports perm = ki_Ports info" "pe_name perm = ki_Name info"
    using auth_lookup_step [OF sh sy, of ob "fp key"] assms(3)
    by (auto simp: PublicKeyCallback_def dest: sym)
  then obtain m d where m: "?acc = Some (m, d)" by (auto simp: keys_at_def split: option.splits)
  obtain ks where "load_loop parse fp d [] = Some ks" using load_loop_total [OF sh] by blast
  then obtain k c os where "in_file parse d (k, c, os)" "fp k = fp key" "info = info_of os c"
    using load_loop_in_file [OF sh, of fp d "[]" ks "fp key" info] info m
    by (auto simp: keys_at_def)
  with m perm set_parsePorts_info [of os c] show ?thesis by (auto simp: info_of_def)
qed

theorem permissions_are_in_the_file_witness:
  "\<exists>a' perm. PublicKeyCallback line_parse id NewAuth (Some 1) (Some ''k1'') ''k1'' = Some (a', Some perm)
     \<and> pe_name perm = ''k1'' \<and> 8080 \<in> set (parsePorts (pe_ports perm))"
proof -
  have "load_loop line_parse id ''k1'' [] = Some [(''k1'', info_of [''permitlisten=8080''] ''k1'')]"
    by (simp add: load_loop.simps line_parse_def Let_def)
  then obtain a' where cb: "PublicKeyCallback line_parse id NewAuth (Some 1) (Some ''k1'') ''k1''
      = Some (a', Some \<lparr>pe_ports = ki_Ports (info_of [''permitlisten=8080''] ''k1''), pe_name = ''k1''\<rparr>)"
    by (simp add: PublicKeyCallback_def auth_lookup_def reload_def loadAuthorized_def NewAuth_def info_of_def)
  let ?perm = "\<lparr>pe_ports = ki_Ports (info_of [''permitlisten=8080''] ''k1''), pe_name = ''k1''\<rparr>"
  obtain k c os where f: "in_file line_parse ''k1'' (k, c, os)"
    and ports: "set (parsePorts (pe_ports ?perm)) =
        {word_of_int n | opt v n. opt \<in> set os \<and> option_port opt = Some v \<and> atoi v = Some n}"
    using permissions_are_in_the_file [OF line_parse_shrinks, of id "[]" NewAuth
        "Some (1, Some ''k1'')" "''k1''" a' ?perm] cb
    by (auto simp: in_force_def readable_def List.map_filter_def)
  from f have "os = [''permitlisten=8080'']"
    by (rule in_fileE) (auto simp: line_parse_def Let_def elim: in_file.cases)
  moreover have "option_port ''permitlisten=8080'' = Some ''8080''"
    by (simp add: option_port_def has_prefix_def trim_prefix_def trim_quotes_def trim_left_def trim_right_def
        split_host_port_def last_index_byte_def atoi_def parse_int_def split_sign_def digit_val_def
        quote_char_def)
  moreover have "atoi ''8080'' = Some 8080"
    by (simp add: atoi_def parse_int_def split_sign_def digit_val_def)
  ultimately have "8080 \<in> set (parsePorts (pe_ports ?perm))" using ports by force
  with cb show ?thesis by auto
qed

section \<open>Keepalive\<close>

text \<open>
  What happens to one probe, by when after it was sent: an answer, an error of the request, the end
  of the session, or nothing.
\<close>

datatype ka_fate = Answer duration | Request_failed duration | Session_done duration | Silence

text \<open>How long \<open>probe\<close> takes and what it returns.\<close>

definition ka_probe :: "tunables \<Rightarrow> ka_fate \<Rightarrow> duration \<times> bool" where
  "ka_probe tn fate =
     (let kt = KeepaliveTimeout (getTunables tn) in
      case fate of
        Answer d \<Rightarrow> if d < kt then (d, True) else (kt, False)
      | Request_failed d \<Rightarrow> if d < kt then (d, False) else (kt, False)
      | Session_done d \<Rightarrow> if d < kt then (d, True) else (kt, False)
      | Silence \<Rightarrow> (kt, False))"

text \<open>
  A ticker of period \<open>i\<close> started at \<open>t0\<close> whose last tick was taken at \<open>r\<close>: the next one fires at the
  first multiple of the period after \<open>r\<close>, and waits in the channel while the loop is busy.
\<close>

definition next_fire :: "duration \<Rightarrow> gotime \<Rightarrow> gotime \<Rightarrow> gotime" where
  "next_fire i t0 r = t0 + i * ((r - t0) div i + 1)"

datatype ka_state = Waiting gotime | Closed_at gotime | Returned

text \<open>
  One turn of the loop, when a tick is taken at \<open>r\<close>: \<open>fate r\<close> is what happens to the probe
  sent then, and \<open>fin\<close> the time the session ends, if it does. When the session has ended the select
  has both cases ready and may take either; the model takes the end.
\<close>

definition ka_turn :: "tunables \<Rightarrow> gotime \<Rightarrow> (gotime \<Rightarrow> ka_fate) \<Rightarrow> gotime option \<Rightarrow> gotime \<Rightarrow> ka_state" where
  "ka_turn tn t0 fate fin r =
     (if (case fin of None \<Rightarrow> False | Some e \<Rightarrow> e \<le> r) then Returned
      else
        let (d, ok) = ka_probe tn (fate r) in
        if \<not> ok then Closed_at (r + d)
        else Waiting (max (r + d) (next_fire (KeepaliveInterval tn) t0 r)))"

fun ka_loop :: "tunables \<Rightarrow> gotime \<Rightarrow> (gotime \<Rightarrow> ka_fate) \<Rightarrow> gotime option \<Rightarrow> nat \<Rightarrow> ka_state \<Rightarrow> ka_state" where
  "ka_loop tn t0 fate fin 0 st = st"
| "ka_loop tn t0 fate fin (Suc n) st =
     (case st of Waiting r \<Rightarrow> ka_loop tn t0 fate fin n (ka_turn tn t0 fate fin r) | _ \<Rightarrow> st)"

definition keepalive :: "tunables \<Rightarrow> gotime \<Rightarrow> (gotime \<Rightarrow> ka_fate) \<Rightarrow> gotime option \<Rightarrow> nat \<Rightarrow> ka_state" where
  "keepalive tn t0 fate fin n = ka_loop tn t0 fate fin n (Waiting (next_fire (KeepaliveInterval tn) t0 t0))"

lemma next_fire_bounds: "0 < i \<Longrightarrow> r < next_fire i t0 r \<and> next_fire i t0 r \<le> r + i"
proof -
  assume i: "0 < i"
  have "i * ((r - t0) div i) = (r - t0) - (r - t0) mod i" by (simp add: minus_mod_eq_mult_div)
  moreover have "0 \<le> (r - t0) mod i" "(r - t0) mod i < i" using i by simp_all
  ultimately show ?thesis by (simp add: next_fire_def distrib_left)
qed

text \<open>
  Nothing comes from the client after \<open>T\<close>: a probe is answered or fails by then, or never.
\<close>

definition silent_after :: "gotime \<Rightarrow> (gotime \<Rightarrow> ka_fate) \<Rightarrow> bool" where
  "silent_after T fate \<longleftrightarrow>
     (\<forall>r. case fate r of
        Answer d \<Rightarrow> 0 \<le> d \<and> r + d \<le> T
      | Request_failed d \<Rightarrow> 0 \<le> d
      | Session_done d \<Rightarrow> False
      | Silence \<Rightarrow> True)"

lemma ka_turn_silent:
  assumes s: "silent_after T fate" and i: "0 < KeepaliveInterval tn" and k: "0 < KeepaliveTimeout tn"
    and r: "r \<le> T + KeepaliveInterval tn"
  shows "(\<exists>t. ka_turn tn t0 fate None r = Closed_at t
              \<and> t \<le> T + KeepaliveInterval tn + KeepaliveTimeout tn)
       \<or> (\<exists>r'. ka_turn tn t0 fate None r = Waiting r' \<and> r \<le> T \<and> r < r'
               \<and> r' \<le> T + KeepaliveInterval tn)"
proof (cases "snd (ka_probe tn (fate r))")
  case False
  then have "fst (ka_probe tn (fate r)) \<le> KeepaliveTimeout tn"
    by (auto simp: ka_probe_def getTunables_def Let_def split: ka_fate.splits)
  with False r show ?thesis by (auto simp: ka_turn_def Let_def split: prod.splits)
next
  case True
  then obtain d where f: "fate r = Answer d" and d: "d < KeepaliveTimeout tn"
    and p: "ka_probe tn (fate r) = (d, True)"
    using s [unfolded silent_after_def, THEN spec [of _ r]]
    by (auto simp: ka_probe_def getTunables_def Let_def split: ka_fate.splits if_splits)
  have dT: "0 \<le> d" "r + d \<le> T"
    using s [unfolded silent_after_def, THEN spec [of _ r]] f by auto
  let ?r = "max (r + d) (next_fire (KeepaliveInterval tn) t0 r)"
  have "ka_turn tn t0 fate None r = Waiting ?r" using p by (simp add: ka_turn_def)
  moreover have "r < ?r" "?r \<le> T + KeepaliveInterval tn"
    using next_fire_bounds [OF i, of r t0] dT i by auto
  ultimately show ?thesis using dT by auto
qed

lemma ka_loop_silent:
  assumes s: "silent_after T fate" and i: "0 < KeepaliveInterval tn" and k: "0 < KeepaliveTimeout tn"
    and r: "r \<le> T + KeepaliveInterval tn"
  shows "\<exists>n t. ka_loop tn t0 fate None n (Waiting r) = Closed_at t
              \<and> t \<le> T + KeepaliveInterval tn + KeepaliveTimeout tn"
  using r
proof (induction "nat (T + 1 - r)" arbitrary: r rule: less_induct)
  case less
  from ka_turn_silent [OF s i k less.prems, of t0]
  consider t where "ka_turn tn t0 fate None r = Closed_at t"
      "t \<le> T + KeepaliveInterval tn + KeepaliveTimeout tn"
    | r' where "ka_turn tn t0 fate None r = Waiting r'" "r \<le> T" "r < r'" "r' \<le> T + KeepaliveInterval tn"
    by blast
  then show ?case
  proof cases
    case 1
    then have "ka_loop tn t0 fate None (Suc 0) (Waiting r) = Closed_at t" by simp
    with 1 show ?thesis by blast
  next
    case 2
    then have "nat (T + 1 - r') < nat (T + 1 - r)" by simp
    from less.hyps [OF this 2(4)] obtain n t where
      "ka_loop tn t0 fate None n (Waiting r') = Closed_at t"
      "t \<le> T + KeepaliveInterval tn + KeepaliveTimeout tn" by blast
    moreover from this 2 have "ka_loop tn t0 fate None (Suc n) (Waiting r) = Closed_at t" by simp
    ultimately show ?thesis by blast
  qed
qed

text \<open>A session whose client answers in time is never closed by the keepalive.\<close>

lemma answered_sessions_stay:
  assumes "\<forall>r. \<exists>d. fate r = Answer d \<and> d < KeepaliveTimeout tn"
  shows "\<exists>r. keepalive tn t0 fate None n = Waiting r"
proof -
  have "\<exists>r'. ka_turn tn t0 fate None r = Waiting r'" for r
    using assms [THEN spec [of _ r]] by (auto simp: ka_turn_def ka_probe_def getTunables_def)
  then have turn: "\<exists>r'. ka_turn tn t0 fate None r = Waiting r'" for r .
  have "\<exists>r'. ka_loop tn t0 fate None n (Waiting r) = Waiting r'" for r
  proof (induction n arbitrary: r)
    case (Suc n)
    obtain r' where "ka_turn tn t0 fate None r = Waiting r'" using turn by blast
    with Suc.IH [of r'] show ?case by simp
  qed simp
  then show ?thesis by (simp add: keepalive_def)
qed

text \<open>
  C5. A client from which nothing comes after some moment is disconnected: the keepalive closes its
  session within one interval and one timeout of that moment, 50 seconds with the server's
  settings, however the last answered probes fell between the ticks.
\<close>

theorem silent_client_is_closed:
  assumes "silent_after T fate" and "t0 \<le> T"
  shows "\<exists>n t. keepalive tun t0 fate None n = Closed_at t \<and> t \<le> T + 50 * second"
proof -
  let ?r = "next_fire (KeepaliveInterval tun) t0 t0"
  have pos: "0 < KeepaliveInterval tun" "0 < KeepaliveTimeout tun" by (simp_all add: tun_def second_def)
  have "?r \<le> T + KeepaliveInterval tun"
    using next_fire_bounds [OF pos(1), of t0 t0] assms(2) by simp
  from ka_loop_silent [OF assms(1) pos this, of t0] obtain n t where
    "keepalive tun t0 fate None n = Closed_at t"
    "t \<le> T + KeepaliveInterval tun + KeepaliveTimeout tun" by (auto simp: keepalive_def)
  moreover have "KeepaliveInterval tun + KeepaliveTimeout tun = 50 * second" by (simp add: tun_def)
  ultimately show ?thesis by (intro exI [of _ n] exI [of _ t]) simp
qed

theorem silent_client_is_closed_witness:
  "\<exists>n t. keepalive tun 0 (\<lambda>r. if r \<le> 40 * second then Answer second else Silence) None n = Closed_at t
         \<and> t \<le> 91 * second"
proof -
  have "silent_after (41 * second) (\<lambda>r. if r \<le> 40 * second then Answer second else Silence)"
    by (simp add: silent_after_def second_def)
  from silent_client_is_closed [OF this, of 0] show ?thesis by (simp add: second_def)
qed

end
