(* ===== verification/Entry.thy ===== *)
theory Entry
  imports Supervisor Server_Run Links Traffic Meta Heartbeat_Server Speedtest
begin

text \<open>
  The two programs: the subcommand each \<open>main\<close> chooses (\<open>cmd/client/main.go\<close>,
  \<open>cmd/server/main.go\<close>), the initiator of the speed test, the start of the client (\<open>Run\<close> of
  \<open>internal/client/client.go\<close>), and the server from its start (\<open>Run\<close> of
  \<open>internal/tunnelserver/server.go\<close>) to the loop that accepts connections.
\<close>

section \<open>Subcommands\<close>

text \<open>\<open>args\<close> is \<open>os.Args[1:]\<close>; \<open>file\<close> and \<open>env\<close> are the other sources of the configuration.\<close>

datatype client_command = Client_version | Client_responder config | Client_run config

definition client_main :: "ha_options option \<Rightarrow> (string \<Rightarrow> string) \<Rightarrow> string list \<Rightarrow> client_command" where
  "client_main file env args =
     (case args of
        a # rest \<Rightarrow>
          (if a = ''version'' \<or> a = ''-v'' \<or> a = ''--version'' then Client_version
           else if a = ''responder'' then Client_responder (Load file env rest)
           else Client_run (Load file env args))
      | [] \<Rightarrow> Client_run (Load file env args))"

datatype server_command = Server_version | Server_speedtest config | Server_run config

definition server_main :: "ha_options option \<Rightarrow> (string \<Rightarrow> string) \<Rightarrow> string list \<Rightarrow> server_command" where
  "server_main file env args =
     (case args of
        a # rest \<Rightarrow>
          (if a = ''version'' \<or> a = ''-v'' \<or> a = ''--version'' then Server_version
           else if a = ''speedtest'' then Server_speedtest (Load file env rest)
           else Server_run (Load file env args))
      | [] \<Rightarrow> Server_run (Load file env args))"

text \<open>The exit status after \<open>must\<close>.\<close>

definition must :: "'e option \<Rightarrow> int" where
  "must err = (case err of None \<Rightarrow> 0 | Some e \<Rightarrow> 1)"

definition client_must :: "'e option \<Rightarrow> int" where
  "client_must err = (case err of None \<Rightarrow> 0 | Some e \<Rightarrow> 1)"

datatype initiator_result = Missing_destination | Measured_by measured

definition RunInitiator :: "(string \<Rightarrow> duration \<Rightarrow> measured) \<Rightarrow> config \<Rightarrow> initiator_result" where
  "RunInitiator meas cfg =
     (if SpeedtestAddr cfg = [] then Missing_destination
      else Measured_by (meas (SpeedtestAddr cfg) defaultDur))"

section \<open>The start of the client\<close>

text \<open>The heartbeat: not configured, configured without a name, or running with these arguments.\<close>

datatype heartbeat_start =
  Hb_off
| Hb_no_name
| Hb_runs string int string string duration

record client_started =
  cd_pin :: "pinned option"
  cd_stats :: stats
  cd_metrics :: "string option"
  cd_responder :: "string option"
  cd_heartbeat :: heartbeat_start
  cd_precheck :: bool

definition start_heartbeat :: "config \<Rightarrow> heartbeat_start" where
  "start_heartbeat cfg =
     (if 0 < HeartbeatPort cfg then
        (if HeartbeatName cfg = [] then Hb_no_name
         else Hb_runs (Host cfg) (HeartbeatPort cfg) (HeartbeatName cfg) (HeartbeatKey cfg)
                (HeartbeatInterval cfg))
      else Hb_off)"

text \<open>
  \<open>Run\<close> up to its loop: the error that stops it, or what it has started. \<open>parsed\<close> and \<open>written\<close> are the
  outcomes of reading and writing the pinned key.
\<close>

definition client_start ::
  "config \<Rightarrow> (hk_error + host_key) \<Rightarrow> (string \<times> string) option \<Rightarrow> gotime \<Rightarrow> run_error + client_started" where
  "client_start cfg parsed written now =
     (case pin_for_run cfg parsed written of
        Inl e \<Rightarrow> Inl e
      | Inr pin \<Rightarrow>
          Inr \<lparr>cd_pin = pin, cd_stats = stats_New (SpeedtestForwardPort cfg) now,
               cd_metrics = (if StatsAddr cfg \<noteq> [] then Some (StatsAddr cfg) else None),
               cd_responder = (if SpeedtestListen cfg \<noteq> [] then Some (SpeedtestListen cfg) else None),
               cd_heartbeat = start_heartbeat cfg, cd_precheck = precheck_on cfg\<rparr>)"

text \<open>
  A client that starts is not healthy yet, and with a host key configured it runs with a pin: it
  does not fall back to trusting the server.
\<close>

lemma started_client:
  assumes "client_start cfg parsed written now = Inr cd"
  shows "healthz t (cd_stats cd) = 503" and "cd_pin cd = None \<longleftrightarrow> HostKey cfg = []"
    and "Host cfg \<noteq> []"
  using assms
  by (auto simp: client_start_def pin_for_run_def healthz_def snap_def stats_New_def
      split: sum.splits if_splits option.splits)

section \<open>The start of the server\<close>

datatype start_error = Host_key_error | Authorized_keys_error auth_error | Listen_error

text \<open>The panel: its address, links and metadata; the echo: its address and server.\<close>

record started =
  sd_auth :: auth_store
  sd_store :: traffic_store
  sd_panel :: "(string \<times> link_config \<times> meta_store) option"
  sd_echo :: "(string \<times> hb_server) option"
  sd_registry :: registry

text \<open>
  \<open>signer\<close> is the outcome of loading the host key, \<open>st\<close> and
  \<open>data\<close> what is seen of \<open>authorized_keys\<close>, \<open>loaded\<close> what the traffic file decodes to and
  \<open>listen_ok\<close> whether the SSH address could be bound. \<open>None\<close> is a panic.
\<close>

definition server_Run ::
  "(string \<Rightarrow> ('k \<times> string \<times> string list \<times> string) option) \<Rightarrow> ('k \<Rightarrow> string) \<Rightarrow> config \<Rightarrow>
     's option \<Rightarrow> gotime option \<Rightarrow> string option \<Rightarrow> (string \<times> ct option) list \<Rightarrow> gotime \<Rightarrow> bool \<Rightarrow>
     (start_error + started) option" where
  "server_Run parse fp cfg signer st data loaded now listen_ok =
     (if signer = None then Some (Inl Host_key_error)
      else (case reload parse fp NewAuth st data of
              None \<Rightarrow> None
            | Some (_, Inl e) \<Rightarrow> Some (Inl (Authorized_keys_error e))
            | Some (auth, Inr _) \<Rightarrow>
                (case NewTrafficStore (ServerTrafficFile cfg) loaded now of
                   None \<Rightarrow> None
                 | Some store \<Rightarrow>
                     (if \<not> listen_ok then Some (Inl Listen_error)
                      else Some (Inr
                        \<lparr>sd_auth = auth, sd_store = store,
                         sd_panel =
                           (if ServerMonitorAddr cfg \<noteq> []
                            then Some (ServerMonitorAddr cfg,
                                       ParseLinkConfig (ServerLinks cfg) (ServerLinkBackupSuffix cfg),
                                       NewMetaStore (ServerClientsFile cfg))
                            else None),
                         sd_echo =
                           (if ServerUDPAddr cfg \<noteq> []
                            then Some (ServerUDPAddr cfg, (NewServer (HeartbeatKey cfg))\<lparr>on_lost := True, on_resume := True\<rparr>)
                            else None),
                         sd_registry = NewRegistry\<rparr>)))))"

text \<open>With no sources but its defaults the server serves tunnels only: no panel and no echo.\<close>

lemma default_server_has_no_panel:
  assumes "server_Run parse fp defaults signer st data loaded now ok = Some (Inr sd)"
  shows "sd_panel sd = None \<and> sd_echo sd = None \<and> ts_path (sd_store sd) = ''/data/traffic.json''"
  using assms
  by (auto simp: server_Run_def defaults_def NewTrafficStore_def split: if_splits option.splits sum.splits prod.splits)

text \<open>A server that starts has read its keys: the first lookup reads nothing while the file is unchanged.\<close>

lemma started_server_has_keys:
  assumes "server_Run parse fp cfg signer (Some m) data loaded now ok = Some (Inr sd)"
  shows "ak_keys (sd_auth sd) \<noteq> None \<and> ak_mtime (sd_auth sd) = m
       \<and> reload parse fp (sd_auth sd) (Some m) data' = Some (sd_auth sd, Inr False)"
  using assms
  by (auto simp: server_Run_def reload_def NewAuth_def split: if_splits option.splits sum.splits prod.splits)

section \<open>Connections\<close>

text \<open>
  A connection is handed to a goroutine of its own, after the keepalive of TCP was switched on when it is a TCP
  connection.
\<close>

definition accept_conn :: "'c \<times> bool \<Rightarrow> 'c \<times> duration option" where
  "accept_conn c = (fst c, if snd c then Some (30 * second) else None)"

definition server_accept :: "('c \<times> bool) option list \<Rightarrow> ('c \<times> duration option) list \<times> bool" where
  "server_accept cs = accept_loop accept_conn cs"

text \<open>The server handles every connection it accepts, and returns only when \<open>Accept\<close> fails.\<close>

lemma server_accept_all:
  "list_all (\<lambda>c. c \<noteq> None) cs \<Longrightarrow> server_accept cs = (map (accept_conn \<circ> the) cs, False)"
  "server_accept (map Some xs @ None # cs) = (map accept_conn xs, True)"
proof -
  show "server_accept cs = (map (accept_conn \<circ> the) cs, False)" if "list_all (\<lambda>c. c \<noteq> None) cs"
    using that by (simp add: server_accept_def accept_loop_cut list_all_iff takeWhile_eq_all_conv [THEN iffD2])
       (use that in \<open>auto simp: list_all_iff\<close>)
  show "server_accept (map Some xs @ None # cs) = (map accept_conn xs, True)"
    by (induction xs) (simp_all add: server_accept_def)
qed

end
