(* ===== verification/Spec2Isabelle.thy ===== *)
theory Spec2Isabelle
  imports Page_View Sampler Pipe Handover Supervisor Heartbeat_Client Entry
begin

text \<open>
  A verification development of tunnelkit, the reverse SSH tunnels of \<open>src/core\<close>: a client that keeps
  an ssh process with remote forwards alive, and a server that accepts the forwards, pipes their
  connections, and shows what happens on a web panel.

  The parts and how they interact. The client's supervisor (\<open>internal/client\<close>) runs ssh with the
  command line made from the configuration (\<open>internal/config\<close>), publishes its state
  (\<open>internal/stats\<close>) and, in its own goroutine, sends UDP beats (\<open>internal/heartbeat\<close>). The server
  (\<open>internal/tunnelserver\<close>) lets a key in by its line of \<open>authorized_keys\<close>, makes a session, evicts
  the previous session of the same client, opens a listener for each permitted forward and pipes its
  connections. Sessions and bytes are recorded in the registry, the traffic store and the record of
  failed attempts (\<open>internal/monitor\<close>), from which the panel answers, with the metadata of
  clients, the links to them and the beats the UDP echo has seen.

  The theories, in the order of their imports:

    \<^item> \<open>Prelude\<close>: machine types, the clock as integers of nanoseconds with Go's saturating \<open>Sub\<close>, the
      string functions of the standard library that the code uses, Go maps as association lists in
      iteration order (\<open>get\<close>, \<open>put\<close>), bounded logs (locale \<open>bounded_log\<close>), reachability with
      invariants (locale \<open>invariant\<close>), refinement of event sequences (locale \<open>simulation\<close>), and what a
      reader finds of a file over time (\<open>file_obs\<close>: stamp and content are independent).
    \<^item> \<open>Sha256\<close>, \<open>Packet\<close>: SHA-256 and HMAC of the standard library, and the heartbeat packet
      (\<open>heartbeat/packet.go\<close>) as a codec (locale \<open>packet_codec\<close>): \<open>decode\<close> accepts exactly what
      \<open>encode\<close> produces under the same key.
    \<^item> \<open>Heartbeat_Server\<close> (\<open>heartbeat/server.go\<close>): one turn of the receiving loop, the two critical
      sections of \<open>note\<close>, the checker, and the interleaving of these and of the callbacks, which run
      outside the mutex, as the step relation \<open>hb_sys_step\<close>.
    \<^item> \<open>Heartbeat_Client\<close> (\<open>heartbeat/client.go\<close>): the loop of \<open>RunClient\<close> as events (a beat, a reply,
      the end of the wait), with the account of every beat, and its agreement with the server.
    \<^item> \<open>Attempts\<close> (\<open>monitor/attempts.go\<close>): \<open>Record\<close>, \<open>Recent\<close> and \<open>Diagnose\<close> as functions of the
      history of connections.
    \<^item> \<open>Registry\<close> (\<open>monitor/monitor.go\<close>, 25 to 233 and 675 to 685): the clients in a store of objects,
      because a session's pointer outlives its registry entry; a refinement to a map of sessions.
    \<^item> \<open>Traffic\<close> (\<open>monitor/traffic.go\<close>): counters, the availability log, the uptime percentage and the
      pruning before a save; an operation that can panic on a nil map gives \<open>None\<close>.
    \<^item> \<open>Sampler\<close> (\<open>monitor/monitor.go\<close>, 423 to 450): the ticks of the sampler over the life of a server, as
      runs of the traffic store.
    \<^item> \<open>Auth\<close> (\<open>tunnelserver/server.go\<close>, 512 to 612): the options of a key, the reload of the file by
      its modification time (an edit that keeps it is missed), the ports of a session.
    \<^item> \<open>Sessions\<close> (173 to 283 and 330 to 510): handshakes, forwards and the session manager, with every
      session in its own goroutine and the table of listening sockets as state; \<open>srv_act\<close> is the step
      relation, in which each step names its actor, \<open>srv_step\<close> a step of any actor, \<open>ports_inv\<close> and
      \<open>mgr_inv\<close> the invariants. \<open>Handover\<close>: the handover of ports on a reconnection, by the steps of the
      two sessions alone and in every run in which the new one does not give up.
    \<^item> \<open>Server_Run\<close> (54 to 115, 285 to 326, 485 to 493, 586 to 602): tunables, host key, the key callback
      composed with \<open>Auth\<close>, the wait for an evicted session, and the keepalive over the times of its
      probes. \<open>Pipe\<close> (373 to 432): the pipes of
      all sessions over the shared registry and traffic store.
    \<^item> \<open>Config\<close> (\<open>config/config.go\<close>), \<open>Host_Key\<close> (\<open>client/hostkey.go\<close>), \<open>Client_Args\<close> and \<open>Supervisor\<close>
      (\<open>client/client.go\<close>, \<open>client/probe.go\<close>, \<open>stats/stats.go\<close>): the layers of the configuration with
      the flag parser, the pinned key and its file, the ssh arguments, and the supervisor's loop with
      its timer as the step relation \<open>sup_step\<close>.
    \<^item> \<open>Speedtest\<close> (\<open>speedtest/speedtest.go\<close>): the request line, the flows over the results of their
      reads and writes, and the aggregation.
    \<^item> \<open>Meta\<close> (\<open>monitor/meta.go\<close>), \<open>Links\<close>, \<open>Probe\<close> (\<open>monitor/probe.go\<close>) and \<open>Panel\<close>
      (\<open>monitor/monitor.go\<close>, 237 to 698): the metadata file with its validation, the labels and the
      root handler, the port test with its gate, and the handlers and the sampler.
    \<^item> \<open>Page\<close> and \<open>Page_View\<close>: the JavaScript of the constant in \<open>monitor/page.go\<close>. \<open>Page\<close> has its
      escaping, numbers and links and the availability it computes again in the browser; \<open>Page_View\<close> the
      HTML it builds from the answers of \<open>Panel\<close>: the graphics, the dialogs, the rows of the table, and
      the text a browser shows of them (\<open>visible\<close>).
    \<^item> \<open>Entry\<close>: the subcommands of the two programs, the start of the client, and the start of the server
      with its accept loop.

  What the groups of lemmas show. Access: the permissions of a client are those of a line of the file
  with its fingerprint; a listener always has exactly one owner, whose key permits it (if no key
  permits port 0); a forward is granted exactly when the port is permitted and free. Sessions: at most one session of a name is not closed or about to be closed, a reconnecting
  client gets its ports back, and a silent client is disconnected in 50 seconds. Accounting: every
  piped byte is counted once in the session and once in the store, rates times time are bytes, uptime
  is the share of the seconds in which the last entry the sampler noted says connected, and
  pruning changes no percentage. A failed handshake leaves one attempt in the record and is logged when
  due. Heartbeat:
  only authentic requests are echoed, every beat is accounted for, the losses and resumptions decided alternate.
  Panel: every known client is listed with its true state, the metadata shown is valid whatever the
  file holds, only listed ports are probed or proxied to, and the gate is exact despite forgetting. Files: keys
  and metadata follow their files as far as the stamps the code compares tell, and exactly when every
  edit changes the stamp. Page: its text is the status it was sent, its availability is the server's, the bar under it is exact, and no text of
  an operator or a client reaches the markup or breaks out of a handler's argument.
  Lemmas that are not stated as properties record what the code does at odds with its intent; the
  name of each says which.

  Interfaces. \<open>bounded_log\<close> is interpreted on the ring of attempts, the loss window of the client and
  the speed history; \<open>packet_codec\<close> on the packet functions; \<open>invariant\<close> on the registry, the
  heartbeat server, the sessions (twice) and the
  supervisor; \<open>simulation\<close> on the registry, the metadata store and the table of beats.

  Bounds and fuel. Counters, ports, sequence numbers and the converted numbers of \<open>permitlisten\<close> are
  words of their Go width; \<open>int\<close> is 64 bits wide, or 32 where \<open>Host_Key\<close> takes the width as an
  argument. Times are unbounded integers, their differences saturate as in Go. Floating-point numbers
  are rationals. The loop over \<open>authorized_keys\<close> is a partial function in the option type, and it
  is proved to return for every parser that consumes input; the keepalive takes the number of its
  turns, and the property gives a number that is enough. Every other loop is structural or has a
  measure. The availability log may change state 8000 times, which is what a save keeps.

  Parameters, with what is assumed of them only where a property says so: \<open>ssh.ParseAuthorizedKey\<close> and
  \<open>FingerprintSHA256\<close> (the parser consumes input), JSON decoders, \<open>url.Parse\<close>, the outcomes of
  sockets, HTTP requests, file operations and processes, and the clock readings.

  Not modelled: the SSH transport and its cryptography, the sockets and HTTP servers themselves, JSON
  encoding, the reverse proxy's copying, the fixed HTML and the style sheet of \<open>monitor/page.go\<close> and
  the browser's side of its script (fetching, the DOM, the texts of errors), log lines (except where a counter or a condition depends on them), and the printing of results. Handlers read
  the clock once. Strings are bytes; white space and case are ASCII except in \<open>Meta\<close>, which
  decodes UTF-8.
\<close>

end
